(* ===== verification/Prelude.thy ===== *)
theory Prelude
  imports Main "HOL-Library.Word"
begin

text \<open>
  Shared vocabulary of the development: bytes, byte-addressed blocks and the little-endian
  fields the on-disk structures are made of, the result type of kernel code (a value, a
  panic, a sleep or undefined behaviour), first-match array scans, and the C integer
  conversions the sources rely on.
\<close>

unbundle bit_operations_syntax

text \<open>Block addresses are pairs; quantifiers over them stay as written.\<close>

declare split_paired_All [simp del] split_paired_Ex [simp del]

named_theorems res_simps \<open>equations that run kernel code one call further\<close>
named_theorems field_simps_disk \<open>reads over writes of little-endian fields\<close>

section \<open>Bytes, blocks and C integers\<close>

type_synonym byte = "8 word"
type_synonym uint = "32 word"

text \<open>
  A block (or any other byte array a pointer leads to) is a function from the offset to
  the byte stored there. Only the offsets below the array's size are meaningful.
\<close>

type_synonym block = "nat \<Rightarrow> byte"

text \<open>A NUL-terminated C string as the array it occupies; beyond the string it reads as 0.\<close>

definition cstr :: "byte list \<Rightarrow> block" where
  "cstr l = (\<lambda>i. if i < length l then l ! i else 0)"

lemma cstr_nth [simp]: "i < length l \<Longrightarrow> cstr l i = l ! i"
  by (simp add: cstr_def)

lemma cstr_end [simp]: "length l \<le> i \<Longrightarrow> cstr l i = 0"
  by (simp add: cstr_def)

text \<open>The bytes of a string literal of the source.\<close>

definition lit :: "string \<Rightarrow> byte list" where
  "lit cs = map (\<lambda>c. of_nat (of_char c)) cs"

text \<open>Conversions to and from the 16-bit type \<^verbatim>\<open>short\<close>.\<close>

definition to_short :: "nat \<Rightarrow> int" where
  "to_short n = (if n mod 65536 < 32768 then int (n mod 65536) else int (n mod 65536) - 65536)"

definition of_short :: "int \<Rightarrow> nat" where
  "of_short i = nat (i mod 65536)"

definition is_short :: "int \<Rightarrow> bool" where
  "is_short i \<longleftrightarrow> - 32768 \<le> i \<and> i < 32768"

lemma of_short_less [simp]: "of_short i < 65536"
  by (simp add: of_short_def nat_less_iff)

lemma to_short_of_short [simp]: "is_short i \<Longrightarrow> to_short (of_short i) = i"
proof -
  assume i: "is_short i"
  have m: "of_short i mod 65536 = of_short i" by simp
  show ?thesis
  proof (cases "0 \<le> i")
    case True
    with i have "i mod 65536 = i" by (simp add: is_short_def)
    with True i m show ?thesis by (simp add: to_short_def of_short_def is_short_def nat_less_iff)
  next
    case False
    have "i mod 65536 = (i + 65536) mod 65536" by simp
    also from False i have "(i + 65536) mod 65536 = i + 65536"
      by (intro mod_pos_pos_trivial) (auto simp: is_short_def)
    finally show ?thesis using False i m
      by (simp add: to_short_def of_short_def is_short_def nat_less_iff)
  qed
qed

lemma is_short_to_short [simp]: "is_short (to_short n)"
proof -
  have "n mod 65536 < 65536" by simp
  then show ?thesis unfolding is_short_def to_short_def by auto
qed

text \<open>The value of a 32-bit pattern read as a C \<^verbatim>\<open>int\<close>.\<close>

definition to_int32 :: "nat \<Rightarrow> int" where
  "to_int32 n = (if n mod 4294967296 < 2147483648 then int (n mod 4294967296)
                 else int (n mod 4294967296) - 4294967296)"

lemma to_int32_small [simp]: "n < 2147483648 \<Longrightarrow> to_int32 n = int n"
  by (simp add: to_int32_def)

section \<open>Little-endian fields of a block\<close>

definition get16 :: "block \<Rightarrow> nat \<Rightarrow> nat" where
  "get16 b off = unat (b off) + 256 * unat (b (off + 1))"

definition put16 :: "block \<Rightarrow> nat \<Rightarrow> nat \<Rightarrow> block" where
  "put16 b off v = b(off := of_nat v, off + 1 := of_nat (v div 256))"

definition get32 :: "block \<Rightarrow> nat \<Rightarrow> nat" where
  "get32 b off = get16 b off + 65536 * get16 b (off + 2)"

definition put32 :: "block \<Rightarrow> nat \<Rightarrow> nat \<Rightarrow> block" where
  "put32 b off v = put16 (put16 b off v) (off + 2) (v div 65536)"

lemma unat_byte [simp]: "unat (of_nat n :: byte) = n mod 256"
  by (simp add: unat_of_nat)

lemma get16_put16 [simp]: "get16 (put16 b off v) off = v mod 65536"
proof -
  have "v mod 256 + 256 * (v div 256 mod 256) = v mod (256 * 256)"
    by (metis add.commute mod_mult2_eq)
  then show ?thesis by (simp add: get16_def put16_def)
qed

lemma get16_put16_other [field_simps_disk]:
  "off' + 2 \<le> off \<or> off + 2 \<le> off' \<Longrightarrow> get16 (put16 b off v) off' = get16 b off'"
  by (auto simp: get16_def put16_def)

lemma get16_less [simp]: "get16 b off < 65536"
proof -
  have "unat (b off) < 256" "unat (b (off + 1)) < 256"
    using unsigned_less [of "b off"] unsigned_less [of "b (off + 1)"] by simp_all
  then show ?thesis by (simp add: get16_def)
qed

lemma get32_put32 [simp]: "get32 (put32 b off v) off = v mod 4294967296"
proof -
  have "v mod 65536 + 65536 * (v div 65536 mod 65536) = v mod (65536 * 65536)"
    by (metis add.commute mod_mult2_eq)
  then show ?thesis by (simp add: get32_def put32_def get16_put16_other)
qed

lemma get32_put32_other [field_simps_disk]:
  "off' + 4 \<le> off \<or> off + 4 \<le> off' \<Longrightarrow> get32 (put32 b off v) off' = get32 b off'"
  by (auto simp: get32_def put32_def get16_put16_other)

lemma get32_put16_other [field_simps_disk]:
  "off' + 4 \<le> off \<or> off + 2 \<le> off' \<Longrightarrow> get32 (put16 b off v) off' = get32 b off'"
  by (auto simp: get32_def get16_put16_other)

lemma get16_put32_other [field_simps_disk]:
  "off' + 2 \<le> off \<or> off + 4 \<le> off' \<Longrightarrow> get16 (put32 b off v) off' = get16 b off'"
  by (auto simp: put32_def get16_put16_other)

lemma get32_less [simp]: "get32 b off < 4294967296"
proof -
  have "get16 b off < 65536" "get16 b (off + 2) < 65536" by (rule get16_less)+
  then show ?thesis unfolding get32_def by linarith
qed

text \<open>Arrays of \<^verbatim>\<open>uint\<close> inside a block.\<close>

primrec put_words :: "block \<Rightarrow> nat \<Rightarrow> nat list \<Rightarrow> block" where
  "put_words b off [] = b"
| "put_words b off (x # xs) = put_words (put32 b off x) (off + 4) xs"

definition get_words :: "block \<Rightarrow> nat \<Rightarrow> nat \<Rightarrow> nat list" where
  "get_words b off n = map (\<lambda>i. get32 b (off + 4 * i)) [0..<n]"

lemma length_get_words [simp]: "length (get_words b off n) = n"
  by (simp add: get_words_def)

lemma nth_get_words [simp]: "i < n \<Longrightarrow> get_words b off n ! i = get32 b (off + 4 * i)"
  by (simp add: get_words_def)

lemma get_words_Suc: "get_words b off (Suc n) = get32 b off # get_words b (off + 4) n"
proof -
  have "[0..<Suc n] = 0 # map Suc [0..<n]" by (simp only: map_Suc_upt upt_conv_Cons zero_less_Suc)
  then show ?thesis by (simp add: get_words_def o_def add_ac)
qed

lemma get32_put_words_other [field_simps_disk]:
  "off' + 4 \<le> off \<or> off + 4 * length xs \<le> off' \<Longrightarrow>
     get32 (put_words b off xs) off' = get32 b off'"
  by (induction xs arbitrary: b off) (auto simp: get32_put32_other)

lemma get16_put_words_other [field_simps_disk]:
  "off' + 2 \<le> off \<or> off + 4 * length xs \<le> off' \<Longrightarrow>
     get16 (put_words b off xs) off' = get16 b off'"
  by (induction xs arbitrary: b off) (auto simp: get16_put32_other)

lemma get_words_put_words [simp]:
  "get_words (put_words b off xs) off (length xs) = map (\<lambda>x. x mod 4294967296) xs"
  by (induction xs arbitrary: b off)
    (simp_all add: get_words_Suc get32_put_words_other, simp add: get_words_def)

text \<open>Copying \<open>n\<close> bytes of \<open>src\<close> to offset \<open>off\<close> of \<open>b\<close> (disjoint \<^verbatim>\<open>memmove\<close>), and filling.\<close>

definition blit :: "block \<Rightarrow> nat \<Rightarrow> block \<Rightarrow> nat \<Rightarrow> block" where
  "blit b off src n = (\<lambda>i. if off \<le> i \<and> i < off + n then src (i - off) else b i)"

lemma blit_in [simp]: "off \<le> i \<Longrightarrow> i < off + n \<Longrightarrow> blit b off src n i = src (i - off)"
  by (simp add: blit_def)

lemma blit_out [simp]: "i < off \<or> off + n \<le> i \<Longrightarrow> blit b off src n i = b i"
  by (auto simp: blit_def)

section \<open>Results of kernel code\<close>

text \<open>
  A kernel function returns a value together with the new state (\<open>Ok\<close>), stops the machine
  with \<^verbatim>\<open>panic\<close> (\<open>Panic\<close>, with its message), has to wait for another process
  (\<open>Sleeps\<close>, with the name of what it waits for), or runs into undefined behaviour of C
  such as an access outside an array (\<open>Undef\<close>).
\<close>

datatype 'a res = Ok 'a | Panic string | Sleeps string | Undef string

primrec rbind :: "'a res \<Rightarrow> ('a \<Rightarrow> 'b res) \<Rightarrow> 'b res" where
  "rbind (Ok x) f = f x"
| "rbind (Panic m) f = Panic m"
| "rbind (Sleeps m) f = Sleeps m"
| "rbind (Undef m) f = Undef m"

lemma rbind_eq_Ok [simp]: "rbind m f = Ok y \<longleftrightarrow> (\<exists>x. m = Ok x \<and> f x = Ok y)"
  by (cases m) auto

lemma rbind_assoc: "rbind (rbind m f) g = rbind m (\<lambda>x. rbind (f x) g)"
  by (cases m) auto

lemma rbind_cong [fundef_cong]:
  "m = m' \<Longrightarrow> (\<And>x. m' = Ok x \<Longrightarrow> f x = f' x) \<Longrightarrow> rbind m f = rbind m' f'"
  by (cases m') auto

text \<open>Repeating an operation, and running one for each element of a list.\<close>

primrec repeat_res :: "nat \<Rightarrow> ('s \<Rightarrow> ('a \<times> 's) res) \<Rightarrow> 's \<Rightarrow> ('a list \<times> 's) res" where
  "repeat_res 0 f s = Ok ([], s)"
| "repeat_res (Suc n) f s =
     rbind (f s) (\<lambda>(x, s). rbind (repeat_res n f s) (\<lambda>(xs, s). Ok (x # xs, s)))"

primrec each_res :: "('a \<Rightarrow> 's \<Rightarrow> 's res) \<Rightarrow> 'a list \<Rightarrow> 's \<Rightarrow> 's res" where
  "each_res f [] s = Ok s"
| "each_res f (x # xs) s = rbind (f x s) (each_res f xs)"

section \<open>First-match scans of an array\<close>

text \<open>
  The pattern \<^verbatim>\<open>for(i = 0; i < N; i++) if(P(a[i])) ...\<close>: the index of the first match.
\<close>

primrec first_idx :: "('a \<Rightarrow> bool) \<Rightarrow> 'a list \<Rightarrow> nat option" where
  "first_idx P [] = None"
| "first_idx P (x # xs) = (if P x then Some 0 else map_option Suc (first_idx P xs))"

lemma first_idx_None [simp]: "first_idx P xs = None \<longleftrightarrow> (\<forall>x \<in> set xs. \<not> P x)"
  by (induction xs) auto

lemma first_idx_Some:
  "first_idx P xs = Some i \<longleftrightarrow> i < length xs \<and> P (xs ! i) \<and> (\<forall>j < i. \<not> P (xs ! j))"
proof (induction xs arbitrary: i)
  case Nil
  then show ?case by simp
next
  case (Cons x xs)
  show ?case
  proof (cases "P x")
    case True
    then show ?thesis by (cases i) force+
  next
    case False
    show ?thesis
    proof (cases i)
      case 0
      with False show ?thesis by simp
    next
      case (Suc k)
      have "first_idx P (x # xs) = Some i \<longleftrightarrow> first_idx P xs = Some k"
        using False Suc by auto
      also have "\<dots> \<longleftrightarrow> k < length xs \<and> P (xs ! k) \<and> (\<forall>j < k. \<not> P (xs ! j))"
        by (rule Cons.IH)
      also have "\<dots> \<longleftrightarrow> i < length (x # xs) \<and> P ((x # xs) ! i) \<and> (\<forall>j < i. \<not> P ((x # xs) ! j))"
        using False Suc by (auto simp: less_Suc_eq_0_disj)
      finally show ?thesis .
    qed
  qed
qed

end
