(* ===== verification/Block.thy ===== *)
theory Block
  imports Prelude
begin

text \<open>
  The block layer as the file system sees it: what \<^verbatim>\<open>bread\<close>, \<^verbatim>\<open>bwrite\<close> and \<^verbatim>\<open>brelse\<close> of
  bio.c promise to their callers. A state has the contents of every block as a reader
  of the buffer cache sees it (\<open>blks\<close>), the contents on the disk (\<open>disk\<close>), the buffers that
  are locked at the moment (\<open>held\<close>) and the buffers pinned by \<^verbatim>\<open>B_DIRTY\<close> (\<open>dirty\<close>). The
  sequence of disk writes made so far (\<open>wtrace\<close>) is kept for reasoning about crashes.
  The theory Bio models the cache itself and shows that it implements this layer.
\<close>

section \<open>Sizes\<close>

abbreviation (input) BSIZE :: nat where "BSIZE \<equiv> 512"
abbreviation (input) MAXOPBLOCKS :: nat where "MAXOPBLOCKS \<equiv> 10"
abbreviation (input) LOGSIZE :: nat where "LOGSIZE \<equiv> 30"
abbreviation (input) NBUF :: nat where "NBUF \<equiv> 30"
abbreviation (input) FSSIZE :: nat where "FSSIZE \<equiv> 1000"
abbreviation (input) ROOTDEV :: nat where "ROOTDEV \<equiv> 1"
abbreviation (input) NINODE :: nat where "NINODE \<equiv> 50"
abbreviation (input) NFILE :: nat where "NFILE \<equiv> 100"
abbreviation (input) NOFILE :: nat where "NOFILE \<equiv> 16"
abbreviation (input) NDEV :: nat where "NDEV \<equiv> 10"

section \<open>State and operations\<close>

text \<open>A block is named by its device and its block number.\<close>

type_synonym baddr = "nat \<times> nat"

record logst =
  log_start :: nat
  log_size :: nat
  outstanding :: int
  committing :: bool
  log_dev :: nat
  lh_block :: "nat list"

record blk_state =
  blks :: "baddr \<Rightarrow> block"
  disk :: "baddr \<Rightarrow> block"
  held :: "baddr list"
  dirty :: "baddr list"
  wtrace :: "(baddr \<times> block) list"
  klog :: logst

text \<open>A locked buffer as its holder sees it; the data may be changed until it is written.\<close>

record bufh =
  b_dev :: nat
  b_blockno :: nat
  b_data :: block

abbreviation b_addr :: "bufh \<Rightarrow> baddr" where
  "b_addr bp \<equiv> (b_dev bp, b_blockno bp)"

text \<open>
  \<^verbatim>\<open>bread\<close> waits for a locked buffer, panics when every buffer is locked or dirty and none
  of them holds the block, and panics on a block beyond the end of the disk (idestart).
\<close>

definition bread :: "nat \<Rightarrow> nat \<Rightarrow> 'z blk_state_scheme \<Rightarrow> (bufh \<times> 'z blk_state_scheme) res" where
  "bread dev bno s =
     (if (dev, bno) \<in> set (held s) then Sleeps ''sleeplock''
      else if (dev, bno) \<notin> set (dirty s) \<and> NBUF \<le> card (set (held s) \<union> set (dirty s))
        then Panic ''bget: no buffers''
      else if FSSIZE \<le> bno then Panic ''incorrect blockno''
      else Ok (\<lparr>b_dev = dev, b_blockno = bno, b_data = blks s (dev, bno)\<rparr>,
               s\<lparr>held := (dev, bno) # held s\<rparr>))"

definition bwrite :: "bufh \<Rightarrow> 'z blk_state_scheme \<Rightarrow> 'z blk_state_scheme res" where
  "bwrite bp s =
     (if b_addr bp \<notin> set (held s) then Panic ''bwrite''
      else Ok (s\<lparr>blks := (blks s)(b_addr bp := b_data bp),
                 disk := (disk s)(b_addr bp := b_data bp),
                 dirty := removeAll (b_addr bp) (dirty s),
                 wtrace := wtrace s @ [(b_addr bp, b_data bp)]\<rparr>))"

definition brelse :: "bufh \<Rightarrow> 'z blk_state_scheme \<Rightarrow> 'z blk_state_scheme res" where
  "brelse bp s =
     (if b_addr bp \<notin> set (held s) then Panic ''brelse''
      else Ok (s\<lparr>held := remove1 (b_addr bp) (held s)\<rparr>))"

section \<open>Rules for the common access patterns\<close>

text \<open>Enough buffers for the blocks of \<open>A\<close> beside those pinned now.\<close>

definition room :: "baddr set \<Rightarrow> 'z blk_state_scheme \<Rightarrow> bool" where
  "room A s \<longleftrightarrow> card (A \<union> set (held s) \<union> set (dirty s)) \<le> NBUF"

lemma room_mono: "room B s \<Longrightarrow> A \<subseteq> B \<Longrightarrow> finite B \<Longrightarrow> room A s"
  unfolding room_def by (rule order_trans [OF card_mono]) auto

lemma room_anti:
  "room A s \<Longrightarrow> finite A \<Longrightarrow> set (held t) \<subseteq> set (held s) \<Longrightarrow> set (dirty t) \<subseteq> set (dirty s) \<Longrightarrow> room A t"
  unfolding room_def by (rule order_trans [OF card_mono]) auto

lemma room_not_full:
  assumes "room A s" "a \<in> A" "finite A" "a \<notin> set (held s)" "a \<notin> set (dirty s)"
  shows "card (set (held s) \<union> set (dirty s)) < NBUF"
proof -
  have "set (held s) \<union> set (dirty s) \<subset> A \<union> set (held s) \<union> set (dirty s)"
    using assms(2,4,5) by auto
  then have "card (set (held s) \<union> set (dirty s)) < card (A \<union> set (held s) \<union> set (dirty s))"
    using assms(3) by (intro psubset_card_mono) auto
  with assms(1) show ?thesis by (simp add: room_def)
qed

lemma bread_ok [res_simps]:
  assumes "room A s" "(dev, bno) \<in> A" "finite A" "(dev, bno) \<notin> set (held s)" "bno < FSSIZE"
  shows "bread dev bno s = Ok (\<lparr>b_dev = dev, b_blockno = bno, b_data = blks s (dev, bno)\<rparr>,
           s\<lparr>held := (dev, bno) # held s\<rparr>)"
  using assms room_not_full [OF assms(1-3)] by (auto simp: bread_def)

lemma bread_SomeD:
  assumes "bread dev bno s = Ok (bp, s')"
  shows "bp = \<lparr>b_dev = dev, b_blockno = bno, b_data = blks s (dev, bno)\<rparr>"
    and "s' = s\<lparr>held := (dev, bno) # held s\<rparr>" and "(dev, bno) \<notin> set (held s)" and "bno < FSSIZE"
  using assms by (auto simp: bread_def split: if_splits)

text \<open>
  Writing a block through to the disk, and copying one block onto another: the shape of
  the loops of \<^verbatim>\<open>write_log\<close> and \<^verbatim>\<open>install_trans\<close>.
\<close>

definition wrote :: "baddr \<Rightarrow> block \<Rightarrow> 'z blk_state_scheme \<Rightarrow> 'z blk_state_scheme" where
  "wrote a v s = s\<lparr>blks := (blks s)(a := v), disk := (disk s)(a := v),
      dirty := removeAll a (dirty s), wtrace := wtrace s @ [(a, v)]\<rparr>"

lemma wrote_simps [simp]:
  "blks (wrote a v s) = (blks s)(a := v)"
  "disk (wrote a v s) = (disk s)(a := v)"
  "held (wrote a v s) = held s"
  "dirty (wrote a v s) = removeAll a (dirty s)"
  "wtrace (wrote a v s) = wtrace s @ [(a, v)]"
  "klog (wrote a v s) = klog s"
  by (simp_all add: wrote_def)

abbreviation copied :: "baddr \<Rightarrow> baddr \<Rightarrow> 'z blk_state_scheme \<Rightarrow> 'z blk_state_scheme" where
  "copied src dst s \<equiv> wrote dst (blks s src) s"

lemma room_wrote: "finite A \<Longrightarrow> room A s \<Longrightarrow> room A (wrote a v s)"
  by (erule room_anti) auto

end
