(* ===== verification/Log.thy ===== *)
theory Log
  imports Block
begin

text \<open>
  The write-ahead log of log.c: the on-disk header, \<^verbatim>\<open>log_write\<close> with absorption,
  \<^verbatim>\<open>begin_op\<close>/\<^verbatim>\<open>end_op\<close>, the commit sequence and recovery. The lemmas show what each
  phase of a commit writes, and that a crash between any two disk writes followed by
  recovery leaves the home blocks either all old or all new.
\<close>

section \<open>The superblock\<close>

record superblock =
  sb_size :: nat
  sb_nblocks :: nat
  sb_ninodes :: nat
  sb_nlog :: nat
  sb_logstart :: nat
  sb_inodestart :: nat
  sb_bmapstart :: nat
  sb_journalstart :: nat
  sb_njournalblocks :: nat

definition get_superblock :: "block \<Rightarrow> superblock" where
  "get_superblock b = \<lparr>sb_size = get32 b 0, sb_nblocks = get32 b 4, sb_ninodes = get32 b 8,
     sb_nlog = get32 b 12, sb_logstart = get32 b 16, sb_inodestart = get32 b 20,
     sb_bmapstart = get32 b 24, sb_journalstart = get32 b 28, sb_njournalblocks = get32 b 32\<rparr>"

definition readsb :: "nat \<Rightarrow> 'z blk_state_scheme \<Rightarrow> (superblock \<times> 'z blk_state_scheme) res" where
  "readsb dev s =
     rbind (bread dev 1 s) (\<lambda>(bp, s).
     let sb = get_superblock (b_data bp) in
     rbind (brelse bp s) (\<lambda>s.
     Ok (sb, s)))"

section \<open>Operations\<close>

text \<open>Copy committed blocks from the log to their home location.\<close>

primrec install_trans_loop :: "nat \<Rightarrow> nat list \<Rightarrow> 'z blk_state_scheme \<Rightarrow> 'z blk_state_scheme res" where
  "install_trans_loop tail [] s = Ok s"
| "install_trans_loop tail (bno # bnos) s =
     rbind (bread (log_dev (klog s)) (log_start (klog s) + tail + 1) s) (\<lambda>(lbuf, s).
     rbind (bread (log_dev (klog s)) bno s) (\<lambda>(dbuf, s).
     let dbuf = dbuf\<lparr>b_data := b_data lbuf\<rparr> in
     rbind (bwrite dbuf s) (\<lambda>s.
     rbind (brelse lbuf s) (\<lambda>s.
     rbind (brelse dbuf s) (\<lambda>s.
     install_trans_loop (Suc tail) bnos s)))))"

definition install_trans :: "'z blk_state_scheme \<Rightarrow> 'z blk_state_scheme res" where
  "install_trans s = install_trans_loop 0 (lh_block (klog s)) s"

text \<open>
  The header block: the count at offset 0, the block numbers from offset 4. The count is an
  \<^verbatim>\<open>int\<close>; a count above \<^verbatim>\<open>LOGSIZE\<close> makes \<^verbatim>\<open>read_head\<close> write outside \<^verbatim>\<open>log.lh.block\<close>.
\<close>

definition read_head :: "'z blk_state_scheme \<Rightarrow> 'z blk_state_scheme res" where
  "read_head s =
     rbind (bread (log_dev (klog s)) (log_start (klog s)) s) (\<lambda>(buf, s).
     let n = nat (to_int32 (get32 (b_data buf) 0)) in
     if LOGSIZE < n then Undef ''log.lh.block''
     else
       let s = s\<lparr>klog := (klog s)\<lparr>lh_block := get_words (b_data buf) 4 n\<rparr>\<rparr> in
       brelse buf s)"

definition write_head :: "'z blk_state_scheme \<Rightarrow> 'z blk_state_scheme res" where
  "write_head s =
     rbind (bread (log_dev (klog s)) (log_start (klog s)) s) (\<lambda>(buf, s).
     let lh = lh_block (klog s);
         buf = buf\<lparr>b_data := put_words (put32 (b_data buf) 0 (length lh)) 4 lh\<rparr> in
     rbind (bwrite buf s) (\<lambda>s.
     brelse buf s))"

definition set_lh :: "nat list \<Rightarrow> 'z blk_state_scheme \<Rightarrow> 'z blk_state_scheme" where
  "set_lh lh s = s\<lparr>klog := (klog s)\<lparr>lh_block := lh\<rparr>\<rparr>"

definition recover_from_log :: "'z blk_state_scheme \<Rightarrow> 'z blk_state_scheme res" where
  "recover_from_log s =
     rbind (read_head s) (\<lambda>s.
     rbind (install_trans s) (\<lambda>s.
     write_head (set_lh [] s)))"

definition initlog :: "nat \<Rightarrow> 'z blk_state_scheme \<Rightarrow> 'z blk_state_scheme res" where
  "initlog dev s =
     rbind (readsb dev s) (\<lambda>(sb, s).
     recover_from_log (s\<lparr>klog := (klog s)\<lparr>log_start := sb_logstart sb,
        log_size := sb_nlog sb, log_dev := dev\<rparr>\<rparr>))"

definition begin_op :: "'z blk_state_scheme \<Rightarrow> 'z blk_state_scheme res" where
  "begin_op s =
     (let lg = klog s in
      if committing lg then Sleeps ''log''
      else if int (length (lh_block lg)) + (outstanding lg + 1) * int MAXOPBLOCKS > int LOGSIZE
        then Sleeps ''log''
      else Ok (s\<lparr>klog := lg\<lparr>outstanding := outstanding lg + 1\<rparr>\<rparr>))"

text \<open>Copy modified blocks from the cache to the log.\<close>

primrec write_log_loop :: "nat \<Rightarrow> nat list \<Rightarrow> 'z blk_state_scheme \<Rightarrow> 'z blk_state_scheme res" where
  "write_log_loop tail [] s = Ok s"
| "write_log_loop tail (bno # bnos) s =
     rbind (bread (log_dev (klog s)) (log_start (klog s) + tail + 1) s) (\<lambda>(to, s).
     rbind (bread (log_dev (klog s)) bno s) (\<lambda>(frm, s).
     let to = to\<lparr>b_data := b_data frm\<rparr> in
     rbind (bwrite to s) (\<lambda>s.
     rbind (brelse frm s) (\<lambda>s.
     rbind (brelse to s) (\<lambda>s.
     write_log_loop (Suc tail) bnos s)))))"

definition write_log :: "'z blk_state_scheme \<Rightarrow> 'z blk_state_scheme res" where
  "write_log s = write_log_loop 0 (lh_block (klog s)) s"

definition commit :: "'z blk_state_scheme \<Rightarrow> 'z blk_state_scheme res" where
  "commit s =
     (if lh_block (klog s) \<noteq> [] then
        rbind (write_log s) (\<lambda>s.
        rbind (write_head s) (\<lambda>s.
        rbind (install_trans s) (\<lambda>s.
        write_head (set_lh [] s))))
      else Ok s)"

definition end_op :: "'z blk_state_scheme \<Rightarrow> 'z blk_state_scheme res" where
  "end_op s =
     (let s = s\<lparr>klog := (klog s)\<lparr>outstanding := outstanding (klog s) - 1\<rparr>\<rparr> in
      if committing (klog s) then Panic ''log.committing''
      else if outstanding (klog s) = 0 then
        rbind (commit (s\<lparr>klog := (klog s)\<lparr>committing := True\<rparr>\<rparr>)) (\<lambda>s.
        Ok (s\<lparr>klog := (klog s)\<lparr>committing := False\<rparr>\<rparr>))
      else Ok s)"

definition log_write :: "bufh \<Rightarrow> 'z blk_state_scheme \<Rightarrow> 'z blk_state_scheme res" where
  "log_write bp s =
     (let lg = klog s; lh = lh_block lg in
      if LOGSIZE \<le> length lh \<or> log_size lg \<le> length lh + 1 then Panic ''too big a transaction''
      else if outstanding lg < 1 then Panic ''log_write outside of trans''
      else Ok (s\<lparr>klog := lg\<lparr>lh_block := (if b_blockno bp \<in> set lh then lh else lh @ [b_blockno bp])\<rparr>,
                 blks := (blks s)(b_addr bp := b_data bp),
                 dirty := List.insert (b_addr bp) (dirty s)\<rparr>))"

section \<open>The phases of a commit\<close>

lemma copy_step:
  assumes "room {(log_dev (klog s), n1), (log_dev (klog s), n2)} s" "held s = []" "n1 \<noteq> n2"
    and "n1 < FSSIZE" "n2 < FSSIZE"
  shows "rbind (bread (log_dev (klog s)) n1 s) (\<lambda>(b1, s).
     rbind (bread (log_dev (klog s)) n2 s) (\<lambda>(b2, s).
     rbind (bwrite (b2\<lparr>b_data := b_data b1\<rparr>) s) (\<lambda>s.
     rbind (brelse b1 s) (\<lambda>s. rbind (brelse (b2\<lparr>b_data := b_data b1\<rparr>) s) f)))) =
     f (copied (log_dev (klog s), n1) (log_dev (klog s), n2) s)"
proof -
  let ?d = "log_dev (klog s)"
  have r: "room {(?d, n1), (?d, n2)} (s\<lparr>held := [(?d, n1)]\<rparr>)"
    using assms(1,2) by (simp add: room_def insert_commute)
  have b1: "bread ?d n1 s =
      Ok (\<lparr>b_dev = ?d, b_blockno = n1, b_data = blks s (?d, n1)\<rparr>, s\<lparr>held := [(?d, n1)]\<rparr>)"
    using assms bread_ok [OF assms(1), of ?d n1] by simp
  have b2: "bread ?d n2 (s\<lparr>held := [(?d, n1)]\<rparr>) =
      Ok (\<lparr>b_dev = ?d, b_blockno = n2, b_data = blks s (?d, n2)\<rparr>, s\<lparr>held := [(?d, n2), (?d, n1)]\<rparr>)"
    using assms bread_ok [OF r, of ?d n2] by auto
  show ?thesis
    using assms(2,3) b1 b2 by (cases s) (auto simp: bwrite_def brelse_def wrote_def)
qed

lemma copy_step_rev:
  assumes "room {(log_dev (klog s), n1), (log_dev (klog s), n2)} s" "held s = []" "n1 \<noteq> n2"
    and "n1 < FSSIZE" "n2 < FSSIZE"
  shows "rbind (bread (log_dev (klog s)) n2 s) (\<lambda>(b2, s).
     rbind (bread (log_dev (klog s)) n1 s) (\<lambda>(b1, s).
     rbind (bwrite (b2\<lparr>b_data := b_data b1\<rparr>) s) (\<lambda>s.
     rbind (brelse b1 s) (\<lambda>s. rbind (brelse (b2\<lparr>b_data := b_data b1\<rparr>) s) f)))) =
     f (copied (log_dev (klog s), n1) (log_dev (klog s), n2) s)"
proof -
  let ?d = "log_dev (klog s)"
  have r: "room {(?d, n1), (?d, n2)} (s\<lparr>held := [(?d, n2)]\<rparr>)"
    using assms(1,2) by (simp add: room_def insert_commute)
  have b2: "bread ?d n2 s =
      Ok (\<lparr>b_dev = ?d, b_blockno = n2, b_data = blks s (?d, n2)\<rparr>, s\<lparr>held := [(?d, n2)]\<rparr>)"
    using assms bread_ok [OF assms(1), of ?d n2] by simp
  have b1: "bread ?d n1 (s\<lparr>held := [(?d, n2)]\<rparr>) =
      Ok (\<lparr>b_dev = ?d, b_blockno = n1, b_data = blks s (?d, n1)\<rparr>, s\<lparr>held := [(?d, n1), (?d, n2)]\<rparr>)"
    using assms bread_ok [OF r, of ?d n1] by auto
  show ?thesis
    using assms(2,3) b1 b2 by (cases s) (auto simp: bwrite_def brelse_def wrote_def)
qed

text \<open>Running a list of copies; each pair is a source and a destination.\<close>

primrec copies :: "(baddr \<times> baddr) list \<Rightarrow> 'z blk_state_scheme \<Rightarrow> 'z blk_state_scheme" where
  "copies [] s = s"
| "copies (p # ps) s = copies ps (copied (fst p) (snd p) s)"

text \<open>A sequence of disk writes applied to the contents of a disk.\<close>

primrec apply_writes :: "(baddr \<times> block) list \<Rightarrow> (baddr \<Rightarrow> block) \<Rightarrow> baddr \<Rightarrow> block" where
  "apply_writes [] d = d"
| "apply_writes (w # ws) d = apply_writes ws (d(fst w := snd w))"

lemma apply_writes_append [simp]: "apply_writes (xs @ ys) d = apply_writes ys (apply_writes xs d)"
  by (induction xs arbitrary: d) auto

lemma apply_writes_other: "a \<notin> fst ` set ws \<Longrightarrow> apply_writes ws d a = d a"
  by (induction ws arbitrary: d) auto

lemma apply_writes_hit:
  "distinct (map fst ws) \<Longrightarrow> (a, v) \<in> set ws \<Longrightarrow> apply_writes ws d a = v"
proof (induction ws arbitrary: d)
  case Nil
  then show ?case by simp
next
  case (Cons w ws)
  show ?case
  proof (cases "w = (a, v)")
    case True
    with Cons.prems(1) have "a \<notin> fst ` set ws" by force
    with True show ?thesis by (simp add: apply_writes_other)
  next
    case False
    with Cons show ?thesis by auto
  qed
qed

lemma copies_klog [simp]: "klog (copies ps s) = klog s" "held (copies ps s) = held s"
  by (induction ps arbitrary: s) auto

lemma copies_dirty: "set (dirty (copies ps s)) = set (dirty s) - snd ` set ps"
  by (induction ps arbitrary: s) auto

text \<open>When no destination is also a source, every copy reads the original contents.\<close>

definition copy_writes :: "(baddr \<times> baddr) list \<Rightarrow> 'z blk_state_scheme \<Rightarrow> (baddr \<times> block) list" where
  "copy_writes ps s = map (\<lambda>p. (snd p, blks s (fst p))) ps"

lemma copy_writes_simps [simp]:
  "copy_writes [] s = []"
  "copy_writes (p # ps) s = (snd p, blks s (fst p)) # copy_writes ps s"
  by (simp_all add: copy_writes_def)

lemma copies_effect:
  assumes "fst ` set ps \<inter> snd ` set ps = {}"
  shows "blks (copies ps s) = apply_writes (copy_writes ps s) (blks s)"
    and "disk (copies ps s) = apply_writes (copy_writes ps s) (disk s)"
    and "wtrace (copies ps s) = wtrace s @ copy_writes ps s"
proof -
  have "blks (copies ps s) = apply_writes (copy_writes ps s) (blks s) \<and>
        disk (copies ps s) = apply_writes (copy_writes ps s) (disk s) \<and>
        wtrace (copies ps s) = wtrace s @ copy_writes ps s"
    using assms
  proof (induction ps arbitrary: s)
    case Nil
    then show ?case by (simp add: copy_writes_def)
  next
    case (Cons p ps)
    have "snd p \<notin> fst ` set ps" using Cons.prems by auto
    then have "fst q \<noteq> snd p" if "q \<in> set ps" for q using that by (metis image_eqI)
    then have "copy_writes ps (copied (fst p) (snd p) s) = copy_writes ps s"
      by (simp add: copy_writes_def)
    moreover have "fst ` set ps \<inter> snd ` set ps = {}" using Cons.prems by auto
    ultimately show ?case
      using Cons.IH [of "copied (fst p) (snd p) s"] by (simp add: fun_upd_def)
  qed
  then show "blks (copies ps s) = apply_writes (copy_writes ps s) (blks s)"
    "disk (copies ps s) = apply_writes (copy_writes ps s) (disk s)"
    "wtrace (copies ps s) = wtrace s @ copy_writes ps s" by auto
qed

text \<open>The copies of the two loops, from the \<open>tail\<close>-th log block on.\<close>

primrec log_pairs :: "nat \<Rightarrow> nat \<Rightarrow> nat \<Rightarrow> nat list \<Rightarrow> (baddr \<times> baddr) list" where
  "log_pairs dev start tail [] = []"
| "log_pairs dev start tail (b # bs) = ((dev, b), (dev, start + tail + 1)) # log_pairs dev start (Suc tail) bs"

definition swap_pairs :: "('a \<times> 'a) list \<Rightarrow> ('a \<times> 'a) list" where
  "swap_pairs ps = map (\<lambda>p. (snd p, fst p)) ps"

lemma swap_pairs_simps [simp]:
  "swap_pairs [] = []" "swap_pairs (p # ps) = (snd p, fst p) # swap_pairs ps"
  "fst ` set (swap_pairs ps) = snd ` set ps" "snd ` set (swap_pairs ps) = fst ` set ps"
  "length (swap_pairs ps) = length ps" "map snd (swap_pairs ps) = map fst ps"
  by (auto simp: swap_pairs_def image_image)

lemma log_pairs_fst: "map fst (log_pairs dev start tail bs) = map (Pair dev) bs"
  by (induction bs arbitrary: tail) auto

lemma log_pairs_snd:
  "map snd (log_pairs dev start tail bs) = map (\<lambda>i. (dev, start + i + 1)) [tail..<tail + length bs]"
  by (induction bs arbitrary: tail) (simp_all add: upt_conv_Cons del: upt_Suc)

lemma set_log_pairs:
  "fst ` set (log_pairs dev start tail bs) = Pair dev ` set bs"
  "snd ` set (log_pairs dev start tail bs) = (\<lambda>i. (dev, start + i + 1)) ` {tail..<tail + length bs}"
  using arg_cong [OF log_pairs_fst [of dev start tail bs], of set]
    arg_cong [OF log_pairs_snd [of dev start tail bs], of set] by simp_all

lemma length_log_pairs [simp]: "length (log_pairs dev start tail bs) = length bs"
  by (induction bs arbitrary: tail) auto

lemma log_pairs_nth:
  "i < length bs \<Longrightarrow> log_pairs dev start tail bs ! i = ((dev, bs ! i), (dev, start + tail + i + 1))"
  by (induction bs arbitrary: tail i) (auto simp: nth_Cons split: nat.splits)

lemma write_log_loop_eq:
  assumes "held s = []"
    and "\<forall>b \<in> set bs. \<forall>i < length bs.
           room {(log_dev (klog s), log_start (klog s) + tail + i + 1), (log_dev (klog s), b)} s"
    and "log_start (klog s) + tail + length bs < FSSIZE"
    and "\<forall>b \<in> set bs. b < FSSIZE \<and> (b \<le> log_start (klog s) \<or> log_start (klog s) + tail + length bs < b)"
  shows "write_log_loop tail bs s = Ok (copies (log_pairs (log_dev (klog s)) (log_start (klog s)) tail bs) s)"
  using assms
proof (induction bs arbitrary: tail s)
  case Nil
  then show ?case by simp
next
  case (Cons b bs)
  let ?d = "log_dev (klog s)" and ?st = "log_start (klog s)"
  let ?s = "copied (?d, b) (?d, ?st + tail + 1) s"
  have r: "room {(?d, b), (?d, ?st + tail + 1)} s"
    using Cons.prems(2) by (auto simp: insert_commute)
  have r': "\<forall>x \<in> set bs. \<forall>i < length bs. room {(?d, ?st + Suc tail + i + 1), (?d, x)} ?s"
    using Cons.prems(2) by (force intro: room_wrote)
  have "write_log_loop tail (b # bs) s = write_log_loop (Suc tail) bs ?s"
    using copy_step_rev [OF r Cons.prems(1), of "write_log_loop (Suc tail) bs"] Cons.prems(3,4)
    by (auto simp: Let_def)
  also have "\<dots> = Ok (copies (log_pairs ?d ?st (Suc tail) bs) ?s)"
    using Cons.IH [of ?s "Suc tail"] Cons.prems r' by auto
  finally show ?case by simp
qed

lemma install_trans_loop_eq:
  assumes "held s = []"
    and "\<forall>b \<in> set bs. \<forall>i < length bs.
           room {(log_dev (klog s), log_start (klog s) + tail + i + 1), (log_dev (klog s), b)} s"
    and "log_start (klog s) + tail + length bs < FSSIZE"
    and "\<forall>b \<in> set bs. b < FSSIZE \<and> (b \<le> log_start (klog s) \<or> log_start (klog s) + tail + length bs < b)"
  shows "install_trans_loop tail bs s =
     Ok (copies (swap_pairs (log_pairs (log_dev (klog s)) (log_start (klog s)) tail bs)) s)"
  using assms
proof (induction bs arbitrary: tail s)
  case Nil
  then show ?case by simp
next
  case (Cons b bs)
  let ?d = "log_dev (klog s)" and ?st = "log_start (klog s)"
  let ?s = "copied (?d, ?st + tail + 1) (?d, b) s"
  have r: "room {(?d, ?st + tail + 1), (?d, b)} s"
    using Cons.prems(2) by auto
  have r': "\<forall>x \<in> set bs. \<forall>i < length bs. room {(?d, ?st + Suc tail + i + 1), (?d, x)} ?s"
    using Cons.prems(2) by (force intro: room_wrote)
  have "install_trans_loop tail (b # bs) s = install_trans_loop (Suc tail) bs ?s"
    using copy_step [OF r Cons.prems(1), of "install_trans_loop (Suc tail) bs"] Cons.prems(3,4)
    by (auto simp: Let_def)
  also have "\<dots> = Ok (copies (swap_pairs (log_pairs ?d ?st (Suc tail) bs)) ?s)"
    using Cons.IH [of ?s "Suc tail"] Cons.prems r' by auto
  finally show ?case by simp
qed

lemma write_head_eq:
  assumes "held s = []" "room {(log_dev (klog s), log_start (klog s))} s" "log_start (klog s) < FSSIZE"
  defines "a \<equiv> (log_dev (klog s), log_start (klog s))"
  defines "v \<equiv> put_words (put32 (blks s a) 0 (length (lh_block (klog s)))) 4 (lh_block (klog s))"
  shows "write_head s = Ok (wrote a v s)"
  using assms(1,3) bread_ok [OF assms(2), of "log_dev (klog s)" "log_start (klog s)"]
  by (cases s) (auto simp: write_head_def bwrite_def brelse_def a_def v_def Let_def wrote_def)

lemma read_head_eq:
  assumes "held s = []" "room {(log_dev (klog s), log_start (klog s))} s" "log_start (klog s) < FSSIZE"
    and "n \<le> LOGSIZE" "get32 (blks s (log_dev (klog s), log_start (klog s))) 0 = n"
  shows "read_head s =
     Ok (set_lh (get_words (blks s (log_dev (klog s), log_start (klog s))) 4 n) s)"
  using assms(1,3-5) bread_ok [OF assms(2), of "log_dev (klog s)" "log_start (klog s)"]
  by (cases s) (auto simp: read_head_def brelse_def set_lh_def Let_def)

section \<open>Crashes and recovery\<close>

text \<open>
  A crash loses the cache and the in-memory log; the machine restarts from the disk.
\<close>

definition crash :: "(baddr \<Rightarrow> block) \<Rightarrow> 'z blk_state_scheme \<Rightarrow> 'z blk_state_scheme" where
  "crash d s = s\<lparr>blks := d, disk := d, held := [], dirty := [],
     klog := (klog s)\<lparr>outstanding := 0, committing := False, lh_block := []\<rparr>\<rparr>"

lemma crash_simps [simp]:
  "blks (crash d s) = d" "disk (crash d s) = d" "held (crash d s) = []" "dirty (crash d s) = []"
  "log_start (klog (crash d s)) = log_start (klog s)" "log_dev (klog (crash d s)) = log_dev (klog s)"
  by (simp_all add: crash_def)

definition log_region :: "'z blk_state_scheme \<Rightarrow> baddr set" where
  "log_region s = Pair (log_dev (klog s)) ` {log_start (klog s) ..< log_start (klog s) + log_size (klog s)}"

lemma mem_log_region [simp]:
  "(d, b) \<in> log_region s \<longleftrightarrow>
     d = log_dev (klog s) \<and> log_start (klog s) \<le> b \<and> b < log_start (klog s) + log_size (klog s)"
  by (auto simp: log_region_def)

text \<open>
  The log invariant: the logged blocks are distinct, lie outside the log region and fit the
  log, the dirty buffers are exactly the logged blocks, every other buffer agrees with the
  disk, and the on-disk log is empty. The log has at most as many blocks as there are
  buffers (mkfs makes it \<^verbatim>\<open>LOGSIZE\<close> blocks long). Between system calls no buffer is locked.
\<close>

definition log_inv :: "'z blk_state_scheme \<Rightarrow> bool" where
  "log_inv s \<longleftrightarrow>
     (let lg = klog s; lh = lh_block lg in
      distinct lh \<and> length lh < log_size lg \<and> log_size lg \<le> NBUF \<and>
      log_start lg + log_size lg \<le> FSSIZE \<and>
      (\<forall>b \<in> set lh. b < FSSIZE \<and> (log_dev lg, b) \<notin> log_region s) \<and>
      set (dirty s) = Pair (log_dev lg) ` set lh \<and>
      (\<forall>a. a \<notin> set (dirty s) \<longrightarrow> blks s a = disk s a) \<and>
      get32 (disk s (log_dev lg, log_start lg)) 0 = 0)"

definition log_wf :: "'z blk_state_scheme \<Rightarrow> bool" where
  "log_wf s \<longleftrightarrow> held s = [] \<and> log_inv s"

lemma log_wfD:
  assumes "log_wf s"
  shows "held s = []" "distinct (lh_block (klog s))" "length (lh_block (klog s)) < NBUF"
    "length (lh_block (klog s)) < log_size (klog s)"
    "log_start (klog s) + log_size (klog s) \<le> FSSIZE"
    "\<And>b. b \<in> set (lh_block (klog s)) \<Longrightarrow> b < FSSIZE"
    "\<And>b. b \<in> set (lh_block (klog s)) \<Longrightarrow>
       b < log_start (klog s) \<or> log_start (klog s) + log_size (klog s) \<le> b"
    "set (dirty s) = Pair (log_dev (klog s)) ` set (lh_block (klog s))"
    "\<And>a. a \<notin> set (dirty s) \<Longrightarrow> blks s a = disk s a"
    "get32 (disk s (log_dev (klog s), log_start (klog s))) 0 = 0"
  using assms by (fastforce simp: log_wf_def log_inv_def Let_def)+

text \<open>The header block with a given list of blocks, over the old contents of the block.\<close>

definition header :: "block \<Rightarrow> nat list \<Rightarrow> block" where
  "header old lh = put_words (put32 old 0 (length lh)) 4 lh"

lemma header_count [simp]: "length lh < 4294967296 \<Longrightarrow> get32 (header old lh) 0 = length lh"
  by (simp add: header_def get32_put_words_other)

lemma header_blocks [simp]:
  assumes "\<And>b. b \<in> set lh \<Longrightarrow> b < 4294967296"
  shows "get_words (header old lh) 4 (length lh) = lh"
  using assms by (simp add: header_def map_idI)

text \<open>Recovery from a disk whose log is empty changes only the header block.\<close>

lemma recover_empty:
  assumes "log_start (klog s) < FSSIZE" "get32 (d (log_dev (klog s), log_start (klog s))) 0 = 0"
  shows "\<exists>r. recover_from_log (crash d s) = Ok r \<and>
     (\<forall>a. a \<noteq> (log_dev (klog s), log_start (klog s)) \<longrightarrow> blks r a = d a \<and> disk r a = d a)"
proof -
  let ?c = "crash d s" and ?a = "(log_dev (klog s), log_start (klog s))"
  have h: "read_head ?c = Ok (set_lh [] ?c)"
    using read_head_eq [of ?c 0] assms by (simp add: room_def get_words_def)
  have w: "write_head (set_lh [] (set_lh [] ?c)) = Ok (wrote ?a (header (d ?a) []) (set_lh [] ?c))"
    using write_head_eq [of "set_lh [] (set_lh [] ?c)"] assms
    by (simp add: set_lh_def room_def header_def crash_def)
  show ?thesis
    using h w by (simp add: recover_from_log_def install_trans_def set_lh_def)
qed

text \<open>Recovery from a disk with a committed log installs the logged contents.\<close>

definition log_ok :: "'z blk_state_scheme \<Rightarrow> nat list \<Rightarrow> bool" where
  "log_ok s lh \<longleftrightarrow> distinct lh \<and> length lh < NBUF \<and> log_start (klog s) + length lh < FSSIZE \<and>
     (\<forall>b \<in> set lh. b < FSSIZE \<and> (b < log_start (klog s) \<or> log_start (klog s) + length lh < b))"

abbreviation pairs_of :: "'z blk_state_scheme \<Rightarrow> nat list \<Rightarrow> (baddr \<times> baddr) list" where
  "pairs_of s lh \<equiv> log_pairs (log_dev (klog s)) (log_start (klog s)) 0 lh"

lemma pairs_disjoint:
  assumes "log_ok s lh"
  shows "fst ` set (pairs_of s lh) \<inter> snd ` set (pairs_of s lh) = {}"
    and "(log_dev (klog s), log_start (klog s)) \<notin> fst ` set (pairs_of s lh)"
    and "(log_dev (klog s), log_start (klog s)) \<notin> snd ` set (pairs_of s lh)"
proof -
  show "fst ` set (pairs_of s lh) \<inter> snd ` set (pairs_of s lh) = {}"
    using assms unfolding set_log_pairs log_ok_def by auto
  show "(log_dev (klog s), log_start (klog s)) \<notin> fst ` set (pairs_of s lh)"
    using assms unfolding set_log_pairs log_ok_def by auto
  show "(log_dev (klog s), log_start (klog s)) \<notin> snd ` set (pairs_of s lh)"
    unfolding set_log_pairs by auto
qed

lemma install_writes:
  assumes "log_ok s lh"
  shows "a \<notin> Pair (log_dev (klog s)) ` set lh \<Longrightarrow>
           apply_writes (copy_writes (swap_pairs (pairs_of s lh)) t) d a = d a"
    and "i < length lh \<Longrightarrow>
           apply_writes (copy_writes (swap_pairs (pairs_of s lh)) t) d (log_dev (klog s), lh ! i) =
           blks t (log_dev (klog s), log_start (klog s) + i + 1)"
proof -
  let ?ws = "copy_writes (swap_pairs (pairs_of s lh)) t"
  have m: "map fst ?ws = map (Pair (log_dev (klog s))) lh"
    by (simp add: copy_writes_def swap_pairs_def o_def log_pairs_fst)
  have "set (map fst ?ws) = set (map (Pair (log_dev (klog s))) lh)" by (simp only: m)
  then have "fst ` set ?ws = Pair (log_dev (klog s)) ` set lh" by simp
  then show "a \<notin> Pair (log_dev (klog s)) ` set lh \<Longrightarrow> apply_writes ?ws d a = d a"
    by (simp add: apply_writes_other)
  show "apply_writes ?ws d (log_dev (klog s), lh ! i) = blks t (log_dev (klog s), log_start (klog s) + i + 1)"
    if "i < length lh"
  proof (rule apply_writes_hit)
    show "distinct (map fst ?ws)"
      unfolding m using assms by (auto simp: log_ok_def distinct_map inj_on_def)
    have "?ws ! i \<in> set ?ws" using that by (intro nth_mem) (simp add: copy_writes_def)
    then show "((log_dev (klog s), lh ! i), blks t (log_dev (klog s), log_start (klog s) + i + 1)) \<in> set ?ws"
      using that by (simp add: copy_writes_def swap_pairs_def log_pairs_nth)
  qed
qed

lemma recover_committed:
  assumes ok: "log_ok s lh" and hd: "d (log_dev (klog s), log_start (klog s)) = header old lh"
  shows "\<exists>r. recover_from_log (crash d s) = Ok r \<and>
     (\<forall>i < length lh. blks r (log_dev (klog s), lh ! i) = d (log_dev (klog s), log_start (klog s) + i + 1)) \<and>
     (\<forall>a. a \<noteq> (log_dev (klog s), log_start (klog s)) \<longrightarrow> a \<notin> Pair (log_dev (klog s)) ` set lh \<longrightarrow> blks r a = d a) \<and>
     (\<forall>a. disk r a = blks r a)"
proof -
  let ?c = "set_lh lh (crash d s)" and ?a = "(log_dev (klog s), log_start (klog s))"
  let ?ps = "swap_pairs (pairs_of s lh)"
  have lt: "\<And>b. b \<in> set lh \<Longrightarrow> b < 4294967296" "length lh < 4294967296"
    using ok by (auto simp: log_ok_def intro: less_trans [where y = FSSIZE] less_trans [where y = NBUF])
  have kc [simp]: "log_dev (klog ?c) = log_dev (klog s)" "log_start (klog ?c) = log_start (klog s)"
     "lh_block (klog ?c) = lh" "held ?c = []" "dirty ?c = []" "blks ?c = d" "disk ?c = d"
    by (simp_all add: set_lh_def)
  have hw: "get_words (d ?a) 4 (length lh) = lh" "get32 (d ?a) 0 = length lh"
    using header_blocks [of lh old] header_count [of lh old] lt by (simp_all only: hd)
  have len: "length lh \<le> LOGSIZE" "log_start (klog s) < FSSIZE" using ok by (simp_all add: log_ok_def)
  have "read_head (crash d s) = Ok ?c"
    using read_head_eq [of "crash d s" "length lh"] len hw by (simp add: room_def)
  moreover have "install_trans ?c = Ok (copies ?ps ?c)"
  proof -
    have "room {x, y} ?c" for x y by (simp add: room_def card_insert_if)
    moreover have "\<forall>b \<in> set lh. b < FSSIZE \<and> (b \<le> log_start (klog s) \<or> log_start (klog s) + length lh < b)"
      using ok by (auto simp: log_ok_def)
    ultimately show ?thesis
      using install_trans_loop_eq [of ?c lh 0] ok by (simp add: install_trans_def log_ok_def)
  qed
  moreover have e: "blks (copies ?ps ?c) = apply_writes (copy_writes ?ps ?c) d"
    "disk (copies ?ps ?c) = apply_writes (copy_writes ?ps ?c) d"
    using copies_effect [of ?ps ?c] pairs_disjoint [OF ok] by (simp_all add: Int_commute)
  moreover have "write_head (set_lh [] (copies ?ps ?c)) =
      Ok (wrote ?a (header (blks (copies ?ps ?c) ?a) []) (set_lh [] (copies ?ps ?c)))"
    using write_head_eq [of "set_lh [] (copies ?ps ?c)"] ok
    by (simp add: set_lh_def room_def header_def copies_dirty log_ok_def)
  ultimately obtain r where r: "recover_from_log (crash d s) = Ok r"
    and b: "blks r = (apply_writes (copy_writes ?ps ?c) d)(?a := header (blks (copies ?ps ?c) ?a) [])"
    and "disk r = blks r"
    by (simp add: recover_from_log_def set_lh_def)
  moreover have "lh ! i \<noteq> log_start (klog s)" if "i < length lh" for i
    using ok nth_mem [OF that] by (auto simp: log_ok_def)
  ultimately show ?thesis using install_writes [OF ok, where t = ?c and d = d] by auto
qed

text \<open>The disk writes of one commit, in order.\<close>

definition commit_writes :: "'z blk_state_scheme \<Rightarrow> (baddr \<times> block) list" where
  "commit_writes s =
     (let dev = log_dev (klog s); a = (dev, log_start (klog s)); lh = lh_block (klog s);
          h = header (disk s a) lh in
      copy_writes (pairs_of s lh) s @ [(a, h)] @
      map (\<lambda>b. ((dev, b), blks s (dev, b))) lh @ [(a, header h [])])"

lemma log_wf_ok: "log_wf s \<Longrightarrow> log_ok s (lh_block (klog s))"
  using log_wfD [of s] by (fastforce simp: log_ok_def)

lemma log_wf_room:
  assumes "log_wf s" "b \<in> set (lh_block (klog s))"
  shows "room {x, (log_dev (klog s), b)} s"
proof -
  have "card (set (dirty s)) = length (lh_block (klog s))"
    using log_wfD(2,8) [OF assms(1)] by (simp add: card_image inj_on_def distinct_card)
  moreover have "{x, (log_dev (klog s), b)} \<union> set (held s) \<union> set (dirty s) = insert x (set (dirty s))"
    using log_wfD(1,8) [OF assms(1)] assms(2) by auto
  ultimately show ?thesis
    using log_wfD(3) [OF assms(1)] by (simp add: room_def card_insert_if)
qed

lemma log_blocks_clean:
  assumes "log_wf s"
  shows "(log_dev (klog s), log_start (klog s)) \<notin> set (dirty s)"
    and "i < log_size (klog s) \<Longrightarrow> (log_dev (klog s), log_start (klog s) + i) \<notin> set (dirty s)"
  using log_wfD(4,7,8) [OF assms] by fastforce+

lemma write_log_writes:
  assumes "log_ok s lh"
  shows "a \<notin> snd ` set (pairs_of s lh) \<Longrightarrow> apply_writes (copy_writes (pairs_of s lh) t) d a = d a"
    and "i < length lh \<Longrightarrow> apply_writes (copy_writes (pairs_of s lh) t) d
           (log_dev (klog s), log_start (klog s) + i + 1) = blks t (log_dev (klog s), lh ! i)"
proof -
  let ?ws = "copy_writes (pairs_of s lh) t"
  have m: "map fst ?ws = map snd (pairs_of s lh)" by (simp add: copy_writes_def)
  then have "set (map fst ?ws) = set (map snd (pairs_of s lh))" by simp
  then show "a \<notin> snd ` set (pairs_of s lh) \<Longrightarrow> apply_writes ?ws d a = d a"
    by (simp add: apply_writes_other)
  show "apply_writes ?ws d (log_dev (klog s), log_start (klog s) + i + 1) = blks t (log_dev (klog s), lh ! i)"
    if "i < length lh"
  proof (rule apply_writes_hit)
    show "distinct (map fst ?ws)" unfolding m log_pairs_snd by (simp add: distinct_map inj_on_def)
    have "?ws ! i \<in> set ?ws" using that by (intro nth_mem) (simp add: copy_writes_def)
    then show "((log_dev (klog s), log_start (klog s) + i + 1), blks t (log_dev (klog s), lh ! i)) \<in> set ?ws"
      using that by (simp add: copy_writes_def log_pairs_nth)
  qed
qed

text \<open>The state after the log blocks and the header have reached the disk.\<close>

definition logged :: "'z blk_state_scheme \<Rightarrow> 'z blk_state_scheme" where
  "logged s =
     (let a = (log_dev (klog s), log_start (klog s)); lh = lh_block (klog s) in
      wrote a (header (disk s a) lh) (copies (pairs_of s lh) s))"

lemma logged_simps [simp]: "klog (logged s) = klog s" "held (logged s) = held s"
  by (simp_all add: logged_def Let_def)

lemma logged_dirty: "set (dirty (logged s)) \<subseteq> set (dirty s)"
  by (auto simp: logged_def Let_def copies_dirty)

lemma log_wf_bounds:
  assumes "log_wf s"
  shows "\<forall>b \<in> set (lh_block (klog s)). b < FSSIZE \<and>
      (b \<le> log_start (klog s) \<or> log_start (klog s) + 0 + length (lh_block (klog s)) < b)"
    and "log_start (klog s) + 0 + length (lh_block (klog s)) < FSSIZE"
  using log_wf_ok [OF assms] by (auto simp: log_ok_def)

lemma log_wf_room_header:
  assumes "log_wf s" "lh_block (klog s) \<noteq> []" "set (held t) \<subseteq> set (held s)" "set (dirty t) \<subseteq> set (dirty s)"
  shows "room {a} t"
proof -
  obtain b where "b \<in> set (lh_block (klog s))" using assms(2) by (cases "lh_block (klog s)") auto
  from log_wf_room [OF assms(1) this] have "room {a} s" by (rule room_mono) auto
  then show ?thesis by (rule room_anti) (use assms in auto)
qed

lemma commit_phase1:
  assumes "log_wf s" "lh_block (klog s) \<noteq> []"
  shows "rbind (write_log s) write_head = Ok (logged s)"
proof -
  let ?lh = "lh_block (klog s)" and ?a = "(log_dev (klog s), log_start (klog s))"
  let ?s1 = "copies (pairs_of s ?lh) s"
  note W = log_wfD [OF assms(1)] and ok = log_wf_ok [OF assms(1)]
  have "write_log s = Ok ?s1"
    unfolding write_log_def using assms W(1) log_wf_bounds [OF assms(1)]
    by (intro write_log_loop_eq) (auto intro: log_wf_room)
  moreover have "blks ?s1 ?a = disk s ?a"
    using write_log_writes(1) [OF ok pairs_disjoint(3) [OF ok], of s "blks s"]
      copies_effect(1) [OF pairs_disjoint(1) [OF ok], of s] W(9) log_blocks_clean(1) [OF assms(1)] by simp
  moreover have "room {?a} ?s1" by (rule log_wf_room_header [OF assms]) (auto simp: copies_dirty)
  ultimately show ?thesis
    using write_head_eq [of ?s1] W(1) log_wf_bounds(2) [OF assms(1)]
    by (simp add: logged_def Let_def header_def)
qed

lemma logged_copy_writes:
  assumes "log_wf s"
  defines "lh \<equiv> lh_block (klog s)" and "dev \<equiv> log_dev (klog s)"
  shows "copy_writes (swap_pairs (pairs_of s lh)) (logged s) = map (\<lambda>b. ((dev, b), blks s (dev, b))) lh"
proof (rule nth_equalityI)
  note ok = log_wf_ok [OF assms(1), folded lh_def]
  fix i assume "i < length (copy_writes (swap_pairs (pairs_of s lh)) (logged s))"
  then have i: "i < length lh" by (simp add: copy_writes_def)
  then have "blks (logged s) (dev, log_start (klog s) + i + 1) = blks s (dev, lh ! i)"
    using write_log_writes(2) [OF ok i, of s "blks s"] copies_effect(1) [OF pairs_disjoint(1) [OF ok], of s]
    by (simp add: logged_def Let_def lh_def dev_def)
  then show "copy_writes (swap_pairs (pairs_of s lh)) (logged s) ! i = map (\<lambda>b. ((dev, b), blks s (dev, b))) lh ! i"
    using i by (simp add: copy_writes_def swap_pairs_def log_pairs_nth dev_def)
qed (simp add: copy_writes_def)

lemma commit_phase2:
  assumes "log_wf s"
  shows "install_trans (logged s) = Ok (copies (swap_pairs (pairs_of s (lh_block (klog s)))) (logged s))"
proof -
  have "room {x, (log_dev (klog s), b)} (logged s)" if "b \<in> set (lh_block (klog s))" for x b
    by (rule room_anti [OF log_wf_room [OF assms that]]) (use logged_dirty [of s] in auto)
  then show ?thesis
    using install_trans_loop_eq [of "logged s" "lh_block (klog s)" 0] log_wf_bounds [OF assms]
      log_wfD(1) [OF assms] by (simp add: install_trans_def)
qed

text \<open>
  A commit performs exactly \<open>commit_writes\<close> and leaves an empty log and a clean cache in
  which every block outside the log region reads as before.
\<close>

lemma commit_eq:
  assumes wf: "log_wf s" and ne: "lh_block (klog s) \<noteq> []"
  shows "\<exists>s'. commit s = Ok s' \<and> wtrace s' = wtrace s @ commit_writes s \<and>
     disk s' = apply_writes (commit_writes s) (disk s) \<and> blks s' = apply_writes (commit_writes s) (blks s) \<and>
     dirty s' = [] \<and> held s' = [] \<and> klog s' = (klog s)\<lparr>lh_block := []\<rparr>"
proof -
  let ?lh = "lh_block (klog s)" and ?a = "(log_dev (klog s), log_start (klog s))"
  let ?ps = "pairs_of s ?lh" and ?m = "logged s"
  let ?s3 = "copies (swap_pairs ?ps) ?m"
  define h where "h = header (disk s ?a) ?lh"
  note ok = log_wf_ok [OF wf] and dis = pairs_disjoint [OF log_wf_ok [OF wf]]
  note e1 = copies_effect [OF dis(1), of s] and cw = logged_copy_writes [OF wf]
  have e3: "wtrace ?s3 = wtrace ?m @ copy_writes (swap_pairs ?ps) ?m"
    "blks ?s3 = apply_writes (copy_writes (swap_pairs ?ps) ?m) (blks ?m)"
    "disk ?s3 = apply_writes (copy_writes (swap_pairs ?ps) ?m) (disk ?m)"
    using copies_effect [of "swap_pairs ?ps" ?m] dis(1) by (simp_all add: Int_commute)
  have "set (dirty ?s3) = {}"
    using logged_dirty [of s] log_wfD(8) [OF wf] by (simp add: copies_dirty set_log_pairs)
  then have d3: "dirty ?s3 = []" by simp
  have h3: "blks ?s3 ?a = h"
    using install_writes(1) [OF ok, of ?a ?m "blks ?m"] ok e3(2)
    by (auto simp: logged_def Let_def h_def log_ok_def)
  have "room {?a} (set_lh [] ?s3)" using log_wfD(1) [OF wf] d3 by (simp add: room_def set_lh_def)
  then have s4: "write_head (set_lh [] ?s3) = Ok (wrote ?a (header h []) (set_lh [] ?s3))"
    using write_head_eq [of "set_lh [] ?s3"] log_wfD(1) [OF wf] log_wf_bounds(2) [OF wf] h3
    by (simp add: set_lh_def header_def)
  have "commit s = Ok (wrote ?a (header h []) (set_lh [] ?s3))"
    using ne commit_phase1 [OF wf ne] commit_phase2 [OF wf] s4
    by (auto simp: commit_def)
  then show ?thesis
    using e1 e3 cw d3 log_wfD(1) [OF wf]
    by (simp add: commit_writes_def Let_def h_def logged_def set_lh_def)
qed

text \<open>
  Recovery after \<open>k\<close> of the writes of a commit: before the header write the home blocks
  are as they were, from the header write on they are as the transaction left them.
\<close>

definition recovers_to :: "(baddr \<Rightarrow> block) \<Rightarrow> (baddr \<Rightarrow> block) \<Rightarrow> 'z blk_state_scheme \<Rightarrow> bool" where
  "recovers_to d v s \<longleftrightarrow> (\<exists>r. recover_from_log (crash d s) = Ok r \<and>
     (\<forall>a. a \<notin> log_region s \<longrightarrow> disk r a = v a \<and> blks r a = v a))"

lemma log_blocks_region:
  assumes "log_wf s" "a \<in> snd ` set (pairs_of s (lh_block (klog s)))"
  shows "a \<in> log_region s"
  using assms log_wfD(4) [OF assms(1)] by (auto simp: set_log_pairs)

lemma header_in_region: "log_wf s \<Longrightarrow> (log_dev (klog s), log_start (klog s)) \<in> log_region s"
  using log_wfD(4) [of s] by simp

lemma crash_before_header:
  assumes wf: "log_wf s"
  shows "recovers_to (apply_writes (take k (copy_writes (pairs_of s (lh_block (klog s))) s)) (disk s)) (disk s) s"
proof -
  let ?a = "(log_dev (klog s), log_start (klog s))" and ?ps = "pairs_of s (lh_block (klog s))"
  define d where "d = apply_writes (take k (copy_writes ?ps s)) (disk s)"
  have sub: "fst ` set (take k (copy_writes ?ps s)) \<subseteq> snd ` set ?ps"
    by (rule order_trans [OF image_mono [OF set_take_subset]]) (simp add: copy_writes_def image_image)
  then have "?a \<notin> fst ` set (take k (copy_writes ?ps s))"
    using pairs_disjoint(3) [OF log_wf_ok [OF wf]] by blast
  then have "d ?a = disk s ?a" by (simp add: d_def apply_writes_other)
  then obtain r where r: "recover_from_log (crash d s) = Ok r"
      "\<And>a. a \<noteq> ?a \<Longrightarrow> blks r a = d a \<and> disk r a = d a"
    using recover_empty [of s d] log_wfD(4,5,10) [OF wf] by auto
  have "d a = disk s a" if "a \<notin> log_region s" for a
    unfolding d_def using that sub log_blocks_region [OF wf] by (intro apply_writes_other) blast
  then show ?thesis
    unfolding recovers_to_def d_def [symmetric] using r header_in_region [OF wf] by metis
qed

lemma home_writes:
  assumes "distinct lh"
  shows "a \<notin> Pair dev ` set lh \<Longrightarrow> apply_writes (take j (map (\<lambda>b. ((dev, b), f b)) lh)) d a = d a"
    and "b \<in> set lh \<Longrightarrow> apply_writes (map (\<lambda>b. ((dev, b), f b)) lh) d (dev, b) = f b"
proof -
  let ?ws = "map (\<lambda>b. ((dev, b), f b)) lh"
  have "fst ` set (take j ?ws) \<subseteq> Pair dev ` set lh"
    by (rule order_trans [OF image_mono [OF set_take_subset]]) auto
  then show "a \<notin> Pair dev ` set lh \<Longrightarrow> apply_writes (take j ?ws) d a = d a"
    by (intro apply_writes_other) blast
  show "apply_writes ?ws d (dev, b) = f b" if "b \<in> set lh"
    using assms that by (intro apply_writes_hit) (auto simp: distinct_map inj_on_def o_def)
qed

lemma crash_after_header:
  assumes wf: "log_wf s"
  defines "lh \<equiv> lh_block (klog s)" and "dev \<equiv> log_dev (klog s)"
  defines "a0 \<equiv> (dev, log_start (klog s))"
  defines "d1 \<equiv> (apply_writes (copy_writes (pairs_of s lh) s) (disk s))(a0 := header (disk s a0) lh)"
  shows "recovers_to (apply_writes (take j (map (\<lambda>b. ((dev, b), blks s (dev, b))) lh)) d1) (blks s) s"
proof -
  note ok = log_wf_ok [OF wf, folded lh_def]
  define d where "d = apply_writes (take j (map (\<lambda>b. ((dev, b), blks s (dev, b))) lh)) d1"
  have dist: "distinct lh" using log_wfD(2) [OF wf] by (simp add: lh_def)
  have a0: "a0 \<notin> Pair dev ` set lh" using ok by (auto simp: log_ok_def a0_def dev_def)
  then have "d a0 = header (disk s a0) lh"
    using home_writes(1) [OF dist a0] by (simp add: d_def d1_def)
  then obtain r where r: "recover_from_log (crash d s) = Ok r" "\<And>a. disk r a = blks r a"
      "\<And>i. i < length lh \<Longrightarrow> blks r (dev, lh ! i) = d (dev, log_start (klog s) + i + 1)"
      "\<And>a. a \<noteq> a0 \<Longrightarrow> a \<notin> Pair dev ` set lh \<Longrightarrow> blks r a = d a"
    using recover_committed [OF ok, of d "disk s a0"] unfolding a0_def dev_def by blast
  have "blks r a = blks s a" if a: "a \<notin> log_region s" for a
  proof (cases "a \<in> Pair dev ` set lh")
    case True
    then obtain i where i: "i < length lh" "a = (dev, lh ! i)" by (metis imageE in_set_conv_nth)
    let ?l = "(dev, log_start (klog s) + i + 1)"
    have "?l \<notin> Pair dev ` set lh" using ok i(1) by (force simp: log_ok_def)
    then have "d ?l = d1 ?l" using home_writes(1) [OF dist] by (simp add: d_def)
    also have "\<dots> = blks s a"
      using write_log_writes(2) [OF ok i(1), of s "disk s"] i(2) by (simp add: d1_def a0_def dev_def)
    finally show ?thesis using r(3) [OF i(1)] i(2) by simp
  next
    case False
    have ne: "a \<noteq> a0" using a header_in_region [OF wf] by (auto simp: a0_def dev_def)
    have "a \<notin> snd ` set (pairs_of s lh)" using log_blocks_region [OF wf, of a] a unfolding lh_def by blast
    then have "d1 a = disk s a" using write_log_writes(1) [OF ok] ne by (simp add: d1_def)
    moreover have "disk s a = blks s a" using log_wfD(8,9) [OF wf] False by (auto simp: lh_def dev_def)
    ultimately show ?thesis using r(4) [OF ne False] home_writes(1) [OF dist False] by (simp add: d_def)
  qed
  then show ?thesis unfolding recovers_to_def d_def [symmetric] using r(1,2) by auto
qed

lemma commit_writes_home:
  assumes wf: "log_wf s" and a: "a \<notin> log_region s"
    and d: "a \<notin> Pair (log_dev (klog s)) ` set (lh_block (klog s)) \<Longrightarrow> d a = blks s a"
  shows "apply_writes (commit_writes s) d a = blks s a"
proof (cases "a \<in> Pair (log_dev (klog s)) ` set (lh_block (klog s))")
  case True
  then show ?thesis
    using home_writes(2) [OF log_wfD(2) [OF wf]] header_in_region [OF wf] a
    by (auto simp: commit_writes_def Let_def)
next
  case False
  have ne: "a \<noteq> (log_dev (klog s), log_start (klog s))" using a header_in_region [OF wf] by auto
  have "a \<notin> snd ` set (pairs_of s (lh_block (klog s)))" using log_blocks_region [OF wf, of a] a by blast
  then show ?thesis
    using ne d [OF False] write_log_writes(1) [OF log_wf_ok [OF wf], of a s d]
      home_writes(1) [OF log_wfD(2) [OF wf] False, of "length (lh_block (klog s))"]
    by (simp add: commit_writes_def Let_def)
qed

lemma commit_writes_header:
  "get32 (apply_writes (commit_writes s) d (log_dev (klog s), log_start (klog s))) 0 = 0"
  by (simp add: commit_writes_def Let_def header_def)

lemma crash_after_clear:
  assumes wf: "log_wf s"
  shows "recovers_to (apply_writes (commit_writes s) (disk s)) (blks s) s"
proof -
  define d where "d = apply_writes (commit_writes s) (disk s)"
  obtain r where r: "recover_from_log (crash d s) = Ok r"
      "\<And>a. a \<noteq> (log_dev (klog s), log_start (klog s)) \<Longrightarrow> blks r a = d a \<and> disk r a = d a"
    using recover_empty [of s d] commit_writes_header [of s "disk s"] log_wfD(4,5) [OF wf]
    by (auto simp: d_def)
  have "d a = blks s a" if "a \<notin> log_region s" for a
    unfolding d_def using log_wfD(8,9) [OF wf] by (intro commit_writes_home [OF wf that]) auto
  then show ?thesis unfolding recovers_to_def d_def [symmetric] using r header_in_region [OF wf] by metis
qed

text \<open>
  \<^bold>\<open>C3\<close>. A commit is atomic with respect to crashes: in a well-formed state \<^verbatim>\<open>commit\<close> succeeds,
  and if the machine stops after any number \<open>k\<close> of its disk writes, \<^verbatim>\<open>recover_from_log\<close> run on
  what is then on the disk succeeds and leaves every block outside the log either as it
  was before the transaction (the header has not been written) or as the transaction left it.
\<close>

theorem commit_crash_atomic:
  assumes wf: "log_wf s"
  shows "\<exists>s' ws. commit s = Ok s' \<and> wtrace s' = wtrace s @ ws \<and> disk s' = apply_writes ws (disk s) \<and>
     (\<forall>k \<le> length ws. recovers_to (apply_writes (take k ws) (disk s))
        (if k \<le> length (lh_block (klog s)) then disk s else blks s) s)"
proof (cases "lh_block (klog s) = []")
  case True
  then have "commit s = Ok s" by (simp add: commit_def)
  moreover have "recovers_to (disk s) (disk s) s" using crash_before_header [OF wf, of 0] by simp
  ultimately show ?thesis by (intro exI [of _ s] exI [of _ "[]"]) simp
next
  case False
  from commit_eq [OF wf False] obtain s' where s': "commit s = Ok s'"
      "wtrace s' = wtrace s @ commit_writes s" "disk s' = apply_writes (commit_writes s) (disk s)"
    by blast
  let ?n = "length (lh_block (klog s))" and ?ws = "commit_writes s"
  have len: "length ?ws = 2 * ?n + 2" by (simp add: commit_writes_def Let_def copy_writes_def)
  have n1: "length (copy_writes (pairs_of s (lh_block (klog s))) s) = ?n" by (simp add: copy_writes_def)
  have "recovers_to (apply_writes (take k ?ws) (disk s)) (if k \<le> ?n then disk s else blks s) s"
    if k: "k \<le> length ?ws" for k
  proof -
    consider "k \<le> ?n" | "?n + 1 \<le> k" "k \<le> 2 * ?n + 1" | "k = length ?ws"
      using k len by linarith
    then show ?thesis
    proof cases
      case 1
      then have "take k ?ws = take k (copy_writes (pairs_of s (lh_block (klog s))) s)"
        by (simp add: commit_writes_def Let_def n1)
      with 1 show ?thesis using crash_before_header [OF wf, of k] by simp
    next
      case 2
      define j where "j = k - (?n + 1)"
      from 2 have j: "k = ?n + 1 + j" "j \<le> ?n" by (simp_all add: j_def)
      then have "take k ?ws = copy_writes (pairs_of s (lh_block (klog s))) s @
          [((log_dev (klog s), log_start (klog s)),
            header (disk s (log_dev (klog s), log_start (klog s))) (lh_block (klog s)))] @
          take j (map (\<lambda>b. ((log_dev (klog s), b), blks s (log_dev (klog s), b))) (lh_block (klog s)))"
        by (simp add: commit_writes_def Let_def n1)
      with j show ?thesis using crash_after_header [OF wf, of j] by simp
    next
      case 3
      with len show ?thesis using crash_after_clear [OF wf] by simp
    qed
  qed
  with s' show ?thesis by blast
qed

section \<open>System calls and the log\<close>

lemma log_write_effect:
  assumes "log_write bp s = Ok s'"
  shows "blks s' = (blks s)(b_addr bp := b_data bp)" "disk s' = disk s" "held s' = held s"
    "wtrace s' = wtrace s" "set (dirty s') = insert (b_addr bp) (set (dirty s))"
    "outstanding (klog s') = outstanding (klog s) \<and> committing (klog s') = committing (klog s) \<and>
     log_start (klog s') = log_start (klog s) \<and> log_size (klog s') = log_size (klog s) \<and>
     log_dev (klog s') = log_dev (klog s)"
    "set (lh_block (klog s')) = insert (b_blockno bp) (set (lh_block (klog s)))"
    "length (lh_block (klog s')) \<le> Suc (length (lh_block (klog s)))"
    "Suc (length (lh_block (klog s))) < log_size (klog s)" "length (lh_block (klog s)) < LOGSIZE"
    "1 \<le> outstanding (klog s)"
  using assms by (auto simp: log_write_def Let_def split: if_splits)

lemma log_write_inv:
  assumes inv: "log_inv s" and ok: "log_write bp s = Ok s'"
    and bp: "b_dev bp = log_dev (klog s)" "b_blockno bp < FSSIZE" "b_addr bp \<notin> log_region s"
  shows "log_inv s'"
proof -
  let ?lh = "lh_block (klog s)"
  define lh' where "lh' = (if b_blockno bp \<in> set ?lh then ?lh else ?lh @ [b_blockno bp])"
  have k: "klog s' = (klog s)\<lparr>lh_block := lh'\<rparr>" "Suc (length ?lh) < log_size (klog s)"
    "blks s' = (blks s)(b_addr bp := b_data bp)" "disk s' = disk s"
    "set (dirty s') = insert (b_addr bp) (set (dirty s))"
    using ok by (auto simp: log_write_def Let_def lh'_def split: if_splits)
  have l: "distinct lh'" "length lh' \<le> Suc (length ?lh)" "set lh' = insert (b_blockno bp) (set ?lh)"
    using inv by (auto simp: lh'_def log_inv_def Let_def)
  have r: "log_region s' = log_region s" by (simp add: log_region_def k)
  have "blks s' a = disk s' a" if "a \<notin> set (dirty s')" for a
  proof -
    from that k(5) have "a \<notin> set (dirty s)" "a \<noteq> b_addr bp" by auto
    with inv k(3,4) show ?thesis by (simp add: log_inv_def Let_def)
  qed
  moreover have "set (dirty s') = Pair (log_dev (klog s)) ` set lh'"
    using inv k(5) l(3) bp(1) by (auto simp: log_inv_def Let_def)
  moreover have "\<forall>b \<in> set lh'. b < FSSIZE \<and> (log_dev (klog s), b) \<notin> log_region s"
    using inv l(3) bp by (auto simp: log_inv_def Let_def simp del: mem_log_region)
  moreover have "length lh' < log_size (klog s)" using k(2) l(2) by simp
  ultimately show ?thesis
    using inv k(1,4) l(1) r by (simp add: log_inv_def Let_def)
qed

lemma apply_writes_agree: "a \<in> fst ` set ws \<or> d a = e a \<Longrightarrow> apply_writes ws d a = apply_writes ws e a"
  by (induction ws arbitrary: d e) auto

lemma log_wf_klog:
  "log_wf (s\<lparr>klog := (klog s)\<lparr>outstanding := z, committing := c\<rparr>\<rparr>) \<longleftrightarrow> log_wf s"
  by (simp add: log_wf_def log_inv_def Let_def log_region_def)

lemma commit_wf:
  assumes wf: "log_wf s" and ok: "commit s = Ok s'"
  shows "log_wf s'" "klog s' = (klog s)\<lparr>lh_block := []\<rparr>"
    "a \<notin> log_region s \<Longrightarrow> blks s' a = blks s a \<and> disk s' a = blks s a"
proof -
  have "log_wf s' \<and> klog s' = (klog s)\<lparr>lh_block := []\<rparr> \<and>
     (\<forall>a. a \<notin> log_region s \<longrightarrow> blks s' a = blks s a \<and> disk s' a = blks s a)"
  proof (cases "lh_block (klog s) = []")
    case True
    then have s: "s' = s" using ok by (simp add: commit_def)
    with True show ?thesis using wf log_wfD(8,9) [OF wf] by simp
  next
    case False
    have s': "disk s' = apply_writes (commit_writes s) (disk s)"
      "blks s' = apply_writes (commit_writes s) (blks s)" "dirty s' = []" "held s' = []"
      "klog s' = (klog s)\<lparr>lh_block := []\<rparr>"
      using commit_eq [OF wf False] unfolding ok res.inject by blast+
    have "Pair (log_dev (klog s)) ` set (lh_block (klog s)) \<subseteq> fst ` set (commit_writes s)"
      by (auto simp: commit_writes_def Let_def image_Un image_image)
    then have eq: "blks s' a = disk s' a" for a
      unfolding s' using log_wfD(8,9) [OF wf] by (intro apply_writes_agree) blast
    have "blks s' a = blks s a" if "a \<notin> log_region s" for a
      unfolding s' by (rule commit_writes_home [OF wf that]) simp
    moreover have "log_wf s'"
      using wf s' eq commit_writes_header [of s "disk s"]
      by (simp add: log_wf_def log_inv_def Let_def)
    ultimately show ?thesis using s'(5) eq by simp
  qed
  then show "log_wf s'" "klog s' = (klog s)\<lparr>lh_block := []\<rparr>"
    "a \<notin> log_region s \<Longrightarrow> blks s' a = blks s a \<and> disk s' a = blks s a" by blast+
qed

lemma end_op_ok:
  assumes "log_wf s" "\<not> committing (klog s)" "outstanding (klog s) = 1"
  shows "\<exists>s'. end_op s = Ok s' \<and> log_wf s' \<and> lh_block (klog s') = [] \<and> outstanding (klog s') = 0 \<and>
     \<not> committing (klog s') \<and> (\<forall>a. a \<notin> log_region s \<longrightarrow> blks s' a = blks s a \<and> disk s' a = blks s a)"
proof -
  let ?t = "s\<lparr>klog := (klog s)\<lparr>outstanding := 0, committing := True\<rparr>\<rparr>"
  have wf: "log_wf ?t" using log_wf_klog [where s = s and c = True and z = 0] assms(1) by simp
  have "\<exists>t'. commit ?t = Ok t'"
    using commit_eq [OF wf] by (cases "lh_block (klog ?t) = []") (auto simp: commit_def)
  then obtain t' where t': "commit ?t = Ok t'" ..
  note c = commit_wf [OF wf t']
  have "end_op s = Ok (t'\<lparr>klog := (klog t')\<lparr>committing := False\<rparr>\<rparr>)"
    using assms t' by (simp add: end_op_def Let_def)
  moreover have "log_wf (t'\<lparr>klog := (klog t')\<lparr>committing := False\<rparr>\<rparr>)"
    using c(1) by (simp add: log_wf_def log_inv_def Let_def log_region_def)
  moreover have "log_region ?t = log_region s" by (simp add: log_region_def)
  ultimately show ?thesis using c(2,3) by simp
qed

text \<open>
  \<^bold>\<open>C4\<close>. The \<^verbatim>\<open>end_op\<close> of the only open system call commits: it returns with an empty log, and
  every block outside the log region is on the disk exactly as the cache had it.
\<close>

theorem end_op_commits:
  assumes "log_wf s" "\<not> committing (klog s)" "outstanding (klog s) = 1"
  shows "\<exists>s'. end_op s = Ok s' \<and> log_wf s' \<and> lh_block (klog s') = [] \<and> outstanding (klog s') = 0 \<and>
     \<not> committing (klog s') \<and> (\<forall>a. a \<notin> log_region s \<longrightarrow> blks s' a = blks s a \<and> disk s' a = blks s a)"
  by (rule end_op_ok [OF assms])

section \<open>Reservations of concurrent system calls\<close>

text \<open>
  Several processes are inside \<^verbatim>\<open>begin_op\<close>/\<^verbatim>\<open>end_op\<close> at once; the list records how many
  blocks each has added to the log so far. A step is one call of one of them. A system
  call adds at most \<^verbatim>\<open>MAXOPBLOCKS\<close> blocks, which is what \<^verbatim>\<open>begin_op\<close> reserves for it.
\<close>

type_synonym log_sys = "blk_state \<times> nat list"

definition log_len :: "'z blk_state_scheme \<Rightarrow> nat" where
  "log_len s = length (lh_block (klog s))"

inductive log_step :: "log_sys \<Rightarrow> log_sys \<Rightarrow> bool" where
  op_begins: "begin_op s = Ok s' \<Longrightarrow> log_step (s, us) (s', 0 # us)"
| op_writes: "i < length us \<Longrightarrow> log_write bp s = Ok s' \<Longrightarrow>
     u = us ! i + (log_len s' - log_len s) \<Longrightarrow> u \<le> MAXOPBLOCKS \<Longrightarrow> log_step (s, us) (s', us[i := u])"
| op_ends: "i < length us \<Longrightarrow> end_op s = Ok s' \<Longrightarrow> log_step (s, us) (s', take i us @ drop (Suc i) us)"

inductive log_reach :: "blk_state \<Rightarrow> log_sys \<Rightarrow> bool" for s0 where
  log_init: "log_reach s0 (s0, [])"
| log_next: "log_reach s0 x \<Longrightarrow> log_step x y \<Longrightarrow> log_reach s0 y"

text \<open>What the open system calls may still add.\<close>

definition reserved :: "nat list \<Rightarrow> nat" where
  "reserved us = (\<Sum>u\<leftarrow>us. MAXOPBLOCKS - u)"

definition log_res_inv :: "log_sys \<Rightarrow> bool" where
  "log_res_inv x \<longleftrightarrow>
     outstanding (klog (fst x)) = int (length (snd x)) \<and> \<not> committing (klog (fst x)) \<and>
     log_len (fst x) + reserved (snd x) \<le> LOGSIZE"

lemma reserved_le: "reserved us \<le> MAXOPBLOCKS * length us"
  by (induction us) (auto simp: reserved_def)

lemma reserved_simps [simp]: "reserved [] = 0" "reserved (u # us) = MAXOPBLOCKS - u + reserved us"
  by (simp_all add: reserved_def)

lemma reserved_update:
  "i < length us \<Longrightarrow> us ! i \<le> u \<Longrightarrow> u \<le> MAXOPBLOCKS \<Longrightarrow> reserved (us[i := u]) + u = reserved us + us ! i"
proof (induction us arbitrary: i)
  case (Cons a us)
  then show ?case by (cases i) auto
qed simp

lemma reserved_remove: "i < length us \<Longrightarrow> reserved (take i us @ drop (Suc i) us) \<le> reserved us"
proof (induction us arbitrary: i)
  case (Cons a us)
  then show ?case by (cases i) auto
qed simp

lemma install_trans_loop_klog: "install_trans_loop t bs s = Ok s' \<Longrightarrow> klog s' = klog s"
  by (induction bs arbitrary: t s)
    (auto simp: bread_def bwrite_def brelse_def Let_def split: if_splits)

lemma write_log_loop_klog: "write_log_loop t bs s = Ok s' \<Longrightarrow> klog s' = klog s"
  by (induction bs arbitrary: t s)
    (auto simp: bread_def bwrite_def brelse_def Let_def split: if_splits)

lemma write_head_klog: "write_head s = Ok s' \<Longrightarrow> klog s' = klog s"
  by (auto simp: write_head_def bread_def bwrite_def brelse_def Let_def split: if_splits)

lemma commit_klog: "commit s = Ok s' \<Longrightarrow> klog s' = (klog s)\<lparr>lh_block := []\<rparr>"
  by (auto simp: commit_def write_log_def install_trans_def set_lh_def split: if_splits
      dest!: install_trans_loop_klog write_log_loop_klog write_head_klog)

lemma log_step_inv: "log_step x y \<Longrightarrow> log_res_inv x \<Longrightarrow> log_res_inv y"
proof (induction rule: log_step.induct)
  case (op_begins s s' us)
  then show ?case
    using reserved_le [of us]
    by (auto simp: log_res_inv_def begin_op_def Let_def log_len_def reserved_def split: if_splits)
next
  case (op_writes i us bp s s' u)
  note e = log_write_effect [OF op_writes.hyps(2)]
  have "log_len s \<le> log_len s'" using op_writes.hyps(2)
    by (auto simp: log_write_def Let_def log_len_def split: if_splits)
  moreover have "us ! i \<le> u" using op_writes.hyps(3) by simp
  ultimately show ?case
    using op_writes e(6) reserved_update [of i us u] by (auto simp: log_res_inv_def)
next
  case (op_ends i us s s')
  show ?case
    using op_ends reserved_remove [of i us]
    by (auto simp: log_res_inv_def end_op_def Let_def log_len_def reserved_def split: if_splits dest!: commit_klog)
qed

lemma log_reach_inv: "log_reach s0 x \<Longrightarrow> log_res_inv (s0, []) \<Longrightarrow> log_res_inv x"
  by (induction rule: log_reach.induct) (auto intro: log_step_inv)

text \<open>
  \<^bold>\<open>C5\<close>. The reservation of \<^verbatim>\<open>begin_op\<close> is sound for any interleaving of system calls: in every
  reachable state a system call that has added fewer than \<^verbatim>\<open>MAXOPBLOCKS\<close> blocks can \<^verbatim>\<open>log_write\<close>
  one more without panicking, provided the on-disk log has \<^verbatim>\<open>LOGSIZE\<close> blocks beside its header.
\<close>

theorem log_reservation:
  assumes reach: "log_reach s0 (s, us)"
    and init: "lh_block (klog s0) = []" "outstanding (klog s0) = 0" "\<not> committing (klog s0)"
    and size: "LOGSIZE + 1 \<le> log_size (klog s)"
    and budget: "i < length us" "us ! i < MAXOPBLOCKS"
  shows "\<exists>s'. log_write bp s = Ok s'"
proof -
  have inv: "log_res_inv (s, us)"
    using log_reach_inv [OF reach] init by (simp add: log_res_inv_def log_len_def)
  have "reserved (us[i := MAXOPBLOCKS]) + MAXOPBLOCKS = reserved us + us ! i"
    using reserved_update [OF budget(1)] budget(2) by simp
  with inv budget have "log_len s < LOGSIZE" "1 \<le> outstanding (klog s)"
    by (auto simp: log_res_inv_def)
  with size show ?thesis by (auto simp: log_write_def Let_def log_len_def)
qed

text \<open>What three system calls have used after \<open>k\<close> new blocks, the first filling up first.\<close>

definition budget_after :: "nat \<Rightarrow> nat list" where
  "budget_after k = map (\<lambda>i. min MAXOPBLOCKS (k - MAXOPBLOCKS * i)) [0, 1, 2]"

lemma log_fill:
  assumes "lh_block (klog s0) = []" "outstanding (klog s0) = 0" "\<not> committing (klog s0)"
    and "log_size (klog s0) = LOGSIZE"
  shows "k \<le> 29 \<Longrightarrow> \<exists>s. log_reach s0 (s, budget_after k) \<and> lh_block (klog s) = [0..<k] \<and>
           outstanding (klog s) = 3 \<and> log_size (klog s) = LOGSIZE"
proof (induction k)
  case 0
  let ?op = "\<lambda>n. s0\<lparr>klog := (klog s0)\<lparr>outstanding := n\<rparr>\<rparr>"
  have b: "begin_op s0 = Ok (?op 1)" "begin_op (?op 1) = Ok (?op 2)" "begin_op (?op 2) = Ok (?op 3)"
    using assms by (simp_all add: begin_op_def Let_def)
  have "log_reach s0 (?op 3, [0, 0, 0])"
    using log_init [of s0] op_begins [OF b(1), of "[]"] op_begins [OF b(2), of "[0]"]
      op_begins [OF b(3), of "[0, 0]"] by (blast intro: log_next)
  with assms show ?case by (intro exI [of _ "?op 3"]) (simp add: budget_after_def)
next
  case (Suc k)
  then obtain s where s: "log_reach s0 (s, budget_after k)" "lh_block (klog s) = [0..<k]"
      "outstanding (klog s) = 3" "log_size (klog s) = LOGSIZE" by auto
  let ?bp = "\<lparr>b_dev = 1, b_blockno = k, b_data = (\<lambda>_. 0)\<rparr>"
  obtain s' where w: "log_write ?bp s = Ok s'" and s': "lh_block (klog s') = [0..<Suc k]"
    "outstanding (klog s') = 3" "log_size (klog s') = LOGSIZE"
    using s Suc.prems by (simp add: log_write_def Let_def)
  have "k div 10 < 3" using Suc.prems by auto
  then have "k div 10 = 0 \<or> k div 10 = 1 \<or> k div 10 = 2" by auto
  then have u: "k div 10 < length (budget_after k)" "budget_after k ! (k div 10) + 1 \<le> MAXOPBLOCKS"
    "(budget_after k)[k div 10 := budget_after k ! (k div 10) + 1] = budget_after (Suc k)"
    by (auto simp: budget_after_def)
  have "log_step (s, budget_after k) (s', budget_after (Suc k))"
    using op_writes [OF u(1) w, of "budget_after k ! (k div 10) + 1"] u(2,3) s(2) s'(1)
    by (simp add: log_len_def)
  with s(1) s' show ?case by (blast intro: log_next)
qed

text \<open>
  \<^bold>\<open>C6\<close>. With the log mkfs makes (\<^verbatim>\<open>LOGSIZE\<close> blocks, the header included) the reservation is off
  by one: three concurrent system calls that each stay within \<^verbatim>\<open>MAXOPBLOCKS\<close> can reach a
  state in which the next block of one of them makes \<^verbatim>\<open>log_write\<close> panic.
\<close>

theorem log_reservation_overflow:
  assumes "lh_block (klog s0) = []" "outstanding (klog s0) = 0" "\<not> committing (klog s0)"
    and "log_size (klog s0) = LOGSIZE"
  shows "\<exists>s us i bp. log_reach s0 (s, us) \<and> i < length us \<and> us ! i < MAXOPBLOCKS \<and>
     log_write bp s = Panic ''too big a transaction''"
proof -
  from log_fill [OF assms, of 29] obtain s where s: "log_reach s0 (s, budget_after 29)"
      "lh_block (klog s) = [0..<29]" "log_size (klog s) = LOGSIZE" by auto
  then have "log_write bp s = Panic ''too big a transaction''" for bp
    by (simp add: log_write_def Let_def)
  moreover have "2 < length (budget_after 29)" "budget_after 29 ! 2 < MAXOPBLOCKS"
    by (simp_all add: budget_after_def)
  ultimately show ?thesis using s(1) by blast
qed

section \<open>Witnesses\<close>

text \<open>A freshly booted system: an empty log of \<^verbatim>\<open>LOGSIZE\<close> blocks from block 2 on.\<close>

definition boot_blk :: "nat \<Rightarrow> blk_state" where
  "boot_blk sz = \<lparr>blks = (\<lambda>_ _. 0), disk = (\<lambda>_ _. 0), held = [], dirty = [], wtrace = [],
     klog = \<lparr>log_start = 2, log_size = sz, outstanding = 0, committing = False, log_dev = 1,
       lh_block = []\<rparr>\<rparr>"

text \<open>The same with one open system call that has changed block 40.\<close>

definition one_write :: blk_state where
  "one_write = (boot_blk LOGSIZE)\<lparr>blks := (\<lambda>_ _. 0)((1, 40) := (\<lambda>_. 7)), dirty := [(1, 40)],
     klog := (klog (boot_blk LOGSIZE))\<lparr>outstanding := 1, lh_block := [40]\<rparr>\<rparr>"

lemma one_write_wf: "log_wf one_write"
  by (simp add: log_wf_def log_inv_def Let_def one_write_def boot_blk_def get32_def get16_def)

theorem commit_crash_atomic_witness:
  "log_wf one_write \<and> (\<exists>s' ws. commit one_write = Ok s' \<and> wtrace s' = wtrace one_write @ ws \<and>
     disk s' = apply_writes ws (disk one_write) \<and>
     (\<forall>k \<le> length ws. recovers_to (apply_writes (take k ws) (disk one_write))
        (if k \<le> length (lh_block (klog one_write)) then disk one_write else blks one_write) one_write))"
  using one_write_wf commit_crash_atomic [OF one_write_wf] by blast

theorem end_op_commits_witness:
  "log_wf one_write \<and> (\<exists>s'. end_op one_write = Ok s' \<and> log_wf s' \<and> lh_block (klog s') = [] \<and>
     outstanding (klog s') = 0 \<and> \<not> committing (klog s') \<and>
     (\<forall>a. a \<notin> log_region one_write \<longrightarrow> blks s' a = blks one_write a \<and> disk s' a = blks one_write a))"
  using one_write_wf end_op_commits [OF one_write_wf] by (simp add: one_write_def boot_blk_def)

theorem log_reservation_witness:
  "\<exists>s us s'. log_reach (boot_blk 31) (s, us) \<and> 0 < length us \<and> us ! 0 < MAXOPBLOCKS \<and>
     log_write \<lparr>b_dev = 1, b_blockno = 40, b_data = (\<lambda>_. 7)\<rparr> s = Ok s'"
proof -
  let ?s = "(boot_blk 31)\<lparr>klog := (klog (boot_blk 31))\<lparr>outstanding := 1\<rparr>\<rparr>"
  have "begin_op (boot_blk 31) = Ok ?s" by (simp add: begin_op_def Let_def boot_blk_def)
  then have r: "log_reach (boot_blk 31) (?s, [0])" by (blast intro: log_init log_next op_begins)
  then have "\<exists>s'. log_write \<lparr>b_dev = 1, b_blockno = 40, b_data = (\<lambda>_. 7)\<rparr> ?s = Ok s'"
    by (rule log_reservation [where i = 0]) (simp_all add: boot_blk_def)
  with r show ?thesis by fastforce
qed

theorem log_reservation_overflow_witness:
  "\<exists>s us i bp. log_reach (boot_blk LOGSIZE) (s, us) \<and> i < length us \<and> us ! i < MAXOPBLOCKS \<and>
     log_write bp s = Panic ''too big a transaction''"
  by (rule log_reservation_overflow) (simp_all add: boot_blk_def)

end
