(* ===== verification/Gc.thy ===== *)
theory Gc
  imports Block
begin

text \<open>
  gc.c: the table of block reference counts, the deduplication table and the garbage
  collector's statistics. The reference counts implement a finite map from block numbers
  to positive counts (locale \<open>refcounts\<close>, interpreted on the table operations); the
  deduplication table keeps one valid entry per block.
\<close>

section \<open>State\<close>

record block_refcount =
  rc_block_num :: nat
  rc_refcount :: nat
  rc_checksum :: nat
  rc_valid :: bool

record dedup_entry =
  de_checksum :: uint
  de_block_num :: nat
  de_refcount :: nat
  de_valid :: bool

record gc_stats =
  blocks_freed :: nat
  versions_pruned :: nat
  last_run_time :: nat
  total_runs :: nat

record gc_state = blk_state +
  ticks :: nat
  refcount_table :: "block_refcount list"
  dedup_table :: "dedup_entry list"
  gc_statistics :: gc_stats

abbreviation (input) MAX_REFCOUNT_ENTRIES :: nat where "MAX_REFCOUNT_ENTRIES \<equiv> 10000"
abbreviation (input) DEDUP_TABLE_SIZE :: nat where "DEDUP_TABLE_SIZE \<equiv> 1000"

text \<open>Increment of a \<^verbatim>\<open>uint\<close>.\<close>

definition uinc :: "nat \<Rightarrow> nat" where
  "uinc n = (n + 1) mod 4294967296"

lemma uinc_small [simp]: "n + 1 < 4294967296 \<Longrightarrow> uinc n = Suc n"
  by (simp add: uinc_def)

section \<open>Block reference counts\<close>

definition bref_init :: "'z gc_state_scheme \<Rightarrow> 'z gc_state_scheme" where
  "bref_init s =
     s\<lparr>refcount_table := map (\<lambda>e. e\<lparr>rc_valid := False, rc_refcount := 0\<rparr>) (refcount_table s)\<rparr>"

definition bref_find_or_create ::
  "nat \<Rightarrow> block_refcount list \<Rightarrow> nat option \<times> block_refcount list" where
  "bref_find_or_create block_num tbl =
     (case first_idx (\<lambda>e. rc_valid e \<and> rc_block_num e = block_num) tbl of
        Some i \<Rightarrow> (Some i, tbl)
      | None \<Rightarrow>
          (case first_idx (\<lambda>e. \<not> rc_valid e) tbl of
             Some i \<Rightarrow> (Some i, tbl[i := \<lparr>rc_block_num = block_num, rc_refcount = 0,
                                         rc_checksum = 0, rc_valid = True\<rparr>])
           | None \<Rightarrow> (None, tbl)))"

definition bref_inc :: "nat \<Rightarrow> 'z gc_state_scheme \<Rightarrow> int \<times> 'z gc_state_scheme" where
  "bref_inc block_num s =
     (case bref_find_or_create block_num (refcount_table s) of
        (None, tbl) \<Rightarrow> (-1, s\<lparr>refcount_table := tbl\<rparr>)
      | (Some i, tbl) \<Rightarrow>
          let e = tbl ! i; e = e\<lparr>rc_refcount := uinc (rc_refcount e)\<rparr> in
          (to_int32 (rc_refcount e), s\<lparr>refcount_table := tbl[i := e]\<rparr>))"

definition bref_dec :: "nat \<Rightarrow> 'z gc_state_scheme \<Rightarrow> int \<times> 'z gc_state_scheme" where
  "bref_dec block_num s =
     (case first_idx (\<lambda>e. rc_valid e \<and> rc_block_num e = block_num) (refcount_table s) of
        None \<Rightarrow> (0, s)
      | Some i \<Rightarrow>
          let e = refcount_table s ! i;
              e = (if 0 < rc_refcount e then e\<lparr>rc_refcount := rc_refcount e - 1\<rparr> else e);
              count = rc_refcount e;
              e = (if rc_refcount e = 0 then e\<lparr>rc_valid := False\<rparr> else e) in
          (to_int32 count, s\<lparr>refcount_table := (refcount_table s)[i := e]\<rparr>))"

definition bref_is_tracked :: "nat \<Rightarrow> 'z gc_state_scheme \<Rightarrow> bool" where
  "bref_is_tracked block_num s =
     (first_idx (\<lambda>e. rc_valid e \<and> rc_block_num e = block_num) (refcount_table s) \<noteq> None)"

definition bref_get :: "nat \<Rightarrow> 'z gc_state_scheme \<Rightarrow> nat" where
  "bref_get block_num s =
     (case first_idx (\<lambda>e. rc_valid e \<and> rc_block_num e = block_num) (refcount_table s) of
        Some i \<Rightarrow> rc_refcount (refcount_table s ! i)
      | None \<Rightarrow> 0)"

section \<open>Deduplication\<close>

definition dedup_init :: "'z gc_state_scheme \<Rightarrow> 'z gc_state_scheme" where
  "dedup_init s =
     s\<lparr>dedup_table := map (\<lambda>e. e\<lparr>de_valid := False, de_refcount := 0\<rparr>) (dedup_table s)\<rparr>"

text \<open>The bytes are \<^verbatim>\<open>char\<close>s, which are signed: each is sign-extended before it is added.\<close>

primrec dedup_hash_loop :: "byte list \<Rightarrow> uint \<Rightarrow> uint" where
  "dedup_hash_loop [] hash = hash"
| "dedup_hash_loop (c # cs) hash = dedup_hash_loop cs ((push_bit 5 hash + hash) + scast c)"

definition dedup_hash :: "byte list \<Rightarrow> uint" where
  "dedup_hash data = dedup_hash_loop data 5381"

definition dedup_find :: "uint \<Rightarrow> 'z gc_state_scheme \<Rightarrow> nat" where
  "dedup_find checksum s =
     (case first_idx (\<lambda>e. de_valid e \<and> de_checksum e = checksum \<and> 0 < de_refcount e) (dedup_table s) of
        Some i \<Rightarrow> de_block_num (dedup_table s ! i)
      | None \<Rightarrow> 0)"

definition dedup_insert :: "uint \<Rightarrow> nat \<Rightarrow> 'z gc_state_scheme \<Rightarrow> int \<times> 'z gc_state_scheme" where
  "dedup_insert checksum block_num s =
     (case first_idx (\<lambda>e. de_valid e \<and> de_block_num e = block_num) (dedup_table s) of
        Some i \<Rightarrow>
          let e = dedup_table s ! i in
          (0, s\<lparr>dedup_table := (dedup_table s)[i := e\<lparr>de_checksum := checksum,
                                              de_refcount := uinc (de_refcount e)\<rparr>]\<rparr>)
      | None \<Rightarrow>
          (case first_idx (\<lambda>e. \<not> de_valid e) (dedup_table s) of
             Some i \<Rightarrow> (0, s\<lparr>dedup_table := (dedup_table s)[i := \<lparr>de_checksum = checksum,
                           de_block_num = block_num, de_refcount = 1, de_valid = True\<rparr>]\<rparr>)
           | None \<Rightarrow> (-1, s)))"

definition dedup_remove :: "nat \<Rightarrow> 'z gc_state_scheme \<Rightarrow> int \<times> 'z gc_state_scheme" where
  "dedup_remove block_num s =
     (case first_idx (\<lambda>e. de_valid e \<and> de_block_num e = block_num) (dedup_table s) of
        Some i \<Rightarrow>
          let e = dedup_table s ! i;
              e = (if 0 < de_refcount e then e\<lparr>de_refcount := de_refcount e - 1\<rparr> else e);
              e = (if de_refcount e = 0 then e\<lparr>de_valid := False\<rparr> else e) in
          (0, s\<lparr>dedup_table := (dedup_table s)[i := e]\<rparr>)
      | None \<Rightarrow> (-1, s))"

section \<open>Garbage collector entry points\<close>

definition get_timestamp :: "'z gc_state_scheme \<Rightarrow> nat" where
  "get_timestamp s = ticks s"

definition gc_init :: "'z gc_state_scheme \<Rightarrow> 'z gc_state_scheme" where
  "gc_init s =
     (let s = bref_init s; s = dedup_init s in
      s\<lparr>gc_statistics := \<lparr>blocks_freed = 0, versions_pruned = 0, last_run_time = 0, total_runs = 0\<rparr>\<rparr>)"

definition gc_run :: "'z gc_state_scheme \<Rightarrow> int \<times> 'z gc_state_scheme" where
  "gc_run s =
     (let st = gc_statistics s; st = st\<lparr>total_runs := uinc (total_runs st)\<rparr>;
          st = st\<lparr>last_run_time := get_timestamp s\<rparr> in
      (0, s\<lparr>gc_statistics := st\<rparr>))"

section \<open>The reference-count table as a map\<close>

text \<open>
  At most one valid entry per block, and every valid entry counts at least one reference.
\<close>

definition bref_inv :: "'z gc_state_scheme \<Rightarrow> bool" where
  "bref_inv s \<longleftrightarrow>
     (\<forall>i < length (refcount_table s). \<forall>j < length (refcount_table s).
        rc_valid (refcount_table s ! i) \<and> rc_valid (refcount_table s ! j) \<and>
        rc_block_num (refcount_table s ! i) = rc_block_num (refcount_table s ! j) \<longrightarrow> i = j) \<and>
     (\<forall>e \<in> set (refcount_table s). rc_valid e \<longrightarrow> 0 < rc_refcount e \<and> rc_refcount e < 4294967296)"

definition bref_full :: "nat \<Rightarrow> 'z gc_state_scheme \<Rightarrow> bool" where
  "bref_full b s \<longleftrightarrow> (\<forall>e \<in> set (refcount_table s). rc_valid e \<and> rc_block_num e \<noteq> b)"

text \<open>The entry \<open>i\<close> is the valid one for block \<open>b\<close>.\<close>

definition bref_at :: "nat \<Rightarrow> nat \<Rightarrow> 'z gc_state_scheme \<Rightarrow> bool" where
  "bref_at b i s \<longleftrightarrow> i < length (refcount_table s) \<and> rc_valid (refcount_table s ! i) \<and>
     rc_block_num (refcount_table s ! i) = b"

lemma bref_at_unique: "bref_inv s \<Longrightarrow> bref_at b i s \<Longrightarrow> bref_at b j s \<Longrightarrow> i = j"
  unfolding bref_inv_def bref_at_def by metis

lemma first_idx_valid_iff:
  "bref_inv s \<Longrightarrow>
   first_idx (\<lambda>e. rc_valid e \<and> rc_block_num e = b) (refcount_table s) = Some i \<longleftrightarrow> bref_at b i s"
  using bref_at_unique [of s b] unfolding first_idx_Some bref_at_def
  by (metis (no_types, lifting) less_trans nat_neq_iff)

lemma first_idx_valid_None:
  "first_idx (\<lambda>e. rc_valid e \<and> rc_block_num e = b) (refcount_table s) = None \<longleftrightarrow> (\<forall>i. \<not> bref_at b i s)"
  unfolding first_idx_None bref_at_def by (metis in_set_conv_nth)

lemma bref_get_at: "bref_inv s \<Longrightarrow> bref_at b i s \<Longrightarrow> bref_get b s = rc_refcount (refcount_table s ! i)"
  using first_idx_valid_iff [of s b i] by (simp add: bref_get_def)

lemma bref_get_none: "(\<And>i. \<not> bref_at b i s) \<Longrightarrow> bref_get b s = 0"
  unfolding bref_get_def by (metis first_idx_valid_None option.simps(4))

lemma bref_at_positive: "bref_inv s \<Longrightarrow> bref_at b i s \<Longrightarrow>
    0 < rc_refcount (refcount_table s ! i) \<and> rc_refcount (refcount_table s ! i) < 4294967296"
  by (simp add: bref_inv_def bref_at_def)

lemma bref_tracked_iff: "bref_inv s \<Longrightarrow> bref_is_tracked b s \<longleftrightarrow> 0 < bref_get b s"
  using first_idx_valid_None [of b s] bref_get_none [of b s] bref_get_at [of s b] bref_at_positive [of s b]
  unfolding bref_is_tracked_def by (metis less_irrefl)

text \<open>Overwriting the entry of a block, or a free one: only the count of that block changes.\<close>

lemma bref_upd:
  assumes inv: "bref_inv s" and i: "i < length (refcount_table s)"
    and old: "\<not> rc_valid (refcount_table s ! i) \<and> (\<forall>j. \<not> bref_at (rc_block_num e) j s)
              \<or> bref_at (rc_block_num e) i s"
    and pos: "rc_valid e \<Longrightarrow> 0 < rc_refcount e \<and> rc_refcount e < 4294967296"
  defines "s' \<equiv> s\<lparr>refcount_table := (refcount_table s)[i := e]\<rparr>"
  shows "bref_inv s'"
    and "bref_get c s' = (if c = rc_block_num e then if rc_valid e then rc_refcount e else 0 else bref_get c s)"
proof -
  have at: "bref_at c j s' \<longleftrightarrow>
      (if j = i then rc_valid e \<and> c = rc_block_num e else c \<noteq> rc_block_num e \<and> bref_at c j s)" for c j
    using i old bref_at_unique [OF inv, of "rc_block_num e" i j]
    by (auto simp: s'_def bref_at_def nth_list_update)
  have uniq: "j = k" if "bref_at c j s'" "bref_at c k s'" for c j k
    using that bref_at_unique [OF inv, of c j k] by (auto simp: at split: if_splits)
  have tbl: "refcount_table s' = (refcount_table s)[i := e]"
    by (simp add: s'_def)
  have "0 < rc_refcount x \<and> rc_refcount x < 4294967296" if "x \<in> set (refcount_table s')" "rc_valid x" for x
    using that inv pos set_update_subset_insert [of "refcount_table s" i e]
    unfolding s'_def bref_inv_def by auto
  with uniq show inv': "bref_inv s'"
    unfolding bref_inv_def bref_at_def by blast
  show "bref_get c s' = (if c = rc_block_num e then if rc_valid e then rc_refcount e else 0 else bref_get c s)"
  proof (cases "\<exists>j. bref_at c j s'")
    case True
    then obtain j where j: "bref_at c j s'" by blast
    show ?thesis
      using bref_get_at [OF inv' j] j bref_get_at [OF inv, of c j] i
      by (auto simp: at tbl nth_list_update split: if_splits)
  next
    case False
    have "bref_get c s = 0" if "c \<noteq> rc_block_num e"
    proof (rule bref_get_none)
      fix j
      show "\<not> bref_at c j s"
        using False that at [of c j] old by (auto simp: bref_at_def split: if_splits)
    qed
    moreover have "\<not> rc_valid e" if "c = rc_block_num e"
      using False that at [of c i] by simp
    moreover have "bref_get c s' = 0"
      using False by (intro bref_get_none) simp
    ultimately show ?thesis by auto
  qed
qed

lemma bref_find_or_create_cases:
  assumes "bref_inv s"
  obtains (found) i where "bref_at b i s"
      "bref_find_or_create b (refcount_table s) = (Some i, refcount_table s)"
    | (fresh) i where "\<forall>j. \<not> bref_at b j s" "i < length (refcount_table s)" "\<not> rc_valid (refcount_table s ! i)"
      "bref_find_or_create b (refcount_table s) = (Some i, (refcount_table s)[i :=
         \<lparr>rc_block_num = b, rc_refcount = 0, rc_checksum = 0, rc_valid = True\<rparr>])"
    | (full) "bref_full b s" "bref_find_or_create b (refcount_table s) = (None, refcount_table s)"
proof (cases "first_idx (\<lambda>e. rc_valid e \<and> rc_block_num e = b) (refcount_table s)")
  case (Some i)
  with found [of i] first_idx_valid_iff [OF assms] show thesis
    by (simp add: bref_find_or_create_def)
next
  case None
  show thesis
  proof (cases "first_idx (\<lambda>e. \<not> rc_valid e) (refcount_table s)")
    case (Some i)
    then have "i < length (refcount_table s)" "\<not> rc_valid (refcount_table s ! i)"
      by (simp_all add: first_idx_Some)
    with fresh [of i] None Some first_idx_valid_None [of b s] show thesis
      by (simp add: bref_find_or_create_def)
  next
    case None': None
    from None None' have "bref_full b s" by (auto simp: bref_full_def)
    with full None None' show thesis by (simp add: bref_find_or_create_def)
  qed
qed

lemma bref_at_not_full: "bref_at b i s \<Longrightarrow> \<not> bref_full b s"
  by (auto simp: bref_at_def bref_full_def)

lemma bref_inc_ok:
  assumes inv: "bref_inv s" and nf: "\<not> bref_full b s" and small: "bref_get b s + 1 < 2147483648"
  shows "fst (bref_inc b s) = int (bref_get b s) + 1" and "bref_inv (snd (bref_inc b s))"
    and "bref_get c (snd (bref_inc b s)) = (if c = b then bref_get b s + 1 else bref_get c s)"
proof -
  have "fst (bref_inc b s) = int (bref_get b s) + 1 \<and> bref_inv (snd (bref_inc b s)) \<and>
    bref_get c (snd (bref_inc b s)) = (if c = b then bref_get b s + 1 else bref_get c s)"
    using inv
  proof (cases rule: bref_find_or_create_cases [of s b])
    case (found i)
    let ?e = "refcount_table s ! i"
    have e: "rc_valid ?e" "rc_block_num ?e = b" "i < length (refcount_table s)"
      using found(1) by (auto simp: bref_at_def)
    have g: "bref_get b s = rc_refcount ?e" by (rule bref_get_at [OF inv found(1)])
    have u: "uinc (rc_refcount ?e) = Suc (rc_refcount ?e)" using small g by simp
    show ?thesis
      using bref_upd [OF inv e(3), of "?e\<lparr>rc_refcount := Suc (rc_refcount ?e)\<rparr>"] found(1) e g u small
      by (simp add: bref_inc_def found(2) Let_def)
  next
    case (fresh i)
    have g: "bref_get b s = 0" using fresh(1) by (intro bref_get_none) simp
    show ?thesis
      using bref_upd [OF inv fresh(2), of "\<lparr>rc_block_num = b, rc_refcount = 1, rc_checksum = 0, rc_valid = True\<rparr>"]
        fresh g by (simp add: bref_inc_def Let_def)
  next
    case full
    with nf show ?thesis by simp
  qed
  then show "fst (bref_inc b s) = int (bref_get b s) + 1" and "bref_inv (snd (bref_inc b s))"
    and "bref_get c (snd (bref_inc b s)) = (if c = b then bref_get b s + 1 else bref_get c s)" by auto
qed

lemma bref_inc_full: "bref_inv s \<Longrightarrow> bref_full b s \<Longrightarrow> bref_inc b s = (-1, s)"
  by (cases rule: bref_find_or_create_cases [of s b])
     (auto simp: bref_inc_def bref_full_def bref_at_def)

lemma bref_dec_ok:
  assumes inv: "bref_inv s" and small: "bref_get b s \<le> 2147483648"
  shows "fst (bref_dec b s) = int (bref_get b s - 1)" and "bref_inv (snd (bref_dec b s))"
    and "bref_get c (snd (bref_dec b s)) = (if c = b then bref_get b s - 1 else bref_get c s)"
proof -
  have "fst (bref_dec b s) = int (bref_get b s - 1) \<and> bref_inv (snd (bref_dec b s)) \<and>
    bref_get c (snd (bref_dec b s)) = (if c = b then bref_get b s - 1 else bref_get c s)"
  proof (cases "first_idx (\<lambda>e. rc_valid e \<and> rc_block_num e = b) (refcount_table s)")
    case None
    have "bref_get b s = 0" unfolding bref_get_def None by simp
    moreover have "bref_dec b s = (0, s)" unfolding bref_dec_def None by simp
    ultimately show ?thesis using inv by simp
  next
    case (Some i)
    then have at: "bref_at b i s" by (simp add: first_idx_valid_iff [OF inv])
    let ?e = "refcount_table s ! i"
    have e: "rc_valid ?e" "rc_block_num ?e = b" "i < length (refcount_table s)"
      using at by (auto simp: bref_at_def)
    have g: "bref_get b s = rc_refcount ?e" by (rule bref_get_at [OF inv at])
    have p: "0 < rc_refcount ?e" using bref_at_positive [OF inv at] by simp
    define e' where "e' = (if rc_refcount ?e = 1 then ?e\<lparr>rc_refcount := 0, rc_valid := False\<rparr>
                           else ?e\<lparr>rc_refcount := rc_refcount ?e - 1\<rparr>)"
    have d: "bref_dec b s = (int (rc_refcount ?e - 1), s\<lparr>refcount_table := (refcount_table s)[i := e']\<rparr>)"
      using Some p small g by (auto simp: bref_dec_def e'_def Let_def)
    show ?thesis
      using bref_upd [OF inv e(3), of e'] at e g p small d by (auto simp: e'_def split: if_splits)
  qed
  then show "fst (bref_dec b s) = int (bref_get b s - 1)" and "bref_inv (snd (bref_dec b s))"
    and "bref_get c (snd (bref_dec b s)) = (if c = b then bref_get b s - 1 else bref_get c s)" by auto
qed


section \<open>Reference counts as an interface\<close>

text \<open>
  What the clients of the table rely on: counts below the range of \<^verbatim>\<open>int\<close>, an increment that
  fails only on a full table, and operations that change the count of their own block only.
\<close>

locale refcounts =
  fixes inv :: "'s \<Rightarrow> bool" and inc dec :: "nat \<Rightarrow> 's \<Rightarrow> int \<times> 's"
    and get :: "nat \<Rightarrow> 's \<Rightarrow> nat" and tracked full :: "nat \<Rightarrow> 's \<Rightarrow> bool"
  assumes tracked_iff: "inv s \<Longrightarrow> tracked b s \<longleftrightarrow> 0 < get b s"
    and tracked_room: "inv s \<Longrightarrow> tracked b s \<Longrightarrow> \<not> full b s"
    and inc_fst: "inv s \<Longrightarrow> \<not> full b s \<Longrightarrow> get b s + 1 < 2147483648 \<Longrightarrow> fst (inc b s) = int (get b s) + 1"
    and inc_inv: "inv s \<Longrightarrow> \<not> full b s \<Longrightarrow> get b s + 1 < 2147483648 \<Longrightarrow> inv (snd (inc b s))"
    and inc_get: "inv s \<Longrightarrow> \<not> full b s \<Longrightarrow> get b s + 1 < 2147483648 \<Longrightarrow>
      get c (snd (inc b s)) = (if c = b then get b s + 1 else get c s)"
    and dec_fst: "inv s \<Longrightarrow> get b s < 2147483648 \<Longrightarrow> fst (dec b s) = int (get b s - 1)"
    and dec_inv: "inv s \<Longrightarrow> get b s < 2147483648 \<Longrightarrow> inv (snd (dec b s))"
    and dec_get: "inv s \<Longrightarrow> get b s < 2147483648 \<Longrightarrow>
      get c (snd (dec b s)) = (if c = b then get b s - 1 else get c s)"
begin

lemma inc_many:
  assumes "inv s" "\<not> full b s" "get b s + n < 2147483648"
  shows "inv (((\<lambda>s. snd (inc b s)) ^^ n) s) \<and> \<not> full b (((\<lambda>s. snd (inc b s)) ^^ n) s) \<and>
     (\<forall>c. get c (((\<lambda>s. snd (inc b s)) ^^ n) s) = (if c = b then get b s + n else get c s))"
  using assms(3)
proof (induction n)
  case 0
  then show ?case using assms by auto
next
  case (Suc n)
  let ?t = "((\<lambda>s. snd (inc b s)) ^^ n) s"
  from Suc have ih: "inv ?t" "\<not> full b ?t" "\<And>c. get c ?t = (if c = b then get b s + n else get c s)"
    by auto
  then have g: "get b ?t + 1 < 2147483648" using Suc.prems by simp
  have i: "inv (snd (inc b ?t))" by (rule inc_inv [OF ih(1,2) g])
  have f: "get c (snd (inc b ?t)) = (if c = b then get b s + Suc n else get c s)" for c
    using inc_get [OF ih(1,2) g, of c] ih(3) by simp
  then have "tracked b (snd (inc b ?t))" using tracked_iff [OF i, of b] by simp
  then have "\<not> full b (snd (inc b ?t))" by (rule tracked_room [OF i])
  with i f show ?case by simp
qed

lemma dec_many:
  assumes "inv s" "get b s < 2147483648"
  shows "inv (((\<lambda>s. snd (dec b s)) ^^ n) s) \<and>
     (\<forall>c. get c (((\<lambda>s. snd (dec b s)) ^^ n) s) = (if c = b then get b s - n else get c s))"
proof (induction n)
  case 0
  then show ?case using assms by auto
next
  case (Suc n)
  let ?t = "((\<lambda>s. snd (dec b s)) ^^ n) s"
  from Suc have ih: "inv ?t" "\<And>c. get c ?t = (if c = b then get b s - n else get c s)" by auto
  then have g: "get b ?t < 2147483648" using assms(2) by simp
  show ?case using dec_inv [OF ih(1) g] dec_get [OF ih(1) g] ih(2) by auto
qed

text \<open>Only the release of the last of \<open>n\<close> references reports zero.\<close>

lemma last_reference:
  assumes "inv s" "\<not> tracked b s" "\<not> full b s" "n < 2147483648"
  defines "t \<equiv> ((\<lambda>s. snd (inc b s)) ^^ n) s"
  shows "k < n \<Longrightarrow> fst (dec b (((\<lambda>s. snd (dec b s)) ^^ k) t)) = int (n - 1 - k)"
    and "inv (((\<lambda>s. snd (dec b s)) ^^ n) t)"
    and "\<not> tracked b (((\<lambda>s. snd (dec b s)) ^^ n) t)"
    and "get c (((\<lambda>s. snd (dec b s)) ^^ n) t) = get c s"
proof -
  have z: "get b s = 0" using tracked_iff [OF assms(1)] assms(2) by simp
  have t: "inv t" "\<And>c. get c t = (if c = b then n else get c s)"
    using inc_many [of s b n] assms(1,3,4) z by (auto simp: t_def)
  then have tb: "get b t < 2147483648" using assms(4) by simp
  note d = dec_many [OF t(1) tb]
  show "fst (dec b (((\<lambda>s. snd (dec b s)) ^^ k) t)) = int (n - 1 - k)" if "k < n"
    using d [of k] dec_fst [of "((\<lambda>s. snd (dec b s)) ^^ k) t" b] t(2) assms(4) by simp
  show i: "inv (((\<lambda>s. snd (dec b s)) ^^ n) t)" using d [of n] by simp
  show "\<not> tracked b (((\<lambda>s. snd (dec b s)) ^^ n) t)"
    using d [of n] tracked_iff [OF i] t(2) by simp
  show "get c (((\<lambda>s. snd (dec b s)) ^^ n) t) = get c s"
    using d [of n] t(2) z by simp
qed

end

interpretation bref: refcounts bref_inv bref_inc bref_dec bref_get bref_is_tracked bref_full
proof unfold_locales
  fix s :: "'z gc_state_scheme" and b c
  assume inv: "bref_inv s"
  show "bref_is_tracked b s \<longleftrightarrow> 0 < bref_get b s" by (rule bref_tracked_iff [OF inv])
  show "\<not> bref_full b s" if "bref_is_tracked b s"
    using that by (auto simp: bref_is_tracked_def bref_full_def)
  show "fst (bref_dec b s) = int (bref_get b s - 1)" "bref_inv (snd (bref_dec b s))"
    "bref_get c (snd (bref_dec b s)) = (if c = b then bref_get b s - 1 else bref_get c s)"
    if "bref_get b s < 2147483648"
    using bref_dec_ok [OF inv] that by auto
  show "fst (bref_inc b s) = int (bref_get b s) + 1" "bref_inv (snd (bref_inc b s))"
    "bref_get c (snd (bref_inc b s)) = (if c = b then bref_get b s + 1 else bref_get c s)"
    if "\<not> bref_full b s" "bref_get b s + 1 < 2147483648"
    using that by (rule bref_inc_ok [OF inv])+
qed

text \<open>
  \<^bold>\<open>C23\<close>. Reference counting frees a block exactly once. Starting from a table in which a block
  is not tracked and for which there is a free entry, \<open>n\<close> calls of \<^verbatim>\<open>bref_inc\<close> followed by \<open>n\<close>
  calls of \<^verbatim>\<open>bref_dec\<close>: the \<open>k\<close>-th decrement returns the number of references left, so only the
  last one returns zero; then the block is untracked again and no other count has changed.
\<close>

theorem bref_last_reference:
  assumes "bref_inv s" "\<not> bref_is_tracked b s" "\<not> bref_full b s" "n < 2147483648"
  shows "bref_inv (((\<lambda>s. snd (bref_dec b s)) ^^ n) (((\<lambda>s. snd (bref_inc b s)) ^^ n) s)) \<and>
     (\<forall>k < n. fst (bref_dec b (((\<lambda>s. snd (bref_dec b s)) ^^ k) (((\<lambda>s. snd (bref_inc b s)) ^^ n) s))) =
        int (n - 1 - k)) \<and>
     \<not> bref_is_tracked b (((\<lambda>s. snd (bref_dec b s)) ^^ n) (((\<lambda>s. snd (bref_inc b s)) ^^ n) s)) \<and>
     (\<forall>c. bref_get c (((\<lambda>s. snd (bref_dec b s)) ^^ n) (((\<lambda>s. snd (bref_inc b s)) ^^ n) s)) = bref_get c s)"
  using bref.last_reference [OF assms] by blast

definition boot_gc :: gc_state where
  "boot_gc = \<lparr>blks = \<lambda>_ _. 0, disk = \<lambda>_ _. 0, held = [], dirty = [], wtrace = [],
     klog = \<lparr>log_start = 2, log_size = 30, outstanding = 0, committing = False, log_dev = 1, lh_block = []\<rparr>,
     ticks = 0,
     refcount_table = replicate 3 \<lparr>rc_block_num = 0, rc_refcount = 0, rc_checksum = 0, rc_valid = False\<rparr>,
     dedup_table = replicate 3 \<lparr>de_checksum = 0, de_block_num = 0, de_refcount = 0, de_valid = False\<rparr>,
     gc_statistics = \<lparr>blocks_freed = 0, versions_pruned = 0, last_run_time = 0, total_runs = 0\<rparr>\<rparr>"

theorem bref_last_reference_witness:
  "\<not> bref_is_tracked 7 (snd (bref_dec 7 (snd (bref_dec 7 (snd (bref_inc 7 (snd (bref_inc 7 boot_gc)))))))) \<and>
   fst (bref_dec 7 (snd (bref_inc 7 (snd (bref_inc 7 boot_gc))))) = 1"
proof -
  have "bref_inv boot_gc" "\<not> bref_is_tracked 7 boot_gc" "\<not> bref_full 7 boot_gc"
    by (auto simp: boot_gc_def bref_inv_def bref_is_tracked_def bref_full_def nth_Cons' numeral_3_eq_3)
  from bref_last_reference [OF this, of 2] show ?thesis
    by (auto simp: numeral_2_eq_2)
qed

section \<open>The hash\<close>

lemma dedup_hash_loop_poly:
  "dedup_hash_loop cs h = word_of_int (uint h * 33 ^ length cs +
     (\<Sum>i < length cs. sint (cs ! i) * 33 ^ (length cs - 1 - i)))"
proof (induction cs arbitrary: h)
  case Nil
  then show ?case by simp
next
  case (Cons c cs)
  have sh: "push_bit 5 h + h = h * 33"
    by (simp add: push_bit_eq_mult flip: distrib_left [of h 32 1, simplified])
  have h: "(push_bit 5 h + h) + scast c = h * 33 + word_of_int (sint c)"
    unfolding sh by simp
  have hd: "(\<Sum>i < length (c # cs). sint ((c # cs) ! i) * 33 ^ (length (c # cs) - 1 - i)) =
      sint c * 33 ^ length cs + (\<Sum>i < length cs. sint (cs ! i) * 33 ^ (length cs - 1 - i))"
    by (simp add: sum.lessThan_Suc_shift del: sum.lessThan_Suc)
  have "dedup_hash_loop (c # cs) h = (h * 33 + word_of_int (sint c)) * 33 ^ length cs +
      word_of_int (\<Sum>i < length cs. sint (cs ! i) * 33 ^ (length cs - 1 - i))"
    unfolding dedup_hash_loop.simps h Cons.IH by simp
  then show ?case unfolding hd by (simp add: algebra_simps)
qed

text \<open>
  \<^bold>\<open>C39\<close>. \<^verbatim>\<open>dedup_hash\<close> is the djb2 polynomial of the (signed) bytes, modulo \<open>2 ^ 32\<close>.
\<close>

theorem dedup_hash_djb2:
  "uint (dedup_hash data) =
     (5381 * 33 ^ length data + (\<Sum>i < length data. sint (data ! i) * 33 ^ (length data - 1 - i))) mod 2 ^ 32"
  unfolding dedup_hash_def dedup_hash_loop_poly uint_word_of_int by (simp del: of_int_add)

section \<open>The deduplication table\<close>

definition dedup_inv :: "'z gc_state_scheme \<Rightarrow> bool" where
  "dedup_inv s \<longleftrightarrow>
     (\<forall>i < length (dedup_table s). \<forall>j < length (dedup_table s).
        de_valid (dedup_table s ! i) \<and> de_valid (dedup_table s ! j) \<and>
        de_block_num (dedup_table s ! i) = de_block_num (dedup_table s ! j) \<longrightarrow> i = j) \<and>
     (\<forall>e \<in> set (dedup_table s). de_valid e \<longrightarrow> 0 < de_refcount e \<and> de_refcount e < 4294967295)"

lemma dedup_find_present:
  assumes "e \<in> set (dedup_table s)" "de_valid e" "de_checksum e = c" "0 < de_refcount e"
  shows "\<exists>e \<in> set (dedup_table s). de_valid e \<and> de_checksum e = c \<and> 0 < de_refcount e \<and>
     dedup_find c s = de_block_num e"
proof -
  have "first_idx (\<lambda>e. de_valid e \<and> de_checksum e = c \<and> 0 < de_refcount e) (dedup_table s) \<noteq> None"
    unfolding first_idx_None using assms by blast
  then obtain i where i: "first_idx (\<lambda>e. de_valid e \<and> de_checksum e = c \<and> 0 < de_refcount e) (dedup_table s) = Some i"
    by blast
  then have "dedup_find c s = de_block_num (dedup_table s ! i)" by (simp add: dedup_find_def)
  moreover have "dedup_table s ! i \<in> set (dedup_table s)" "de_valid (dedup_table s ! i)"
    "de_checksum (dedup_table s ! i) = c" "0 < de_refcount (dedup_table s ! i)"
    using i by (auto simp: first_idx_Some)
  ultimately show ?thesis by blast
qed

lemma dedup_upd_inv:
  assumes inv: "dedup_inv s" and i: "i < length (dedup_table s)"
    and others: "\<And>j. j < length (dedup_table s) \<Longrightarrow> j \<noteq> i \<Longrightarrow> de_valid (dedup_table s ! j) \<Longrightarrow>
      de_block_num (dedup_table s ! j) \<noteq> de_block_num e"
    and e: "0 < de_refcount e" "de_refcount e < 4294967295"
  shows "dedup_inv (s\<lparr>dedup_table := (dedup_table s)[i := e]\<rparr>)"
proof -
  have "de_valid x \<longrightarrow> 0 < de_refcount x \<and> de_refcount x < 4294967295"
    if "x \<in> set ((dedup_table s)[i := e])" for x
    using that inv e set_update_subset_insert [of "dedup_table s" i e] unfolding dedup_inv_def by auto
  moreover have "j = k" if "j < length (dedup_table s)" "k < length (dedup_table s)"
      "de_valid ((dedup_table s)[i := e] ! j)" "de_valid ((dedup_table s)[i := e] ! k)"
      "de_block_num ((dedup_table s)[i := e] ! j) = de_block_num ((dedup_table s)[i := e] ! k)" for j k
    using that inv i others [of j] others [of k] unfolding dedup_inv_def
    by (cases "j = i"; cases "k = i") auto
  ultimately show ?thesis unfolding dedup_inv_def by simp
qed

text \<open>
  \<^bold>\<open>C24\<close>. After a successful \<^verbatim>\<open>dedup_insert\<close> of a block under a checksum, the table still has one
  entry per block, the block is recorded under that checksum with one reference more than
  before, entries of other blocks are untouched, and \<^verbatim>\<open>dedup_find\<close> of the checksum returns a
  block recorded under it.
\<close>

theorem dedup_insert_find:
  assumes inv: "dedup_inv s" and ins: "dedup_insert c b s = (0, s')"
    and small: "\<And>e. e \<in> set (dedup_table s) \<Longrightarrow> de_refcount e < 4294967294"
  shows "dedup_inv s' \<and>
     (\<exists>i < length (dedup_table s). \<exists>n.
        s' = s\<lparr>dedup_table := (dedup_table s)[i := \<lparr>de_checksum = c, de_block_num = b, de_refcount = Suc n, de_valid = True\<rparr>]\<rparr> \<and>
        (if \<exists>d \<in> set (dedup_table s). de_valid d \<and> de_block_num d = b
         then de_valid (dedup_table s ! i) \<and> de_block_num (dedup_table s ! i) = b \<and> n = de_refcount (dedup_table s ! i)
         else \<not> de_valid (dedup_table s ! i) \<and> n = 0)) \<and>
     (\<exists>e \<in> set (dedup_table s'). de_valid e \<and> de_checksum e = c \<and> dedup_find c s' = de_block_num e)"
proof -
  obtain i n where i: "i < length (dedup_table s)"
    and s': "s' = s\<lparr>dedup_table := (dedup_table s)[i := \<lparr>de_checksum = c, de_block_num = b, de_refcount = Suc n, de_valid = True\<rparr>]\<rparr>"
    and old: "if \<exists>d \<in> set (dedup_table s). de_valid d \<and> de_block_num d = b
         then de_valid (dedup_table s ! i) \<and> de_block_num (dedup_table s ! i) = b \<and> n = de_refcount (dedup_table s ! i)
         else \<not> de_valid (dedup_table s ! i) \<and> n = 0"
  proof (cases "first_idx (\<lambda>e. de_valid e \<and> de_block_num e = b) (dedup_table s)")
    case (Some i)
    then have e: "i < length (dedup_table s)" "de_valid (dedup_table s ! i)" "de_block_num (dedup_table s ! i) = b"
      by (auto simp: first_idx_Some)
    have "(dedup_table s ! i)\<lparr>de_checksum := c, de_refcount := uinc (de_refcount (dedup_table s ! i))\<rparr> =
      \<lparr>de_checksum = c, de_block_num = b, de_refcount = Suc (de_refcount (dedup_table s ! i)), de_valid = True\<rparr>"
      using e small [OF nth_mem [OF e(1)]] by (cases "dedup_table s ! i") simp
    moreover have "\<exists>d \<in> set (dedup_table s). de_valid d \<and> de_block_num d = b"
      using e nth_mem [OF e(1)] by blast
    ultimately show thesis
      using Some ins e that [of i "de_refcount (dedup_table s ! i)"]
      by (simp add: dedup_insert_def Let_def)
  next
    case None
    have none: "\<not> (\<exists>d \<in> set (dedup_table s). de_valid d \<and> de_block_num d = b)"
      using None unfolding first_idx_None by blast
    show thesis
    proof (cases "first_idx (\<lambda>e. \<not> de_valid e) (dedup_table s)")
      case (Some i)
      with ins none that [of i 0] show thesis
        unfolding dedup_insert_def None by (auto simp: first_idx_Some)
    qed (use ins None in \<open>auto simp: dedup_insert_def simp del: first_idx_None\<close>)
  qed
  have n: "Suc n < 4294967295"
    using old small [OF nth_mem [OF i]] by (auto split: if_splits)
  have others: "de_block_num (dedup_table s ! j) \<noteq> b"
    if "j < length (dedup_table s)" "j \<noteq> i" "de_valid (dedup_table s ! j)" for j
    using that old inv i nth_mem [OF that(1)] unfolding dedup_inv_def by (auto split: if_splits)
  have inv': "dedup_inv s'"
    unfolding s' by (rule dedup_upd_inv [OF inv i]) (use n others in auto)
  have mem: "\<lparr>de_checksum = c, de_block_num = b, de_refcount = Suc n, de_valid = True\<rparr> \<in> set (dedup_table s')"
    using i by (simp add: s' set_update_memI)
  from dedup_find_present [OF mem] have
    "\<exists>e \<in> set (dedup_table s'). de_valid e \<and> de_checksum e = c \<and> dedup_find c s' = de_block_num e"
    by auto
  with inv' i s' old show ?thesis by blast
qed

theorem dedup_insert_find_witness:
  "\<exists>s' :: gc_state. dedup_insert 99 7 boot_gc = (0, s') \<and> dedup_inv s' \<and> dedup_find 99 s' = 7"
proof -
  have inv: "dedup_inv boot_gc" by (auto simp: boot_gc_def dedup_inv_def)
  obtain s' where ins: "dedup_insert 99 7 boot_gc = (0, s')"
    by (simp add: dedup_insert_def boot_gc_def numeral_3_eq_3)
  have "dedup_inv s'" using dedup_insert_find [OF inv ins] by (simp add: boot_gc_def)
  moreover have "dedup_find 99 s' = 7"
    using ins by (auto simp: dedup_insert_def boot_gc_def numeral_3_eq_3 dedup_find_def)
  ultimately show ?thesis using ins by blast
qed

end
