(* ===== verification/Strings.thy ===== *)
theory Strings
  imports Prelude
begin

text \<open>
  string.c and the string functions of ulib.c. Functions that write take the memory (a
  byte array indexed by the address) and addresses, so that overlapping operands are
  modelled; functions that only read take the array a pointer leads to. \<^verbatim>\<open>strlen\<close>, \<^verbatim>\<open>strcmp\<close>
  and \<^verbatim>\<open>strchr\<close> do not return on an array without a NUL: they are partial functions.
\<close>

section \<open>memset, memcmp, memmove\<close>

text \<open>The string instructions of x86.h: \<open>cnt\<close> stores of a byte, or of a little-endian word.\<close>

primrec stosb :: "block \<Rightarrow> nat \<Rightarrow> byte \<Rightarrow> nat \<Rightarrow> block" where
  "stosb m addr d 0 = m"
| "stosb m addr d (Suc cnt) = stosb (m(addr := d)) (addr + 1) d cnt"

primrec stosl :: "block \<Rightarrow> nat \<Rightarrow> uint \<Rightarrow> nat \<Rightarrow> block" where
  "stosl m addr d 0 = m"
| "stosl m addr d (Suc cnt) = stosl (put32 m addr (unat d)) (addr + 4) d cnt"

definition memset :: "block \<Rightarrow> nat \<Rightarrow> uint \<Rightarrow> nat \<Rightarrow> block" where
  "memset m dst c n =
     (if dst mod 4 = 0 \<and> n mod 4 = 0 then
        let c = c AND 0xFF in
        stosl m dst (push_bit 24 c OR push_bit 16 c OR push_bit 8 c OR c) (n div 4)
      else stosb m dst (ucast c) n)"

primrec memcmp :: "block \<Rightarrow> block \<Rightarrow> nat \<Rightarrow> int" where
  "memcmp s1 s2 0 = 0"
| "memcmp s1 s2 (Suc n) =
     (if s1 0 \<noteq> s2 0 then uint (s1 0) - uint (s2 0)
      else memcmp (\<lambda>i. s1 (Suc i)) (\<lambda>i. s2 (Suc i)) n)"

text \<open>\<^verbatim>\<open>while(n-- > 0) *--d = *--s;\<close> and \<^verbatim>\<open>while(n-- > 0) *d++ = *s++;\<close>\<close>

primrec move_down :: "block \<Rightarrow> nat \<Rightarrow> nat \<Rightarrow> nat \<Rightarrow> block" where
  "move_down m d s 0 = m"
| "move_down m d s (Suc n) = move_down (m(d - 1 := m (s - 1))) (d - 1) (s - 1) n"

primrec move_up :: "block \<Rightarrow> nat \<Rightarrow> nat \<Rightarrow> nat \<Rightarrow> block" where
  "move_up m d s 0 = m"
| "move_up m d s (Suc n) = move_up (m(d := m s)) (d + 1) (s + 1) n"

definition memmove :: "block \<Rightarrow> nat \<Rightarrow> nat \<Rightarrow> nat \<Rightarrow> block" where
  "memmove m dst src n =
     (if src < dst \<and> dst < src + n then move_down m (dst + n) (src + n) n
      else move_up m dst src n)"

definition memcpy :: "block \<Rightarrow> nat \<Rightarrow> nat \<Rightarrow> nat \<Rightarrow> block" where
  "memcpy m dst src n = memmove m dst src n"

text \<open>The \<^verbatim>\<open>memmove\<close> of ulib.c only copies upwards.\<close>

definition ulib_memmove :: "block \<Rightarrow> nat \<Rightarrow> nat \<Rightarrow> int \<Rightarrow> block" where
  "ulib_memmove m dst src n = move_up m dst src (nat n)"

section \<open>strncmp, strncpy, safestrcpy, strlen\<close>

primrec strncmp :: "block \<Rightarrow> block \<Rightarrow> nat \<Rightarrow> int" where
  "strncmp p q 0 = 0"
| "strncmp p q (Suc n) =
     (if p 0 \<noteq> 0 \<and> p 0 = q 0 then strncmp (\<lambda>i. p (Suc i)) (\<lambda>i. q (Suc i)) n
      else uint (p 0) - uint (q 0))"

text \<open>
  \<^verbatim>\<open>strncpy\<close> and \<^verbatim>\<open>safestrcpy\<close> with the destination array \<open>s\<close> written from index \<open>i\<close> on; source and
  destination do not overlap (C leaves that case undefined).
\<close>

primrec pad_zero :: "block \<Rightarrow> nat \<Rightarrow> nat \<Rightarrow> block" where
  "pad_zero s i 0 = s"
| "pad_zero s i (Suc n) = pad_zero (s(i := 0)) (i + 1) n"

primrec strncpy_loop :: "block \<Rightarrow> block \<Rightarrow> nat \<Rightarrow> nat \<Rightarrow> block" where
  "strncpy_loop s t i 0 = s"
| "strncpy_loop s t i (Suc n) =
     (if t i \<noteq> 0 then strncpy_loop (s(i := t i)) t (i + 1) n
      else pad_zero (s(i := t i)) (i + 1) n)"

definition strncpy :: "block \<Rightarrow> block \<Rightarrow> int \<Rightarrow> block" where
  "strncpy s t n = strncpy_loop s t 0 (nat n)"

text \<open>\<open>n\<close> is the number of further passes of \<^verbatim>\<open>--n > 0\<close>; the last write ends the string.\<close>

primrec safestrcpy_loop :: "block \<Rightarrow> block \<Rightarrow> nat \<Rightarrow> nat \<Rightarrow> block" where
  "safestrcpy_loop s t i 0 = s(i := 0)"
| "safestrcpy_loop s t i (Suc n) =
     (if t i \<noteq> 0 then safestrcpy_loop (s(i := t i)) t (i + 1) n
      else (s(i := t i))(i + 1 := 0))"

definition safestrcpy :: "block \<Rightarrow> block \<Rightarrow> int \<Rightarrow> block" where
  "safestrcpy s t n = (if n \<le> 0 then s else safestrcpy_loop s t 0 (nat n - 1))"

section \<open>strlen and the other functions of ulib.c\<close>

partial_function (option) strlen_from :: "block \<Rightarrow> nat \<Rightarrow> nat option" where
  "strlen_from s n = (if s n = 0 then Some n else strlen_from s (n + 1))"

definition strlen :: "block \<Rightarrow> nat option" where
  "strlen s = strlen_from s 0"

partial_function (option) strcmp :: "block \<Rightarrow> block \<Rightarrow> int option" where
  "strcmp p q =
     (if p 0 \<noteq> 0 \<and> p 0 = q 0 then strcmp (\<lambda>i. p (Suc i)) (\<lambda>i. q (Suc i))
      else Some (uint (p 0) - uint (q 0)))"

text \<open>The offset of the match, or \<open>None\<close> inside for a NULL result.\<close>

partial_function (option) strchr_from :: "block \<Rightarrow> byte \<Rightarrow> nat \<Rightarrow> nat option option" where
  "strchr_from s c n =
     (if s n = 0 then Some None else if s n = c then Some (Some n) else strchr_from s c (n + 1))"

definition strchr :: "block \<Rightarrow> byte \<Rightarrow> nat option option" where
  "strchr s c = strchr_from s c 0"

partial_function (option) strcpy_loop :: "block \<Rightarrow> block \<Rightarrow> nat \<Rightarrow> block option" where
  "strcpy_loop s t i =
     (if t i \<noteq> 0 then strcpy_loop (s(i := t i)) t (i + 1) else Some (s(i := t i)))"

definition strcpy :: "block \<Rightarrow> block \<Rightarrow> block option" where
  "strcpy s t = strcpy_loop s t 0"

text \<open>
  \<^verbatim>\<open>atoi\<close> accumulates in an \<^verbatim>\<open>int\<close>; the comparisons are those of signed \<^verbatim>\<open>char\<close>s. The sum
  \<^verbatim>\<open>n*10 + *s\<close> is formed before \<^verbatim>\<open>'0'\<close> is taken off, and C leaves it undefined when it
  exceeds \<^verbatim>\<open>INT_MAX\<close>.
\<close>

partial_function (option) atoi_loop :: "block \<Rightarrow> int \<Rightarrow> int res option" where
  "atoi_loop s n =
     (if 48 \<le> sint (s 0) \<and> sint (s 0) \<le> 57
      then if 2147483647 < n * 10 + sint (s 0) then Some (Undef ''int overflow'')
           else atoi_loop (\<lambda>i. s (Suc i)) (n * 10 + sint (s 0) - 48)
      else Some (Ok n))"

definition atoi :: "block \<Rightarrow> int res option" where
  "atoi s = atoi_loop s 0"

text \<open>
  \<^verbatim>\<open>gets\<close> over a \<^verbatim>\<open>read(0, &c, 1)\<close> given as a function of the input state: the byte read, or
  \<open>None\<close> when it returned less than 1. \<open>fuel\<close> is \<open>max - 1 - i\<close>, the room left.
\<close>

primrec gets_loop :: "('s \<Rightarrow> byte option \<times> 's) \<Rightarrow> block \<Rightarrow> nat \<Rightarrow> nat \<Rightarrow> 's \<Rightarrow> block \<times> nat \<times> 's" where
  "gets_loop rd buf i 0 s = (buf, i, s)"
| "gets_loop rd buf i (Suc fuel) s =
     (case rd s of
        (None, s) \<Rightarrow> (buf, i, s)
      | (Some c, s) \<Rightarrow>
          let buf = buf(i := c) in
          if c = 10 \<or> c = 13 then (buf, i + 1, s) else gets_loop rd buf (i + 1) fuel s)"

definition gets :: "('s \<Rightarrow> byte option \<times> 's) \<Rightarrow> block \<Rightarrow> int \<Rightarrow> 's \<Rightarrow> block \<times> 's" where
  "gets rd buf maxn s = (case gets_loop rd buf 0 (nat (maxn - 1)) s of (buf, i, s) \<Rightarrow> (buf(i := 0), s))"

section \<open>What the memory functions do\<close>

lemma stosb_eq: "stosb m addr d n = (\<lambda>i. if addr \<le> i \<and> i < addr + n then d else m i)"
  by (induction n arbitrary: m addr) (auto simp: fun_eq_iff)

lemma rep_byte_bits:
  fixes c :: uint
  assumes "n < 8"
  shows "bit (push_bit 24 (c AND 0xFF) OR push_bit 16 (c AND 0xFF) OR push_bit 8 (c AND 0xFF) OR (c AND 0xFF)) n = bit c n"
    "bit (push_bit 24 (c AND 0xFF) OR push_bit 16 (c AND 0xFF) OR push_bit 8 (c AND 0xFF) OR (c AND 0xFF)) (8 + n) = bit c n"
    "bit (push_bit 24 (c AND 0xFF) OR push_bit 16 (c AND 0xFF) OR push_bit 8 (c AND 0xFF) OR (c AND 0xFF)) (16 + n) = bit c n"
    "bit (push_bit 24 (c AND 0xFF) OR push_bit 16 (c AND 0xFF) OR push_bit 8 (c AND 0xFF) OR (c AND 0xFF)) (24 + n) = bit c n"
proof -
  have m: "(0xFF :: uint) = mask 8" by (simp add: mask_eq_exp_minus_1)
  show "bit (push_bit 24 (c AND 0xFF) OR push_bit 16 (c AND 0xFF) OR push_bit 8 (c AND 0xFF) OR (c AND 0xFF)) n = bit c n"
    "bit (push_bit 24 (c AND 0xFF) OR push_bit 16 (c AND 0xFF) OR push_bit 8 (c AND 0xFF) OR (c AND 0xFF)) (8 + n) = bit c n"
    "bit (push_bit 24 (c AND 0xFF) OR push_bit 16 (c AND 0xFF) OR push_bit 8 (c AND 0xFF) OR (c AND 0xFF)) (16 + n) = bit c n"
    "bit (push_bit 24 (c AND 0xFF) OR push_bit 16 (c AND 0xFF) OR push_bit 8 (c AND 0xFF) OR (c AND 0xFF)) (24 + n) = bit c n"
    using assms unfolding m by (simp_all add: bit_simps)
qed

lemma byte_of_shifted:
  fixes w c :: uint
  assumes "\<And>n. n < 8 \<Longrightarrow> bit w (k + n) = bit c n"
  shows "of_nat (unat w div 2 ^ k) = (ucast c :: byte)"
proof -
  have "unat w div 2 ^ k = unat (drop_bit k w)"
    unfolding unat_drop_bit_eq by (simp add: drop_bit_eq_div)
  then have "of_nat (unat w div 2 ^ k) = (ucast (drop_bit k w) :: byte)" by simp
  also have "\<dots> = ucast c"
    by (rule bit_word_eqI) (use assms in \<open>simp add: bit_ucast_iff bit_drop_bit_eq\<close>)
  finally show ?thesis .
qed

lemma rep_byte:
  fixes c :: uint
  defines "w \<equiv> push_bit 24 (c AND 0xFF) OR push_bit 16 (c AND 0xFF) OR push_bit 8 (c AND 0xFF) OR (c AND 0xFF)"
  shows "of_nat (unat w) = (ucast c :: byte)" "of_nat (unat w div 256) = (ucast c :: byte)"
    "of_nat (unat w div 65536) = (ucast c :: byte)" "of_nat (unat w div 16777216) = (ucast c :: byte)"
  using byte_of_shifted [of w 0 c] byte_of_shifted [of w 8 c] byte_of_shifted [of w 16 c]
    byte_of_shifted [of w 24 c] rep_byte_bits [of _ c, folded w_def] by simp_all

lemma stosl_eq:
  assumes "of_nat (unat w) = d" "of_nat (unat w div 256) = d"
    "of_nat (unat w div 65536) = d" "of_nat (unat w div 16777216) = d"
  shows "stosl m addr w n = (\<lambda>i. if addr \<le> i \<and> i < addr + 4 * n then d else m i)"
proof (induction n arbitrary: m addr)
  case 0
  then show ?case by (auto simp: fun_eq_iff)
next
  case (Suc n)
  have "put32 m addr (unat w) = m(addr := d, addr + 1 := d, addr + 2 := d, addr + 3 := d)"
  proof -
    have "unat w div 65536 div 256 = unat w div 16777216" by (simp flip: div_mult2_eq)
    then show ?thesis using assms by (simp add: put32_def put16_def add.assoc numeral_3_eq_3)
  qed
  moreover have "(addr \<le> i \<and> i < addr + 4 * Suc n) \<longleftrightarrow>
      (addr + 4 \<le> i \<and> i < addr + 4 + 4 * n \<or> i = addr \<or> i = addr + 1 \<or> i = addr + 2 \<or> i = addr + 3)" for i
    by presburger
  ultimately show ?case unfolding stosl.simps Suc by (intro ext) (simp del: One_nat_def)
qed

lemma memset_eq:
  "memset m dst c n = (\<lambda>i. if dst \<le> i \<and> i < dst + n then ucast c else m i)"
proof (cases "dst mod 4 = 0 \<and> n mod 4 = 0")
  case True
  then have "4 * (n div 4) = n" by auto
  then show ?thesis
    using True stosl_eq [OF rep_byte [of c], of m dst "n div 4"] by (simp add: memset_def Let_def)
next
  case False
  then show ?thesis by (simp only: memset_def stosb_eq if_False)
qed

lemma move_down_eq:
  assumes "s < d" "n \<le> s"
  shows "move_down m d s n = (\<lambda>i. if d - n \<le> i \<and> i < d then m (s - (d - i)) else m i)"
  using assms
proof (induction n arbitrary: m d s)
  case 0
  then show ?case by (auto simp: fun_eq_iff)
next
  case (Suc n)
  have "move_down m d s (Suc n) =
    (\<lambda>i. if d - 1 - n \<le> i \<and> i < d - 1 then (m(d - 1 := m (s - 1))) (s - 1 - (d - 1 - i))
         else (m(d - 1 := m (s - 1))) i)"
  proof -
    have "s - 1 < d - 1" "n \<le> s - 1" using Suc.prems by auto
    from Suc.IH [OF this] show ?thesis by (simp only: move_down.simps)
  qed
  also have "\<dots> = (\<lambda>i. if d - Suc n \<le> i \<and> i < d then m (s - (d - i)) else m i)"
  proof
    fix i
    show "(if d - 1 - n \<le> i \<and> i < d - 1 then (m(d - 1 := m (s - 1))) (s - 1 - (d - 1 - i))
         else (m(d - 1 := m (s - 1))) i) = (if d - Suc n \<le> i \<and> i < d then m (s - (d - i)) else m i)"
    proof (cases "i = d - 1")
      case False
      have "s - 1 - (d - 1 - i) \<noteq> d - 1" using Suc.prems by linarith
      moreover have "s - 1 - (d - 1 - i) = s - (d - i)" if "i < d - 1"
        using that Suc.prems by linarith
      ultimately show ?thesis using False Suc.prems by auto
    qed (use Suc.prems in auto)
  qed
  finally show ?case .
qed

lemma move_up_eq:
  assumes "d \<le> s \<or> s + n \<le> d"
  shows "move_up m d s n = (\<lambda>i. if d \<le> i \<and> i < d + n then m (s + (i - d)) else m i)"
  using assms
proof (induction n arbitrary: m d s)
  case 0
  then show ?case by (auto simp: fun_eq_iff)
next
  case (Suc n)
  have "move_up m d s (Suc n) =
    (\<lambda>i. if d + 1 \<le> i \<and> i < d + 1 + n then (m(d := m s)) (s + 1 + (i - (d + 1))) else (m(d := m s)) i)"
  proof -
    have "d + 1 \<le> s + 1 \<or> s + 1 + n \<le> d + 1" using Suc.prems by auto
    from Suc.IH [OF this] show ?thesis by (simp only: move_up.simps)
  qed
  also have "\<dots> = (\<lambda>i. if d \<le> i \<and> i < d + Suc n then m (s + (i - d)) else m i)"
  proof
    fix i
    have "s + 1 + (i - (d + 1)) \<noteq> d" if "d + 1 \<le> i" "i < d + 1 + n"
      using Suc.prems that by linarith
    moreover have "s + 1 + (i - (d + 1)) = s + (i - d)" if "d + 1 \<le> i"
      using that by linarith
    ultimately show "(if d + 1 \<le> i \<and> i < d + 1 + n then (m(d := m s)) (s + 1 + (i - (d + 1))) else (m(d := m s)) i) =
      (if d \<le> i \<and> i < d + Suc n then m (s + (i - d)) else m i)"
      by (cases "i = d") auto
  qed
  finally show ?case .
qed

text \<open>
  \<^bold>\<open>C33\<close>. The kernel's memory primitives are right for any operands: \<^verbatim>\<open>memmove\<close> leaves in the
  destination the bytes the source held before the call, overlapping or not, and changes
  nothing else; \<^verbatim>\<open>memset\<close> sets exactly \<open>n\<close> bytes to the low byte of its argument, whether it
  stores words (aligned operands) or bytes.
\<close>

theorem memmove_memset_correct:
  "memmove m dst src n = (\<lambda>i. if dst \<le> i \<and> i < dst + n then m (src + (i - dst)) else m i) \<and>
   memset m dst c n = (\<lambda>i. if dst \<le> i \<and> i < dst + n then ucast c else m i)"
proof -
  have "move_down m (dst + n) (src + n) n = (\<lambda>i. if dst \<le> i \<and> i < dst + n then m (src + (i - dst)) else m i)"
    if "src < dst"
    using move_down_eq [of "src + n" "dst + n" n m] that by (auto simp: fun_eq_iff)
  moreover have "move_up m dst src n = (\<lambda>i. if dst \<le> i \<and> i < dst + n then m (src + (i - dst)) else m i)"
    if "\<not> (src < dst \<and> dst < src + n)"
    using move_up_eq [of dst src n m] that by (simp add: not_less)
  ultimately show ?thesis by (auto simp: memmove_def memset_eq)
qed

section \<open>C strings\<close>

text \<open>The string held by the first \<open>n\<close> bytes of an array: the bytes before the first NUL.\<close>

definition cstrn :: "nat \<Rightarrow> block \<Rightarrow> byte list" where
  "cstrn n p = takeWhile (\<lambda>c. c \<noteq> 0) (map p [0..<n])"

lemma cstrn_0 [simp]: "cstrn 0 p = []"
  by (simp add: cstrn_def)

lemma cstrn_Suc: "cstrn (Suc n) p = (if p 0 = 0 then [] else p 0 # cstrn n (\<lambda>i. p (Suc i)))"
proof -
  have "map p [0..<Suc n] = p 0 # map (\<lambda>i. p (Suc i)) [0..<n]"
    by (simp add: map_upt_Suc del: upt_Suc)
  then show ?thesis by (simp add: cstrn_def)
qed

lemma cstrn_cong: "(\<And>i. i < n \<Longrightarrow> p i = q i) \<Longrightarrow> cstrn n p = cstrn n q"
  unfolding cstrn_def by (rule arg_cong [of _ _ "takeWhile _"]) simp

lemma cstrn_length: "length (cstrn n p) \<le> n"
  unfolding cstrn_def using length_takeWhile_le [of "\<lambda>c. c \<noteq> 0" "map p [0..<n]"] by simp

lemma cstrn_nth: "i < length (cstrn n p) \<Longrightarrow> cstrn n p ! i = p i \<and> p i \<noteq> 0"
proof -
  assume i: "i < length (cstrn n p)"
  then have n: "i < n" using cstrn_length [of n p] by simp
  have e: "cstrn n p ! i = p i" using i n by (simp add: cstrn_def takeWhile_nth)
  have "cstrn n p ! i \<noteq> 0" using nth_mem [OF i] unfolding cstrn_def by (auto dest: set_takeWhileD)
  with e show ?thesis by simp
qed

lemma cstrn_end: "length (cstrn n p) < n \<Longrightarrow> p (length (cstrn n p)) = 0"
  unfolding cstrn_def using nth_length_takeWhile [of "\<lambda>c. c \<noteq> 0" "map p [0..<n]"] by simp

lemma cstrn_cstr: "0 \<notin> set l \<Longrightarrow> length l \<le> n \<Longrightarrow> cstrn n (cstr l) = l"
proof (induction l arbitrary: n)
  case Nil
  then show ?case by (cases n) (simp_all add: cstrn_Suc cstr_def)
next
  case (Cons c l)
  then obtain k where k: "n = Suc k" by (cases n) auto
  have "(\<lambda>i. cstr (c # l) (Suc i)) = cstr l" by (auto simp: cstr_def)
  moreover have "cstr (c # l) 0 = c" by simp
  ultimately show ?case using Cons k by (simp add: cstrn_Suc)
qed

lemma strncmp_0: "strncmp p q n = 0 \<longleftrightarrow> cstrn n p = cstrn n q"
proof (induction n arbitrary: p q)
  case (Suc n)
  show ?case
  proof (cases "p 0 \<noteq> 0 \<and> p 0 = q 0")
    case True
    with Suc [of "\<lambda>i. p (Suc i)" "\<lambda>i. q (Suc i)"] show ?thesis by (simp add: cstrn_Suc)
  next
    case False
    then have "strncmp p q (Suc n) = uint (p 0) - uint (q 0)" by auto
    then have c: "strncmp p q (Suc n) = 0 \<longleftrightarrow> p 0 = q 0"
      by (simp add: word_uint_eq_iff)
    show ?thesis
      using False unfolding c cstrn_Suc by (cases "p 0 = 0"; cases "q 0 = 0") simp_all
  qed
qed simp

lemma strncmp_swap: "strncmp q p n = - strncmp p q n"
proof (induction n arbitrary: p q)
  case (Suc n)
  show ?case
  proof (cases "p 0 \<noteq> 0 \<and> p 0 = q 0")
    case True
    with Suc [of "\<lambda>i. q (Suc i)" "\<lambda>i. p (Suc i)"] show ?thesis by simp
  next
    case False
    then have "strncmp p q (Suc n) = uint (p 0) - uint (q 0)"
      "strncmp q p (Suc n) = uint (q 0) - uint (p 0)" by auto
    then show ?thesis by simp
  qed
qed simp

lemma strncmp_less: "strncmp p q n < 0 \<longleftrightarrow> (cstrn n p, cstrn n q) \<in> lexord {(u, v). u < v}"
proof (induction n arbitrary: p q)
  case 0
  then show ?case by simp
next
  case (Suc n)
  show ?case
  proof (cases "p 0 \<noteq> 0 \<and> p 0 = q 0")
    case True
    with Suc [of "\<lambda>i. p (Suc i)" "\<lambda>i. q (Suc i)"] show ?thesis by (simp add: cstrn_Suc)
  next
    case False
    then have "strncmp p q (Suc n) = uint (p 0) - uint (q 0)" by auto
    then have c: "strncmp p q (Suc n) < 0 \<longleftrightarrow> p 0 < q 0"
      by (simp add: word_less_def)
    show ?thesis
    proof (cases "p 0 = 0")
      case True
      with c show ?thesis by (simp add: cstrn_Suc word_gt_0)
    next
      case p: False
      show ?thesis
      proof (cases "q 0 = 0")
        case True
        with p c show ?thesis by (simp add: cstrn_Suc)
      next
        case q: False
        with p c False show ?thesis by (simp add: cstrn_Suc)
      qed
    qed
  qed
qed

text \<open>
  \<^bold>\<open>C34\<close>. \<^verbatim>\<open>strncmp\<close> compares the strings in the first \<open>n\<close> bytes of its arguments: it is zero
  exactly when they are equal, negative exactly when the first precedes the second in the
  lexicographic order of unsigned bytes, and its sign changes when the arguments are swapped.
\<close>

theorem strncmp_compares:
  "(strncmp p q n = 0 \<longleftrightarrow> cstrn n p = cstrn n q) \<and>
   (strncmp p q n < 0 \<longleftrightarrow> (cstrn n p, cstrn n q) \<in> lexord {(u, v). u < v}) \<and>
   strncmp q p n = - strncmp p q n"
  using strncmp_0 strncmp_less strncmp_swap by blast

lemma pad_zero_eq: "pad_zero s i n = (\<lambda>j. if i \<le> j \<and> j < i + n then 0 else s j)"
  by (induction n arbitrary: s i) (auto simp: fun_eq_iff)

lemma strncpy_loop_eq:
  "strncpy_loop s t i n =
    (\<lambda>j. if i \<le> j \<and> j < i + n then if j < i + length (cstrn n (\<lambda>k. t (k + i))) then t j else 0 else s j)"
proof (induction n arbitrary: s i)
  case 0
  then show ?case by (auto simp: fun_eq_iff)
next
  case (Suc n)
  have shift: "(\<lambda>k. t (Suc k + i)) = (\<lambda>k. t (k + (i + 1)))" by simp
  have range: "(i \<le> j \<and> j < i + Suc n) = (j = i \<or> i + 1 \<le> j \<and> j < i + 1 + n)" for j by auto
  show ?case
  proof (cases "t i = 0")
    case True
    then show ?thesis unfolding range by (simp add: fun_eq_iff cstrn_Suc pad_zero_eq)
  next
    case False
    define l where "l = length (cstrn n (\<lambda>k. t (k + (i + 1))))"
    have "length (cstrn (Suc n) (\<lambda>k. t (k + i))) = Suc l"
      using False shift by (simp add: cstrn_Suc l_def)
    then show ?thesis using False unfolding strncpy_loop.simps Suc range l_def [symmetric]
      by (simp add: fun_eq_iff)
  qed
qed

lemma strncpy_eq:
  "strncpy s t (int n) = (\<lambda>j. if j < n then if j < length (cstrn n t) then t j else 0 else s j)"
  using strncpy_loop_eq [of s t 0 n] by (simp add: strncpy_def fun_eq_iff)

lemma cstrn_strncpy [simp]: "cstrn n (strncpy s t (int n)) = cstrn n t"
proof -
  have "cstrn n t = cstrn n (\<lambda>j. if j < length (cstrn n t) then t j else 0)"
  proof (induction n arbitrary: t)
    case (Suc n)
    show ?case using Suc [of "\<lambda>i. t (Suc i)"] by (simp add: cstrn_Suc)
  qed simp
  also have "\<dots> = cstrn n (strncpy s t (int n))"
    by (rule cstrn_cong) (simp add: strncpy_eq)
  finally show ?thesis by simp
qed

lemma safestrcpy_loop_eq:
  "safestrcpy_loop s t i n j =
    (if i \<le> j \<and> j < i + length (cstrn n (\<lambda>k. t (k + i))) then t j
     else if j = i + length (cstrn n (\<lambda>k. t (k + i))) \<or>
       length (cstrn n (\<lambda>k. t (k + i))) < n \<and> j = i + length (cstrn n (\<lambda>k. t (k + i))) + 1 then 0
     else s j)"
proof (induction n arbitrary: s i)
  case 0
  then show ?case by auto
next
  case (Suc n)
  have shift: "(\<lambda>k. t (Suc k + i)) = (\<lambda>k. t (k + (i + 1)))" by simp
  show ?case
  proof (cases "t i = 0")
    case True
    then show ?thesis by (auto simp: cstrn_Suc)
  next
    case False
    define l where "l = length (cstrn n (\<lambda>k. t (k + (i + 1))))"
    have "length (cstrn (Suc n) (\<lambda>k. t (k + i))) = Suc l"
      using False shift by (simp add: cstrn_Suc l_def)
    then show ?thesis
      using False Suc [of "s(i := t i)" "i + 1"] unfolding l_def [symmetric] by (auto simp: fun_upd_def)
  qed
qed

lemma cstrn_eqI:
  assumes "length l \<le> n" "\<And>i. i < length l \<Longrightarrow> p i = l ! i \<and> l ! i \<noteq> 0" "length l < n \<Longrightarrow> p (length l) = 0"
  shows "cstrn n p = l"
  using assms
proof (induction l arbitrary: n p)
  case Nil
  then show ?case by (cases n) (simp_all add: cstrn_Suc)
next
  case (Cons c l)
  then obtain k where k: "n = Suc k" by (cases n) auto
  have "cstrn k (\<lambda>i. p (Suc i)) = l"
    using Cons.prems k by (intro Cons.IH) force+
  with Cons.prems(2) [of 0] show ?case by (simp add: k cstrn_Suc)
qed

text \<open>
  \<^bold>\<open>C35\<close>. The bounded copies: \<^verbatim>\<open>strncpy\<close> makes the first \<open>n\<close> bytes hold the source string, zero-padded,
  and writes nothing beyond them; \<^verbatim>\<open>safestrcpy\<close> with a positive bound leaves a NUL-terminated
  string, the source cut to \<open>n - 1\<close> bytes, and writes nothing beyond \<open>n\<close> bytes.
\<close>

theorem bounded_copies:
  "cstrn n (strncpy s t (int n)) = cstrn n t \<and>
   (\<forall>i. strncpy s t (int n) i = (if n \<le> i then s i else if i < length (cstrn n t) then t i else 0)) \<and>
   cstrn (Suc n) (safestrcpy s t (int (Suc n))) = cstrn n t \<and>
   safestrcpy s t (int (Suc n)) (length (cstrn n t)) = 0 \<and>
   (\<forall>i. safestrcpy s t (int (Suc n)) (n + 1 + i) = s (n + 1 + i))"
proof (intro conjI allI impI)
  have l: "length (cstrn n t) \<le> n" by (rule cstrn_length)
  have e: "safestrcpy s t (int (Suc n)) j =
      (if j < length (cstrn n t) then t j
       else if j = length (cstrn n t) \<or> length (cstrn n t) < n \<and> j = length (cstrn n t) + 1 then 0 else s j)" for j
  proof -
    have "nat (int (Suc n)) - 1 = n" by (simp only: nat_int diff_Suc_1)
    then have "safestrcpy s t (int (Suc n)) j = safestrcpy_loop s t 0 n j" by (simp add: safestrcpy_def)
    then show ?thesis using safestrcpy_loop_eq [of s t 0 n j] by (simp only: add_0_left add_0_right le0 simp_thms)
  qed
  show "cstrn (Suc n) (safestrcpy s t (int (Suc n))) = cstrn n t"
    by (rule cstrn_eqI) (use l cstrn_nth [of _ n t] in \<open>auto simp: e simp del: of_nat_Suc\<close>)
  show "safestrcpy s t (int (Suc n)) (length (cstrn n t)) = 0" by (simp add: e del: of_nat_Suc)
  show "safestrcpy s t (int (Suc n)) (n + 1 + i) = s (n + 1 + i)" for i
    using l by (auto simp: e simp del: of_nat_Suc)
  show "strncpy s t (int n) i = (if n \<le> i then s i else if i < length (cstrn n t) then t i else 0)" for i
    by (simp add: strncpy_eq)
qed (rule cstrn_strncpy)

section \<open>Termination on terminated strings\<close>

lemma strlen_from_eq: "0 \<notin> set (drop n l) \<Longrightarrow> n \<le> length l \<Longrightarrow> strlen_from (cstr l) n = Some (length l)"
proof (induction "length l - n" arbitrary: n)
  case 0
  then show ?case by (simp add: strlen_from.simps)
next
  case (Suc k)
  then have n: "n < length l" by simp
  have d: "drop n l = l ! n # drop (Suc n) l" using n by (simp add: Cons_nth_drop_Suc)
  with Suc.prems n have "cstr l n \<noteq> 0" "0 \<notin> set (drop (Suc n) l)" by auto
  moreover have "strlen_from (cstr l) (Suc n) = Some (length l)"
    using Suc.hyps Suc.prems n calculation by (intro Suc.hyps(1)) auto
  ultimately show ?case by (simp add: strlen_from.simps [of _ n])
qed

lemma strlen_cstr: "0 \<notin> set l \<Longrightarrow> strlen (cstr l) = Some (length l)"
  using strlen_from_eq [of 0 l] by (simp add: strlen_def)

lemma cstr_Cons_shift: "(\<lambda>i. cstr (c # l) (Suc i)) = cstr l"
  by (auto simp: cstr_def)

lemma strcmp_cstr: "0 \<notin> set l \<Longrightarrow> 0 \<notin> set k \<Longrightarrow> \<exists>r. strcmp (cstr l) (cstr k) = Some r \<and> (r = 0 \<longleftrightarrow> l = k)"
proof (induction l arbitrary: k)
  case Nil
  have "strcmp (cstr []) q = Some (- uint (q 0))" for q
    by (simp add: strcmp.simps [of "cstr []"])
  moreover have "cstr k 0 = 0 \<longleftrightarrow> [] = k" using Nil.prems by (cases k) auto
  ultimately show ?case
    by (intro exI [of _ "- uint (cstr k 0)"]) (simp add: word_uint_eq_iff del: cstr_end)
next
  case (Cons c l)
  show ?case
  proof (cases k)
    case Nil
    have "cstr (c # l) 0 = c" "cstr [] 0 = 0" by simp_all
    then have "strcmp (cstr (c # l)) (cstr []) = Some (uint c)"
      using Cons.prems by (simp add: strcmp.simps [of "cstr (c # l)"] del: cstr_end)
    with Nil Cons.prems show ?thesis
      by (intro exI [of _ "uint c"]) (auto simp: word_uint_eq_iff simp del: cstr_end)
  next
    case k: (Cons d k')
    have h: "cstr (c # l) 0 = c" "cstr (d # k') 0 = d" by simp_all
    show ?thesis
      using Cons.IH [of k'] Cons.prems k
      by (cases "c = d") (auto simp: strcmp.simps [of "cstr (c # l)"] h cstr_Cons_shift word_uint_eq_iff)
  qed
qed

section \<open>atoi\<close>

definition digit :: "nat \<Rightarrow> byte" where
  "digit d = of_nat (48 + d)"

definition dec_value :: "nat list \<Rightarrow> nat" where
  "dec_value ds = foldl (\<lambda>v d. 10 * v + d) 0 ds"

lemma digit_cases: "(d :: nat) \<le> 9 \<Longrightarrow> d \<in> {0, 1, 2, 3, 4, 5, 6, 7, 8, 9}"
  by auto

lemma sint_digit: "d \<le> 9 \<Longrightarrow> sint (digit d) = 48 + int d"
  by (drule digit_cases) (auto simp: digit_def)

definition no_digit :: "byte list \<Rightarrow> bool" where
  "no_digit rest \<longleftrightarrow> (case rest of [] \<Rightarrow> True | c # _ \<Rightarrow> sint c < 48 \<or> 57 < sint c)"

lemma foldl_dec_ge: "(n :: nat) \<le> foldl (\<lambda>v d. 10 * v + d) n ds"
proof (induction ds arbitrary: n)
  case (Cons d ds)
  show ?case using Cons [of "10 * n + d"] by simp
qed simp

lemma atoi_loop_digits:
  assumes "\<forall>d \<in> set ds. d \<le> 9" "no_digit rest" "n \<le> 2147483599"
  shows "atoi_loop (cstr (map digit ds @ rest)) (int n) =
    Some (if foldl (\<lambda>v d. 10 * v + d) n ds \<le> 2147483599
          then Ok (int (foldl (\<lambda>v d. 10 * v + d) n ds)) else Undef ''int overflow'')"
  using assms(1,3)
proof (induction ds arbitrary: n)
  case Nil
  have "\<not> (48 \<le> sint (cstr rest 0) \<and> sint (cstr rest 0) \<le> 57)"
    using assms(2) by (cases rest) (auto simp: no_digit_def)
  then show ?case using Nil by (subst atoi_loop.simps) auto
next
  case (Cons d ds)
  then have d: "d \<le> 9" by simp
  have c: "cstr (digit d # map digit ds @ rest) 0 = digit d" by simp
  show ?case
  proof (cases "10 * n + d \<le> 2147483599")
    case True
    have "int n * 10 + sint (digit d) - 48 = int (10 * n + d)" "\<not> 2147483647 < int n * 10 + sint (digit d)"
      using True sint_digit [OF d] by simp_all
    then show ?thesis using Cons.IH [of "10 * n + d"] Cons.prems(1) True sint_digit [OF d] d c
      by (subst atoi_loop.simps) (simp add: cstr_Cons_shift mult.commute)
  next
    case False
    then have "2147483647 < int n * 10 + sint (digit d)" using sint_digit [OF d] by simp
    moreover have "\<not> foldl (\<lambda>v d. 10 * v + d) (10 * n + d) ds \<le> 2147483599"
      using False foldl_dec_ge [of "10 * n + d" ds] by linarith
    ultimately show ?thesis using sint_digit [OF d] d c by (subst atoi_loop.simps) simp
  qed
qed

lemma atoi_digits:
  assumes "\<forall>d \<in> set ds. d \<le> 9" "no_digit rest"
  shows "atoi (cstr (map digit ds @ rest)) =
    Some (if dec_value ds \<le> 2147483599 then Ok (int (dec_value ds)) else Undef ''int overflow'')"
  using atoi_loop_digits [OF assms, of 0] by (simp add: atoi_def dec_value_def)

text \<open>
  \<^bold>\<open>C38\<close>. \<^verbatim>\<open>atoi\<close> on any string of decimal digits followed by a byte that is no digit (or by the
  end of the string) comes to an end, however many digits there are. Up to 2147483599 it
  returns the number the digits denote; from 2147483600 on, which includes the last 48
  values of \<^verbatim>\<open>int\<close>, the sum \<^verbatim>\<open>n*10 + *s\<close> exceeds \<^verbatim>\<open>INT_MAX\<close> and C leaves the result undefined.
\<close>

theorem atoi_decimal:
  assumes "\<forall>d \<in> set ds. d \<le> 9" "no_digit rest"
  shows "atoi (cstr (map digit ds @ rest)) =
    Some (if dec_value ds \<le> 2147483599 then Ok (int (dec_value ds)) else Undef ''int overflow'')"
  by (rule atoi_digits [OF assms])

theorem atoi_decimal_witness:
  "atoi (cstr [52, 50, 32]) = Some (Ok 42) \<and>
   atoi (cstr [50, 49, 52, 55, 52, 56, 51, 54, 52, 55]) = Some (Undef ''int overflow'')"
proof -
  have "map digit [4, 2] @ [32] = [52, 50, 32]"
    "map digit [2, 1, 4, 7, 4, 8, 3, 6, 4, 7] @ [] = [50, 49, 52, 55, 52, 56, 51, 54, 52, 55]"
    by (simp_all add: digit_def)
  moreover have "no_digit [32]" "no_digit []" by (simp_all add: no_digit_def)
  ultimately show ?thesis
    using atoi_decimal [of "[4, 2]" "[32]"] atoi_decimal [of "[2, 1, 4, 7, 4, 8, 3, 6, 4, 7]" "[]"]
    by (simp add: dec_value_def)
qed

end
