(* ===== verification/Cprintf.thy ===== *)
theory Cprintf
  imports Gc Strings
begin

text \<open>
  The output side of console.c: the CGA screen and the serial line below \<^verbatim>\<open>consputc\<close>, and
  \<^verbatim>\<open>printint\<close> and \<^verbatim>\<open>cprintf\<close> above it. The state has the screen memory, the cursor register of
  the CRT controller, and the bytes sent to the UART if there is one. The spinlock around
  \<^verbatim>\<open>cprintf\<close> and the loop that waits for the UART to be ready are not modelled.
\<close>

section \<open>The screen and the serial line\<close>

record con_state = gc_state +
  crt :: "nat \<Rightarrow> 16 word"
  cursor :: nat
  uart :: bool
  uart_out :: "byte list"

abbreviation (input) BACKSPACE :: nat where "BACKSPACE \<equiv> 256"

definition cgaputc :: "nat \<Rightarrow> 'z con_state_scheme \<Rightarrow> 'z con_state_scheme res" where
  "cgaputc c s =
     (let pos = cursor s;
          (mem, pos) =
            (if c = 10 then (crt s, pos + (80 - pos mod 80))
             else if c = BACKSPACE then (crt s, if 0 < pos then pos - 1 else pos)
             else ((crt s)(pos := of_nat (c mod 256) OR 0x0700), pos + 1)) in
      if 25 * 80 < pos then Panic ''pos under/overflow''
      else
        let (mem, pos) =
          (if 24 \<le> pos div 80 then
             let mem = (\<lambda>i. if i < 23 * 80 then mem (i + 80) else mem i); pos = pos - 80 in
             (\<lambda>i. if pos \<le> i \<and> i < pos + (24 * 80 - pos) then 0 else mem i, pos)
           else (mem, pos)) in
        Ok (s\<lparr>cursor := pos, crt := mem(pos := 32 OR 0x0700)\<rparr>))"

definition uartputc :: "nat \<Rightarrow> 'z con_state_scheme \<Rightarrow> 'z con_state_scheme" where
  "uartputc c s = (if \<not> uart s then s else s\<lparr>uart_out := uart_out s @ [of_nat c]\<rparr>)"

text \<open>
  \<^verbatim>\<open>panicked\<close> is set by \<^verbatim>\<open>panic\<close> alone, which ends a run of the model with \<open>Panic\<close>; so the test
  for it, which stops the other processors, has no counterpart.
\<close>

definition consputc :: "nat \<Rightarrow> 'z con_state_scheme \<Rightarrow> 'z con_state_scheme res" where
  "consputc c s =
     (let s = (if c = BACKSPACE then uartputc 8 (uartputc 32 (uartputc 8 s)) else uartputc c s) in
      cgaputc c s)"

primrec consputs :: "byte list \<Rightarrow> 'z con_state_scheme \<Rightarrow> 'z con_state_scheme res" where
  "consputs [] s = Ok s"
| "consputs (c # cs) s = rbind (consputc (unat c) s) (consputs cs)"

section \<open>printint and cprintf\<close>

text \<open>
  The digits in the order the loop stores them into \<^verbatim>\<open>buf\<close>, least significant first. Every
  call has base 10 or 16.
\<close>

function digits_rev :: "byte list \<Rightarrow> nat \<Rightarrow> nat \<Rightarrow> byte list" where
  "digits_rev dig x base =
     (if base \<le> 1 then [dig ! (x mod base)]
      else dig ! (x mod base) # (if x div base \<noteq> 0 then digits_rev dig (x div base) base else []))"
  by auto
termination
  by (relation "measure (\<lambda>(dig, x, base). x)")
     (auto intro!: div_less_dividend simp: div_eq_0_iff not_less)

declare digits_rev.simps [simp del]

definition hexdigits :: "byte list" where
  "hexdigits = [48, 49, 50, 51, 52, 53, 54, 55, 56, 57, 97, 98, 99, 100, 101, 102]"

text \<open>
  The bytes \<^verbatim>\<open>printint\<close> prints, in order: what it leaves in \<^verbatim>\<open>buf\<close>, reversed. The negation of a
  negative number is the machine's, so \<^verbatim>\<open>INT_MIN\<close> becomes the unsigned 2147483648.
\<close>

definition printint_chars :: "byte list \<Rightarrow> uint \<Rightarrow> nat \<Rightarrow> bool \<Rightarrow> byte list" where
  "printint_chars dig xx base sign =
     (let neg = (sign \<and> sint xx < 0);
          x = (if neg then - xx else xx);
          buf = digits_rev dig (unat x) base;
          buf = (if neg then buf @ [45] else buf) in
      rev buf)"

definition printint :: "uint \<Rightarrow> nat \<Rightarrow> bool \<Rightarrow> 'z con_state_scheme \<Rightarrow> 'z con_state_scheme res" where
  "printint xx base sign s = consputs (printint_chars hexdigits xx base sign) s"

text \<open>An argument of \<^verbatim>\<open>cprintf\<close>: an integer or a string pointer, which may be NULL.\<close>

datatype carg = CInt uint | CStr "byte list option"

fun cprintf :: "byte list \<Rightarrow> carg list \<Rightarrow> 'z con_state_scheme \<Rightarrow> 'z con_state_scheme res" where
  "cprintf [] args s = Ok s"
| "cprintf (c # fmt) args s =
     (if c \<noteq> 37 then rbind (consputc (unat c) s) (cprintf fmt args)
      else
        (case fmt of
           [] \<Rightarrow> Ok s
         | d # fmt \<Rightarrow>
             if d = 100 then
               (case args of CInt x # args \<Rightarrow> rbind (printint x 10 True s) (cprintf fmt args)
                | _ \<Rightarrow> Undef ''argument'')
             else if d = 120 \<or> d = 112 then
               (case args of CInt x # args \<Rightarrow> rbind (printint x 16 False s) (cprintf fmt args)
                | _ \<Rightarrow> Undef ''argument'')
             else if d = 115 then
               (case args of
                  CStr p # args \<Rightarrow>
                    rbind (consputs (case p of None \<Rightarrow> [40, 110, 117, 108, 108, 41] | Some str \<Rightarrow> str) s)
                      (cprintf fmt args)
                | _ \<Rightarrow> Undef ''argument'')
             else if d = 37 then rbind (consputc 37 s) (cprintf fmt args)
             else rbind (consputc 37 s) (\<lambda>s. rbind (consputc (unat d) s) (cprintf fmt args))))"

section \<open>The screen stays in range\<close>

text \<open>The cursor is on one of the 24 lines above the last.\<close>

definition screen_ok :: "'z con_state_scheme \<Rightarrow> bool" where
  "screen_ok s \<longleftrightarrow> cursor s < 24 * 80"

text \<open>Console output changes nothing but the console.\<close>

definition only_console :: "'z con_state_scheme \<Rightarrow> 'z con_state_scheme \<Rightarrow> bool" where
  "only_console s t \<longleftrightarrow> t = s\<lparr>crt := crt t, cursor := cursor t, uart_out := uart_out t\<rparr>"

lemma only_console_refl [simp]: "only_console s s"
  by (simp add: only_console_def)

lemma only_console_trans:
  assumes "only_console s t" "only_console t u"
  shows "only_console s u"
proof -
  have "t\<lparr>crt := crt u, cursor := cursor u, uart_out := uart_out u\<rparr> =
      (s\<lparr>crt := crt t, cursor := cursor t, uart_out := uart_out t\<rparr>)
      \<lparr>crt := crt u, cursor := cursor u, uart_out := uart_out u\<rparr>"
    using assms(1) unfolding only_console_def by (rule arg_cong)
  then have "t\<lparr>crt := crt u, cursor := cursor u, uart_out := uart_out u\<rparr> =
      s\<lparr>crt := crt u, cursor := cursor u, uart_out := uart_out u\<rparr>" by simp
  with assms(2) show ?thesis unfolding only_console_def by (rule trans)
qed

lemma only_console_uart: "only_console s t \<Longrightarrow> uart t = uart s"
proof -
  assume "only_console s t"
  then have "uart t = uart (s\<lparr>crt := crt t, cursor := cursor t, uart_out := uart_out t\<rparr>)"
    unfolding only_console_def by (rule arg_cong)
  then show ?thesis by simp
qed

lemma cgaputc_ok:
  assumes "screen_ok s"
  shows "\<exists>m p. cgaputc c s = Ok (s\<lparr>cursor := p, crt := m\<rparr>) \<and> p < 24 * 80"
proof -
  define q where "q = (if c = 10 then cursor s + (80 - cursor s mod 80)
     else if c = BACKSPACE then if 0 < cursor s then cursor s - 1 else cursor s else cursor s + 1)"
  have "q \<le> 24 * 80"
  proof (cases "c = 10")
    case True
    have "cursor s div 80 < 24" using assms by (simp add: screen_ok_def div_less_iff_less_mult)
    moreover have "cursor s + (80 - cursor s mod 80) = 80 * (cursor s div 80) + 80"
    proof -
      have "cursor s mod 80 < 80" by simp
      moreover have "cursor s = 80 * (cursor s div 80) + cursor s mod 80" by simp
      ultimately show ?thesis by linarith
    qed
    ultimately show ?thesis using True by (simp add: q_def)
  qed (use assms in \<open>auto simp: q_def screen_ok_def\<close>)
  moreover have "\<exists>m. cgaputc c s = Ok (s\<lparr>cursor := (if 24 \<le> q div 80 then q - 80 else q), crt := m\<rparr>)" if "q \<le> 24 * 80"
    using that unfolding cgaputc_def q_def Let_def
    by (cases "c = 10"; cases "c = BACKSPACE") (auto simp: Let_def)
  moreover have "(if 24 \<le> q div 80 then q - 80 else q) < 24 * 80" if "q \<le> 24 * 80"
    using that by (auto simp: not_le div_less_iff_less_mult)
  ultimately show ?thesis by blast
qed

lemma cgaputc_console: "cgaputc c s = Ok t \<Longrightarrow> only_console s t"
  by (auto simp: cgaputc_def only_console_def Let_def split: if_splits)

definition con_bytes :: "nat \<Rightarrow> byte list" where
  "con_bytes c = (if c = BACKSPACE then [8, 32, 8] else [of_nat c])"

lemma consputc_ok:
  assumes "screen_ok s"
  shows "\<exists>t. consputc c s = Ok t \<and> screen_ok t \<and> only_console s t \<and>
     uart_out t = uart_out s @ (if uart s then con_bytes c else [])"
proof -
  define u where "u = s\<lparr>uart_out := uart_out s @ (if uart s then con_bytes c else [])\<rparr>"
  have "consputc c s = cgaputc c u"
    by (simp add: consputc_def uartputc_def con_bytes_def u_def)
  moreover have "screen_ok u" using assms by (simp add: screen_ok_def u_def)
  ultimately obtain m p where "consputc c s = Ok (u\<lparr>cursor := p, crt := m\<rparr>)" "p < 24 * 80"
    using cgaputc_ok [of u c] by auto
  then show ?thesis by (simp add: screen_ok_def only_console_def u_def)
qed

lemma consputs_ok:
  assumes "screen_ok s"
  shows "\<exists>t. consputs cs s = Ok t \<and> screen_ok t \<and> only_console s t \<and>
     uart_out t = uart_out s @ (if uart s then cs else [])"
  using assms
proof (induction cs arbitrary: s)
  case Nil
  then show ?case by simp
next
  case (Cons c cs)
  have "unat c < 256" using unsigned_less [of c] by simp
  then have b: "con_bytes (unat c) = [c]" by (simp add: con_bytes_def)
  obtain t where t: "consputc (unat c) s = Ok t" "screen_ok t" "only_console s t"
    "uart_out t = uart_out s @ (if uart s then [c] else [])"
    using consputc_ok [OF Cons.prems, of "unat c"] b by auto
  obtain u where u: "consputs cs t = Ok u" "screen_ok u" "only_console t u"
    "uart_out u = uart_out t @ (if uart t then cs else [])"
    using Cons.IH [OF t(2)] by auto
  show ?case
    using t u only_console_trans [OF t(3) u(3)] only_console_uart [OF t(3)] by simp
qed

section \<open>What cprintf prints\<close>

text \<open>
  The text of a format string: literal bytes, \<^verbatim>\<open>%d\<close>, \<^verbatim>\<open>%x\<close>, \<^verbatim>\<open>%p\<close>, \<^verbatim>\<open>%s\<close> and \<^verbatim>\<open>%%\<close>, with unknown
  directives kept as they are. \<open>None\<close> when an argument is missing or of the wrong kind.
\<close>

fun directive :: "byte list \<Rightarrow> byte \<Rightarrow> carg list \<Rightarrow> (byte list \<times> carg list) option" where
  "directive dig d args =
     (if d = 100 \<or> d = 120 \<or> d = 112 then
        (case args of
           CInt x # args \<Rightarrow> Some (printint_chars dig x (if d = 100 then 10 else 16) (d = 100), args)
         | _ \<Rightarrow> None)
      else if d = 115 then
        (case args of
           CStr None # args \<Rightarrow> Some ([40, 110, 117, 108, 108, 41], args)
         | CStr (Some str) # args \<Rightarrow> Some (str, args)
         | _ \<Rightarrow> None)
      else Some (if d = 37 then [37] else [37, d], args))"

fun format :: "(byte \<Rightarrow> carg list \<Rightarrow> (byte list \<times> carg list) option) \<Rightarrow> byte list \<Rightarrow> carg list \<Rightarrow> byte list option" where
  "format dir [] args = Some []"
| "format dir [c] args = Some (if c = 37 then [] else [c])"
| "format dir (c # d # fmt) args =
     (if c \<noteq> 37 then map_option ((#) c) (format dir (d # fmt) args)
      else
        (case dir d args of
           None \<Rightarrow> None
         | Some (out, args) \<Rightarrow> map_option ((@) out) (format dir fmt args)))"

lemma consputs_append: "consputs (xs @ ys) s = rbind (consputs xs s) (consputs ys)"
  by (induction xs arbitrary: s) (simp_all add: rbind_assoc cong: rbind_cong)

lemma consputs_single [simp]: "consputs [c] s = consputc (unat c) s"
  by (cases "consputc (unat c) s") simp_all

lemma cprintf_eq:
  fixes s :: "'z con_state_scheme"
  shows "format (directive hexdigits) fmt args = Some out \<Longrightarrow> cprintf fmt args s = consputs out s"
proof (induction "directive hexdigits" fmt args arbitrary: out s rule: format.induct)
  case (1 args)
  then show ?case by simp
next
  case (2 c args)
  then show ?case by (cases "consputc (unat c) s") (auto split: if_splits)
next
  case (3 c d fmt args)
  show ?case
  proof (cases "c = 37")
    case False
    then obtain out' where o: "format (directive hexdigits) (d # fmt) args = Some out'" "out = c # out'"
      using 3 by auto
    show ?thesis using False 3(1) [OF _ o(1)] o(2) by (simp del: cprintf.simps add: cprintf.simps(2) [of c] cong: rbind_cong)
  next
    case True
    then obtain w args' out' where dir: "directive hexdigits d args = Some (w, args')"
      and o: "format (directive hexdigits) fmt args' = Some out'" "out = w @ out'"
      using 3 by (auto split: option.splits)
    have rest: "cprintf fmt args' t = consputs out' t" for t :: "'z con_state_scheme"
      using 3(2) [OF _ dir refl, of out' t] True o(1) by simp
    have "cprintf (37 # d # fmt) args s = rbind (consputs w s) (cprintf fmt args')"
      using dir by (auto simp: printint_def rbind_assoc split: if_splits list.splits carg.splits option.splits)
    then show ?thesis using True o(2) by (simp add: consputs_append rest cong: rbind_cong)
  qed
qed

text \<open>
  \<^bold>\<open>C31\<close>. Printing to the console: on a screen whose cursor is in range, \<^verbatim>\<open>cprintf\<close> with arguments
  that fit its format never panics (no cursor overflow), leaves the cursor in range, sends
  exactly the formatted text to the serial line, and changes nothing but the console.
\<close>

theorem cprintf_output:
  assumes "screen_ok s" "format (directive hexdigits) fmt args = Some out"
  shows "\<exists>t. cprintf fmt args s = Ok t \<and> screen_ok t \<and> only_console s t \<and>
     uart_out t = uart_out s @ (if uart s then out else [])"
  using consputs_ok [OF assms(1), of out] cprintf_eq [OF assms(2), of s] by simp

definition boot_con :: con_state where
  "boot_con = gc_state.extend boot_gc
     \<lparr>crt = \<lambda>_. 0, cursor = 0, uart = True, uart_out = []\<rparr>"

theorem cprintf_output_witness:
  "\<exists>t. cprintf [97, 37, 100, 10] [CInt (-7)] boot_con = Ok t \<and> uart_out t = [97, 45, 55, 10]"
proof -
  have "screen_ok boot_con" "uart_out boot_con = []" "uart boot_con"
    by (simp_all add: screen_ok_def boot_con_def gc_state.defs)
  moreover have "printint_chars hexdigits (- 7) 10 True = [45, 55]"
    by (simp add: printint_chars_def digits_rev.simps hexdigits_def)
  then have "format (directive hexdigits) [97, 37, 100, 10] [CInt (-7)] = Some [97, 45, 55, 10]" by simp
  ultimately show ?thesis using cprintf_output [of boot_con] by fastforce
qed

section \<open>Integers\<close>

lemma digits_rev_value:
  assumes "2 \<le> base"
  shows "\<exists>ds. digits_rev dig x base = map ((!) dig) ds \<and> (\<forall>d \<in> set ds. d < base) \<and>
     foldr (\<lambda>d v. base * v + d) ds 0 = x \<and> (\<forall>k \<ge> 1. x < base ^ k \<longrightarrow> length ds \<le> k)"
  using assms
proof (induction dig x base rule: digits_rev.induct)
  case (1 dig x base)
  show ?case
  proof (cases "x div base = 0")
    case True
    with 1 have "x < base" "digits_rev dig x base = map ((!) dig) [x]"
      by (auto simp: digits_rev.simps [of dig x] div_eq_0_iff)
    then show ?thesis by (intro exI [of _ "[x]"]) auto
  next
    case False
    with 1 obtain ds where ds: "digits_rev dig (x div base) base = map ((!) dig) ds" "\<forall>d \<in> set ds. d < base"
      "foldr (\<lambda>d v. base * v + d) ds 0 = x div base" "\<And>k. 1 \<le> k \<Longrightarrow> x div base < base ^ k \<Longrightarrow> length ds \<le> k"
      by auto
    have "length (x mod base # ds) \<le> k" if k: "1 \<le> k" "x < base ^ k" for k
    proof (cases k)
      case (Suc j)
      have "x div base < base ^ j" using k Suc 1 by (simp add: div_less_iff_less_mult mult.commute)
      moreover have "j \<noteq> 0" using calculation False by (cases j) auto
      ultimately show ?thesis using ds(4) [of j] Suc by simp
    qed (use k in simp)
    moreover have "digits_rev dig x base = map ((!) dig) (x mod base # ds)"
      using False 1 ds(1) by (simp add: digits_rev.simps [of dig x])
    moreover have "foldr (\<lambda>d v. base * v + d) (x mod base # ds) 0 = x" using ds(3) by simp
    moreover have "\<forall>d \<in> set (x mod base # ds). d < base" using ds(2) 1 by simp
    ultimately show ?thesis by blast
  qed
qed

lemma hexdigits_digit: "d < 10 \<Longrightarrow> hexdigits ! d = digit d"
proof -
  assume "d < 10"
  then have "d \<in> {0, 1, 2, 3, 4, 5, 6, 7, 8, 9}" by auto
  then show ?thesis by (auto simp: hexdigits_def digit_def)
qed

lemma printint_digits:
  assumes "base \<in> {10, 16}"
  obtains ds where
    "printint_chars dig xx base sign = (if sign \<and> sint xx < 0 then [45] else []) @ map ((!) dig) ds"
    "\<forall>d \<in> set ds. d < base" "length ds \<le> 10" "ds \<noteq> []"
    "foldl (\<lambda>v d. base * v + d) 0 ds = unat (if sign \<and> sint xx < 0 then - xx else xx)"
proof -
  let ?x = "if sign \<and> sint xx < 0 then - xx else xx"
  obtain ds where ds: "digits_rev dig (unat ?x) base = map ((!) dig) ds" "\<forall>d \<in> set ds. d < base"
    "foldr (\<lambda>d v. base * v + d) ds 0 = unat ?x" "\<And>k. 1 \<le> k \<Longrightarrow> unat ?x < base ^ k \<Longrightarrow> length ds \<le> k"
    using digits_rev_value [of base dig "unat ?x"] assms by auto
  have "unat ?x < 4294967296" using unsigned_less [of ?x, where ?'a = nat] by simp
  then have "length ds \<le> 10" using ds(4) [of 10] assms by auto
  moreover have "digits_rev dig (unat ?x) base \<noteq> []"
    using assms by (subst digits_rev.simps) auto
  moreover have "printint_chars dig xx base sign =
      (if sign \<and> sint xx < 0 then [45] else []) @ map ((!) dig) (rev ds)"
    using ds(1) by (auto simp: printint_chars_def Let_def rev_map)
  moreover have "foldl (\<lambda>v d. base * v + d) 0 (rev ds) = unat ?x"
    using ds(3) by (simp add: foldl_conv_foldr)
  ultimately show ?thesis using ds(1,2) that [of "rev ds"] by auto
qed

lemma unat_abs: "int (unat (if sint xx < 0 then - xx else xx :: uint)) = \<bar>sint xx\<bar>"
proof -
  have range: "- 2147483648 \<le> sint xx" "sint xx < 2147483648"
    using sint_greater_eq [of xx] sint_less [of xx] by simp_all
  have "(if sint xx < 0 then - xx else xx) = word_of_int \<bar>sint xx\<bar>" by simp
  then show ?thesis using range by (simp only: uint_nat [symmetric] uint_word_of_int) simp
qed

lemma atoi_minus: "atoi (cstr (45 # xs)) = Some (Ok 0)"
  by (simp add: atoi_def atoi_loop.simps)

text \<open>
  \<^bold>\<open>C32\<close>. In every call \<^verbatim>\<open>cprintf\<close> can make of \<^verbatim>\<open>printint\<close> (base 10 or 16, signed or not, any 32-bit
  argument) at most 11 bytes are stored, so the 16-byte \<^verbatim>\<open>buf\<close> is never exceeded. What is
  printed in base 10 with \<^verbatim>\<open>sign\<close> is, for every \<^verbatim>\<open>int\<close> including \<^verbatim>\<open>INT_MIN\<close>, a minus sign if the
  number is negative and then the decimal digits of its absolute value. \<^verbatim>\<open>atoi\<close> reads a
  non-negative number up to 2147483599 back; it knows no sign, so a negative one is read as
  0, and the digits after the sign as the absolute value, up to the same bound.
\<close>

theorem printint_atoi:
  "(base \<in> {10, 16} \<longrightarrow> length (printint_chars hexdigits xx base sign) \<le> 11) \<and>
   (\<exists>ds. printint_chars hexdigits xx 10 True = (if sint xx < 0 then [45] else []) @ map digit ds \<and>
      ds \<noteq> [] \<and> (\<forall>d \<in> set ds. d \<le> 9) \<and> int (dec_value ds) = \<bar>sint xx\<bar>) \<and>
   (0 \<le> sint xx \<and> sint xx \<le> 2147483599 \<longrightarrow>
      atoi (cstr (printint_chars hexdigits xx 10 True)) = Some (Ok (sint xx))) \<and>
   (sint xx < 0 \<longrightarrow> atoi (cstr (printint_chars hexdigits xx 10 True)) = Some (Ok 0)) \<and>
   (- 2147483599 \<le> sint xx \<and> sint xx < 0 \<longrightarrow>
      atoi (cstr (tl (printint_chars hexdigits xx 10 True))) = Some (Ok (- sint xx)))"
proof -
  have len: "base \<in> {10, 16} \<longrightarrow> length (printint_chars hexdigits xx base sign) \<le> 11"
  proof
    assume "base \<in> {10, 16}"
    then show "length (printint_chars hexdigits xx base sign) \<le> 11"
      by (rule printint_digits [of base hexdigits xx sign]) auto
  qed
  obtain ds where ds: "printint_chars hexdigits xx 10 True = (if sint xx < 0 then [45] else []) @ map ((!) hexdigits) ds"
    "\<forall>d \<in> set ds. d < 10" "ds \<noteq> []"
    "foldl (\<lambda>v d. 10 * v + d) 0 ds = unat (if sint xx < 0 then - xx else xx)"
    by (rule printint_digits [of 10 hexdigits xx True]) auto
  have val: "int (dec_value ds) = \<bar>sint xx\<bar>" using ds(4) unat_abs [of xx] by (simp add: dec_value_def)
  have chars: "printint_chars hexdigits xx 10 True = (if sint xx < 0 then [45] else []) @ map digit ds"
    using ds(1,2) hexdigits_digit by simp
  have "atoi (cstr (map digit ds @ [])) =
      Some (if dec_value ds \<le> 2147483599 then Ok (int (dec_value ds)) else Undef ''int overflow'')"
    by (rule atoi_digits) (use ds(2) in \<open>auto simp: no_digit_def\<close>)
  moreover have "dec_value ds \<le> 2147483599 \<longleftrightarrow> \<bar>sint xx\<bar> \<le> 2147483599" using val by linarith
  ultimately have read: "atoi (cstr (map digit ds)) =
      Some (if \<bar>sint xx\<bar> \<le> 2147483599 then Ok \<bar>sint xx\<bar> else Undef ''int overflow'')"
    using val by simp
  have "\<exists>ds. printint_chars hexdigits xx 10 True = (if sint xx < 0 then [45] else []) @ map digit ds \<and>
      ds \<noteq> [] \<and> (\<forall>d \<in> set ds. d \<le> 9) \<and> int (dec_value ds) = \<bar>sint xx\<bar>"
    using chars ds(2,3) val by (intro exI [of _ ds]) auto
  moreover have "atoi (cstr (printint_chars hexdigits xx 10 True)) = Some (Ok (sint xx))"
    if "0 \<le> sint xx" "sint xx \<le> 2147483599" using that chars read by simp
  moreover have "atoi (cstr (printint_chars hexdigits xx 10 True)) = Some (Ok 0)" if "sint xx < 0"
    using that chars atoi_minus by simp
  moreover have "atoi (cstr (tl (printint_chars hexdigits xx 10 True))) = Some (Ok (- sint xx))"
    if "- 2147483599 \<le> sint xx" "sint xx < 0" using that chars read by simp
  ultimately show ?thesis using len by blast
qed

theorem printint_atoi_witness:
  "atoi (cstr (printint_chars hexdigits 42 10 True)) = Some (Ok 42) \<and>
   atoi (cstr (printint_chars hexdigits (- 7) 10 True)) = Some (Ok 0) \<and>
   atoi (cstr (tl (printint_chars hexdigits (- 7) 10 True))) = Some (Ok 7) \<and>
   length (printint_chars hexdigits 0x80000000 10 True) \<le> 11"
  using printint_atoi [of 10 42 True] printint_atoi [of 10 "- 7" True] printint_atoi [of 10 "0x80000000" True]
  by simp

end
