(* ===== verification/Alloc.thy ===== *)
theory Alloc
  imports Log Cprintf
begin

text \<open>
  The state of the file system proper (superblock, inode cache, the running process), the
  sleep locks of sleeplock.c, and the block allocator of fs.c: \<^verbatim>\<open>bzero\<close>, \<^verbatim>\<open>balloc\<close> and
  \<^verbatim>\<open>bfree\<close>. The allocator is characterised by the set of free blocks of the bitmap. The
  access pattern every later component uses (read a block, change it, log it, release it)
  has one rule here, \<open>logged_update\<close>.
\<close>

section \<open>Sleep locks\<close>

record sleeplock =
  locked :: bool
  lk_pid :: nat

definition initsleeplock :: "sleeplock \<Rightarrow> sleeplock" where
  "initsleeplock lk = lk\<lparr>locked := False, lk_pid := 0\<rparr>"

definition acquiresleep :: "nat \<Rightarrow> sleeplock \<Rightarrow> sleeplock res" where
  "acquiresleep pid lk =
     (if locked lk then Sleeps ''sleeplock'' else Ok (lk\<lparr>locked := True, lk_pid := pid\<rparr>))"

definition releasesleep :: "sleeplock \<Rightarrow> sleeplock" where
  "releasesleep lk = lk\<lparr>locked := False, lk_pid := 0\<rparr>"

definition holdingsleep :: "nat \<Rightarrow> sleeplock \<Rightarrow> bool" where
  "holdingsleep pid lk \<longleftrightarrow> locked lk \<and> lk_pid lk = pid"

section \<open>State\<close>

text \<open>
  An entry of the inode cache. \<^verbatim>\<open>short\<close> fields are integers, \<^verbatim>\<open>uint\<close> fields natural numbers.
\<close>

record inode =
  i_dev :: nat
  i_inum :: nat
  i_ref :: int
  i_lock :: sleeplock
  i_valid :: bool
  i_type :: int
  i_major :: int
  i_minor :: int
  i_nlink :: int
  i_size :: nat
  i_addrs :: "nat list"
  i_indirect :: nat
  i_create_time :: nat
  i_version_head :: nat

text \<open>
  An inode pointer is an index into the cache. \<open>mypid\<close> and \<open>cwd\<close> are those of the running
  process, \<^verbatim>\<open>myproc()\<close>.
\<close>

record fs_state = con_state +
  sb :: superblock
  icache :: "inode list"
  mypid :: nat
  cwd :: nat

abbreviation (input) NDIRECT :: nat where "NDIRECT \<equiv> 10"
abbreviation (input) NINDIRECT :: nat where "NINDIRECT \<equiv> 128"
abbreviation (input) MAXFILE :: nat where "MAXFILE \<equiv> 138"
abbreviation (input) BPB :: nat where "BPB \<equiv> 4096"
abbreviation (input) IPB :: nat where "IPB \<equiv> 8"

definition BBLOCK :: "nat \<Rightarrow> superblock \<Rightarrow> nat" where
  "BBLOCK b sp = b div BPB + sb_bmapstart sp"

definition IBLOCK :: "nat \<Rightarrow> superblock \<Rightarrow> nat" where
  "IBLOCK i sp = i div IPB + sb_inodestart sp"

section \<open>bzero, balloc, bfree\<close>

definition bzero :: "nat \<Rightarrow> nat \<Rightarrow> 'z blk_state_scheme \<Rightarrow> 'z blk_state_scheme res" where
  "bzero dev bno s =
     rbind (bread dev bno s) (\<lambda>(bp, s).
     let bp = bp\<lparr>b_data := (\<lambda>_. 0)\<rparr> in
     rbind (log_write bp s) (\<lambda>s.
     brelse bp s))"

text \<open>The bit of a block in its bitmap block, tested, set and cleared as the code does.\<close>

definition bit_free :: "block \<Rightarrow> nat \<Rightarrow> bool" where
  "bit_free d bi \<longleftrightarrow> d (bi div 8) AND push_bit (bi mod 8) 1 = 0"

definition bit_mark :: "block \<Rightarrow> nat \<Rightarrow> block" where
  "bit_mark d bi = d(bi div 8 := d (bi div 8) OR push_bit (bi mod 8) 1)"

definition bit_clear :: "block \<Rightarrow> nat \<Rightarrow> block" where
  "bit_clear d bi = d(bi div 8 := d (bi div 8) AND NOT (push_bit (bi mod 8) 1))"

text \<open>The inner loop of \<^verbatim>\<open>balloc\<close>: the first free bit of a bitmap block, below the end of the disk.\<close>

definition first_free :: "block \<Rightarrow> nat \<Rightarrow> nat \<Rightarrow> nat option" where
  "first_free d b sz = first_idx (bit_free d) [0..<min BPB (sz - b)]"

function balloc_loop :: "nat \<Rightarrow> nat \<Rightarrow> 'z fs_state_scheme \<Rightarrow> (nat \<times> 'z fs_state_scheme) res" where
  "balloc_loop dev b s =
     (if b < sb_size (sb s) then
        rbind (bread dev (BBLOCK b (sb s)) s) (\<lambda>(bp, s).
        (case first_free (b_data bp) b (sb_size (sb s)) of
           Some bi \<Rightarrow>
             let bp = bp\<lparr>b_data := bit_mark (b_data bp) bi\<rparr> in
             rbind (log_write bp s) (\<lambda>s.
             rbind (brelse bp s) (\<lambda>s.
             rbind (bzero dev (b + bi) s) (\<lambda>s.
             Ok (b + bi, s))))
         | None \<Rightarrow>
             rbind (brelse bp s) (\<lambda>s.
             balloc_loop dev (b + BPB) s)))
      else Panic ''balloc: out of blocks'')"
  by auto
termination
  by (relation "measure (\<lambda>(dev, b, s). sb_size (sb s) - b)")
     (auto simp: brelse_def dest!: bread_SomeD(2) split: if_splits)

declare balloc_loop.simps [simp del]

definition balloc :: "nat \<Rightarrow> 'z fs_state_scheme \<Rightarrow> (nat \<times> 'z fs_state_scheme) res" where
  "balloc dev s = balloc_loop dev 0 s"

definition bfree :: "nat \<Rightarrow> nat \<Rightarrow> 'z fs_state_scheme \<Rightarrow> 'z fs_state_scheme res" where
  "bfree dev b s =
     rbind (bread dev (BBLOCK b (sb s)) s) (\<lambda>(bp, s).
     let bi = b mod BPB in
     if bit_free (b_data bp) bi then Panic ''freeing free block''
     else
       let bp = bp\<lparr>b_data := bit_clear (b_data bp) bi\<rparr> in
       rbind (log_write bp s) (\<lambda>s.
       brelse bp s))"

section \<open>Reading and updating blocks inside a transaction\<close>

text \<open>
  A transaction with room for \<open>n\<close> more logged blocks and \<open>h\<close> more locked buffers.
\<close>

definition txn :: "nat \<Rightarrow> nat \<Rightarrow> 'z blk_state_scheme \<Rightarrow> bool" where
  "txn n h s \<longleftrightarrow> 1 \<le> outstanding (klog s) \<and>
     length (lh_block (klog s)) + n \<le> LOGSIZE \<and> length (lh_block (klog s)) + n < log_size (klog s) \<and>
     card (set (held s) \<union> set (dirty s)) + n + h \<le> NBUF"

text \<open>The effect of logging a new value of a block.\<close>

definition lupd :: "baddr \<Rightarrow> block \<Rightarrow> 'z blk_state_scheme \<Rightarrow> 'z blk_state_scheme" where
  "lupd a v s =
     s\<lparr>klog := (klog s)\<lparr>lh_block := (if snd a \<in> set (lh_block (klog s)) then lh_block (klog s)
                                    else lh_block (klog s) @ [snd a])\<rparr>,
       blks := (blks s)(a := v), dirty := List.insert a (dirty s)\<rparr>"

lemma lupd_simps [simp]:
  "blks (lupd a v s) = (blks s)(a := v)"
  "held (lupd a v s) = held s"
  "disk (lupd a v s) = disk s"
  "wtrace (lupd a v s) = wtrace s"
  "dirty (lupd a v s) = List.insert a (dirty s)"
  "outstanding (klog (lupd a v s)) = outstanding (klog s)"
  "committing (klog (lupd a v s)) = committing (klog s)"
  "log_size (klog (lupd a v s)) = log_size (klog s)"
  "log_dev (klog (lupd a v s)) = log_dev (klog s)"
  "log_start (klog (lupd a v s)) = log_start (klog s)"
  by (simp_all add: lupd_def)

lemma lupd_more [simp]:
  "ticks (lupd a v s) = ticks s" "refcount_table (lupd a v s) = refcount_table s"
  "dedup_table (lupd a v s) = dedup_table s"
  by (simp_all add: lupd_def)

lemma lupd_fs [simp]:
  "sb (lupd a v s) = sb s" "icache (lupd a v s) = icache s" "mypid (lupd a v s) = mypid s" "cwd (lupd a v s) = cwd s"
  by (simp_all add: lupd_def)

lemma txn_mono: "txn n h s \<Longrightarrow> m \<le> n \<Longrightarrow> k \<le> h \<Longrightarrow> txn m k s"
  by (auto simp: txn_def)

lemma txn_lupd:
  assumes "txn (Suc n) h s" shows "txn n h (lupd a v s)"
proof -
  have "card (set (held s) \<union> insert a (set (dirty s))) \<le> card (set (held s) \<union> set (dirty s)) + 1"
    by (simp add: card_insert_if)
  with assms show ?thesis by (auto simp: txn_def lupd_def)
qed

lemma txn_held:
  assumes "txn n (Suc h) s" shows "txn n h (s\<lparr>held := a # held s\<rparr>)"
proof -
  have "card (insert a (set (held s)) \<union> set (dirty s)) \<le> card (set (held s) \<union> set (dirty s)) + 1"
    by (simp add: card_insert_if)
  with assms show ?thesis by (auto simp: txn_def)
qed

lemma txn_bread:
  assumes "txn n (Suc h) s" "(dev, b) \<notin> set (held s)" "b < FSSIZE"
  shows "bread dev b s = Ok (\<lparr>b_dev = dev, b_blockno = b, b_data = blks s (dev, b)\<rparr>, s\<lparr>held := (dev, b) # held s\<rparr>)"
  using assms by (auto simp: bread_def txn_def)

lemma txn_log_write:
  assumes "txn (Suc n) h s"
  shows "log_write bp s = Ok (lupd (b_addr bp) (b_data bp) s)"
  using assms by (auto simp: log_write_def txn_def lupd_def Let_def)

text \<open>Releasing the buffer that was locked last.\<close>

lemma brelse_last [simp]:
  "b_addr bp = a \<Longrightarrow> brelse bp (s\<lparr>held := a # h\<rparr>) = Ok (s\<lparr>held := h\<rparr>)"
  by (cases bp) (auto simp: brelse_def)

lemma lupd_held: "lupd a v (s\<lparr>held := h\<rparr>) = (lupd a v s)\<lparr>held := h\<rparr>"
  by (simp add: lupd_def)

lemma lupd_held_same [simp]: "(lupd a v s)\<lparr>held := held s\<rparr> = lupd a v s"
  by (simp add: lupd_def)

lemma txn_log_write_held:
  assumes "txn (Suc n) (Suc h) s"
  shows "log_write bp (s\<lparr>held := a # held s\<rparr>) = Ok ((lupd (b_addr bp) (b_data bp) s)\<lparr>held := a # held s\<rparr>)"
  using txn_log_write [OF txn_held [OF assms]] by (simp add: lupd_held)

text \<open>The pattern of every metadata update: lock, change, log, release.\<close>

lemma logged_update:
  assumes "txn (Suc n) (Suc h) s" "(dev, b) \<notin> set (held s)" "b < FSSIZE"
  shows "rbind (bread dev b s) (\<lambda>(bp, s). rbind (log_write (bp\<lparr>b_data := f (b_data bp)\<rparr>) s)
      (\<lambda>s. brelse (bp\<lparr>b_data := f (b_data bp)\<rparr>) s)) = Ok (lupd (dev, b) (f (blks s (dev, b))) s)"
  using assms by (simp add: txn_bread txn_log_write_held brelse_def)

lemma bzero_eq:
  assumes "txn (Suc n) (Suc h) s" "(dev, b) \<notin> set (held s)" "b < FSSIZE"
  shows "bzero dev b s = Ok (lupd (dev, b) (\<lambda>_. 0) s)"
  using logged_update [OF assms, of "\<lambda>_ _. 0"] by (simp add: bzero_def Let_def)

section \<open>The free map\<close>

lemma bit_free_iff: "bit_free d bi \<longleftrightarrow> \<not> bit (d (bi div 8)) (bi mod 8)"
proof -
  have b: "bit (d (bi div 8) AND push_bit (bi mod 8) 1) n \<longleftrightarrow> n = bi mod 8 \<and> bit (d (bi div 8)) n" for n
    by (auto simp: bit_simps)
  show ?thesis
  proof (cases "bit (d (bi div 8)) (bi mod 8)")
    case True
    then have "bit (d (bi div 8) AND push_bit (bi mod 8) 1) (bi mod 8)" using b by blast
    then have "d (bi div 8) AND push_bit (bi mod 8) 1 \<noteq> 0" by auto
    with True show ?thesis by (simp add: bit_free_def)
  next
    case False
    then have "d (bi div 8) AND push_bit (bi mod 8) 1 = 0"
    proof (intro bit_word_eqI)
      fix n
      show "bit (d (bi div 8) AND push_bit (bi mod 8) 1) n \<longleftrightarrow> bit (0 :: byte) n"
        unfolding b using False by auto
    qed
    with False show ?thesis by (simp add: bit_free_def)
  qed
qed

lemma same_bit: "(i :: nat) div 8 = j div 8 \<Longrightarrow> i mod 8 = j mod 8 \<Longrightarrow> i = j"
  by (metis div_mult_mod_eq)

lemma bit_free_mark: "bit_free (bit_mark d bi) bj \<longleftrightarrow> bj \<noteq> bi \<and> bit_free d bj"
  using same_bit [of bj bi] by (auto simp: bit_free_iff bit_mark_def bit_simps)

lemma bit_free_clear: "bit_free (bit_clear d bi) bj \<longleftrightarrow> bj = bi \<or> bit_free d bj"
  using same_bit [of bj bi] by (auto simp: bit_free_iff bit_clear_def bit_simps)

lemma bit_mark_clear: "bit_free d bi \<Longrightarrow> bit_clear (bit_mark d bi) bi = d"
proof -
  assume "bit_free d bi"
  then have "(d (bi div 8) OR push_bit (bi mod 8) 1) AND NOT (push_bit (bi mod 8) 1) = d (bi div 8)"
    by (intro bit_word_eqI) (auto simp: bit_free_iff bit_simps)
  then show ?thesis by (simp add: bit_mark_def bit_clear_def)
qed

definition block_free :: "'z fs_state_scheme \<Rightarrow> nat \<Rightarrow> nat \<Rightarrow> bool" where
  "block_free s dev b \<longleftrightarrow> bit_free (blks s (dev, BBLOCK b (sb s))) (b mod BPB)"

text \<open>
  The layout the allocator relies on: every block below \<^verbatim>\<open>sb.size\<close> and every bitmap block exists,
  the bitmap is in use (marked in itself), and none of these blocks is locked.
\<close>

definition bmap_ok :: "'z fs_state_scheme \<Rightarrow> nat \<Rightarrow> bool" where
  "bmap_ok s dev \<longleftrightarrow> sb_size (sb s) \<le> FSSIZE \<and>
     (\<forall>b < sb_size (sb s). BBLOCK b (sb s) < sb_size (sb s) \<and> \<not> block_free s dev (BBLOCK b (sb s)) \<and>
        (dev, BBLOCK b (sb s)) \<notin> set (held s) \<and> (block_free s dev b \<longrightarrow> (dev, b) \<notin> set (held s)))"

definition is_first_free :: "'z fs_state_scheme \<Rightarrow> nat \<Rightarrow> nat \<Rightarrow> nat \<Rightarrow> bool" where
  "is_first_free s dev from b \<longleftrightarrow> from \<le> b \<and> b < sb_size (sb s) \<and> block_free s dev b \<and>
     (\<forall>c. from \<le> c \<and> c < b \<longrightarrow> \<not> block_free s dev c)"

text \<open>The state after \<open>b\<close> has been allocated.\<close>

definition alloc_block :: "nat \<Rightarrow> nat \<Rightarrow> 'z fs_state_scheme \<Rightarrow> 'z fs_state_scheme" where
  "alloc_block dev b s =
     lupd (dev, b) (\<lambda>_. 0)
       (lupd (dev, BBLOCK b (sb s)) (bit_mark (blks s (dev, BBLOCK b (sb s))) (b mod BPB)) s)"

lemma block_in_map: "b mod BPB = 0 \<Longrightarrow> bi < BPB \<Longrightarrow> BBLOCK (b + bi) sp = BBLOCK b sp \<and> (b + bi) mod BPB = bi"
  by (auto simp: BBLOCK_def mod_eq_0_iff_dvd elim!: dvdE)

lemma first_free_Some:
  assumes "first_free d b sz = Some bi"
  shows "bi < BPB" "b + bi < sz" "bit_free d bi" "\<And>bj. bj < bi \<Longrightarrow> \<not> bit_free d bj"
  using assms by (auto simp: first_free_def first_idx_Some)

lemma first_free_None: "first_free d b sz = None \<Longrightarrow> bi < BPB \<Longrightarrow> b + bi < sz \<Longrightarrow> \<not> bit_free d bi"
  by (auto simp: first_free_def)

lemma balloc_loop_eq:
  assumes "txn 2 1 s" "bmap_ok s dev" "b mod BPB = 0"
  shows "(if \<exists>x. is_first_free s dev b x
     then \<exists>x. is_first_free s dev b x \<and> balloc_loop dev b s = Ok (x, alloc_block dev x s)
     else balloc_loop dev b s = Panic ''balloc: out of blocks'')"
  using assms(3)
proof (induction "sb_size (sb s) - b" arbitrary: b rule: less_induct)
  case (less b)
  note 1 = less.hyps assms(1,2) less.prems
  show ?case
  proof (cases "b < sb_size (sb s)")
    case False
    then have "\<not> (\<exists>x. is_first_free s dev b x)" by (auto simp: is_first_free_def)
    with False show ?thesis by (simp add: balloc_loop.simps)
  next
    case lt: True
    let ?a = "(dev, BBLOCK b (sb s))"
    have a: "?a \<notin> set (held s)" "BBLOCK b (sb s) < FSSIZE"
      using lt 1(3) by (auto simp: bmap_ok_def)
    have rd: "bread dev (BBLOCK b (sb s)) s =
        Ok (\<lparr>b_dev = dev, b_blockno = BBLOCK b (sb s), b_data = blks s ?a\<rparr>, s\<lparr>held := ?a # held s\<rparr>)"
      using txn_bread [of 2 0 s] 1(2) a by simp
    show ?thesis
    proof (cases "first_free (blks s ?a) b (sb_size (sb s))")
      case (Some bi)
      note ff = first_free_Some [OF Some]
      have m: "BBLOCK (b + bi) (sb s) = BBLOCK b (sb s)" "(b + bi) mod BPB = bi"
        using block_in_map [OF 1(4) ff(1)] by auto
      have free: "block_free s dev (b + bi)" using ff(3) m by (simp add: block_free_def)
      have "\<not> block_free s dev c" if "b \<le> c" "c < b + bi" for c
        using ff(4) [of "c - b"] block_in_map [OF 1(4), of "c - b" "sb s"] that ff(1)
        by (simp add: block_free_def)
      with free ff(2) have first: "is_first_free s dev b (b + bi)" by (simp add: is_first_free_def)
      have ok: "(dev, b + bi) \<notin> set (held s)" "b + bi < FSSIZE"
        using 1(3) free ff(2) by (auto simp: bmap_ok_def)
      let ?t = "lupd ?a (bit_mark (blks s ?a) bi) s"
      have "txn 1 1 ?t" using txn_lupd [of 1 1 s] 1(2) by (simp add: numeral_2_eq_2)
      then have z: "bzero dev (b + bi) ?t = Ok (alloc_block dev (b + bi) s)"
        using bzero_eq [of 0 0 ?t dev "b + bi"] ok by (simp add: alloc_block_def m)
      have "balloc_loop dev b s = Ok (b + bi, alloc_block dev (b + bi) s)"
        using lt rd Some z txn_log_write_held [of 1 0 s] 1(2)
        by (subst balloc_loop.simps) (simp add: numeral_2_eq_2)
      with first show ?thesis by auto
    next
      case None
      have none: "\<not> block_free s dev c" if "b \<le> c" "c < b + BPB" "c < sb_size (sb s)" for c
        using first_free_None [OF None, of "c - b"] block_in_map [OF 1(4), of "c - b" "sb s"] that
        by (simp add: block_free_def)
      have nxt: "is_first_free s dev b x \<longleftrightarrow> is_first_free s dev (b + BPB) x" for x
      proof
        assume "is_first_free s dev b x"
        then show "is_first_free s dev (b + BPB) x"
          using none [of x] by (auto simp: is_first_free_def not_less)
      next
        assume x: "is_first_free s dev (b + BPB) x"
        have "\<not> block_free s dev c" if "b \<le> c" "c < x" for c
          using x none [of c] that by (cases "c < b + BPB") (auto simp: is_first_free_def)
        with x show "is_first_free s dev b x" by (simp add: is_first_free_def)
      qed
      have step: "balloc_loop dev b s = balloc_loop dev (b + BPB) s"
        using lt rd None by (subst balloc_loop.simps) simp
      have "(b + BPB) mod BPB = 0" using 1(4) by simp
      with 1(1) [of "b + BPB"] lt show ?thesis unfolding step nxt by simp
    qed
  qed
qed

lemma balloc_ok:
  assumes "txn 2 1 s" "bmap_ok s dev" "\<exists>b < sb_size (sb s). block_free s dev b"
  obtains b where "is_first_free s dev 0 b" "balloc dev s = Ok (b, alloc_block dev b s)"
proof -
  obtain x where x: "x < sb_size (sb s)" "block_free s dev x" using assms(3) by blast
  define y where "y = (LEAST y. block_free s dev y)"
  have "block_free s dev y" unfolding y_def by (rule LeastI [of _ x]) (rule x(2))
  moreover have "y \<le> x" unfolding y_def by (rule Least_le) (rule x(2))
  moreover have "\<not> block_free s dev c" if "c < y" for c
    using that unfolding y_def by (rule not_less_Least)
  ultimately have "is_first_free s dev 0 y" using x(1) by (simp add: is_first_free_def)
  then have "\<exists>x. is_first_free s dev 0 x" by blast
  then have "\<exists>x. is_first_free s dev 0 x \<and> balloc_loop dev 0 s = Ok (x, alloc_block dev x s)"
    using balloc_loop_eq [OF assms(1,2) mod_0] by (simp only: if_True)
  then show thesis using that unfolding balloc_def by blast
qed

lemma balloc_full:
  assumes "txn 2 1 s" "bmap_ok s dev" "\<forall>b < sb_size (sb s). \<not> block_free s dev b"
  shows "balloc dev s = Panic ''balloc: out of blocks''"
proof -
  have "\<not> (\<exists>x. is_first_free s dev 0 x)" using assms(3) by (auto simp: is_first_free_def)
  then show ?thesis using balloc_loop_eq [OF assms(1,2), of 0] by (simp add: balloc_def)
qed

lemma BBLOCK_inj: "BBLOCK b sp = BBLOCK c sp \<Longrightarrow> b mod BPB = c mod BPB \<Longrightarrow> b = c"
proof -
  assume e: "BBLOCK b sp = BBLOCK c sp" "b mod BPB = c mod BPB"
  then have "b div BPB = c div BPB" by (simp add: BBLOCK_def)
  with e(2) have "b div BPB * BPB + b mod BPB = c div BPB * BPB + c mod BPB" by simp
  then show "b = c" by simp
qed

text \<open>Marking a bitmap bit, and writing a block that is not a bitmap block.\<close>

lemma block_free_mark:
  "block_free (lupd (dev, BBLOCK b (sb s)) (bit_mark (blks s (dev, BBLOCK b (sb s))) (b mod BPB)) s) dev c
   \<longleftrightarrow> c \<noteq> b \<and> block_free s dev c"
  using BBLOCK_inj [of c "sb s" b] by (auto simp: block_free_def bit_free_mark)

lemma block_free_clear:
  "block_free (lupd (dev, BBLOCK b (sb s)) (bit_clear (blks s (dev, BBLOCK b (sb s))) (b mod BPB)) s) dev c
   \<longleftrightarrow> c = b \<or> block_free s dev c"
  using BBLOCK_inj [of c "sb s" b] by (auto simp: block_free_def bit_free_clear)

lemma block_free_lupd:
  "b \<noteq> BBLOCK c (sb s) \<Longrightarrow> block_free (lupd (dev, b) v s) dev c \<longleftrightarrow> block_free s dev c"
  by (auto simp: block_free_def)

lemma free_not_bitmap: "bmap_ok s dev \<Longrightarrow> block_free s dev b \<Longrightarrow> c < sb_size (sb s) \<Longrightarrow> b \<noteq> BBLOCK c (sb s)"
  by (auto simp: bmap_ok_def)

lemma alloc_block_free:
  assumes "bmap_ok s dev" "block_free s dev b" "c < sb_size (sb s)"
  shows "block_free (alloc_block dev b s) dev c \<longleftrightarrow> c \<noteq> b \<and> block_free s dev c"
  unfolding alloc_block_def
  using free_not_bitmap [OF assms] block_free_mark [of dev b s c] by (simp add: block_free_lupd)

lemma alloc_block_simps [simp]:
  "sb (alloc_block dev b s) = sb s" "held (alloc_block dev b s) = held s"
  "icache (alloc_block dev b s) = icache s" "mypid (alloc_block dev b s) = mypid s"
  "refcount_table (alloc_block dev b s) = refcount_table s" "ticks (alloc_block dev b s) = ticks s"
  by (simp_all add: alloc_block_def)

lemma alloc_block_blks:
  "blks (alloc_block dev b s) = (blks s)(
     (dev, BBLOCK b (sb s)) := bit_mark (blks s (dev, BBLOCK b (sb s))) (b mod BPB), (dev, b) := (\<lambda>_. 0))"
  by (simp add: alloc_block_def)

lemma bmap_ok_same_map:
  assumes "bmap_ok s dev" "sb t = sb s" "held t = held s"
    and "\<And>c. c < sb_size (sb s) \<Longrightarrow> block_free t dev c \<Longrightarrow> block_free s dev c"
  shows "bmap_ok t dev"
  using assms unfolding bmap_ok_def by auto

lemma alloc_block_bmap_ok: "bmap_ok s dev \<Longrightarrow> block_free s dev b \<Longrightarrow> bmap_ok (alloc_block dev b s) dev"
  by (rule bmap_ok_same_map [of s]) (simp_all add: alloc_block_free)

lemma alloc_block_txn: "txn (Suc (Suc n)) h s \<Longrightarrow> txn n h (alloc_block dev b s)"
  unfolding alloc_block_def by (intro txn_lupd)

text \<open>A block in use that is not part of the bitmap.\<close>

definition block_used :: "'z fs_state_scheme \<Rightarrow> nat \<Rightarrow> nat \<Rightarrow> bool" where
  "block_used s dev b \<longleftrightarrow> b < sb_size (sb s) \<and> \<not> block_free s dev b \<and>
     (\<forall>c < sb_size (sb s). b \<noteq> BBLOCK c (sb s)) \<and> (dev, b) \<notin> set (held s)"

definition free_block :: "nat \<Rightarrow> nat \<Rightarrow> 'z fs_state_scheme \<Rightarrow> 'z fs_state_scheme" where
  "free_block dev b s =
     lupd (dev, BBLOCK b (sb s)) (bit_clear (blks s (dev, BBLOCK b (sb s))) (b mod BPB)) s"

lemma bfree_eq:
  assumes "txn (Suc n) (Suc h) s" "bmap_ok s dev" "b < sb_size (sb s)"
  shows "bfree dev b s =
     (if block_free s dev b then Panic ''freeing free block'' else Ok (free_block dev b s))"
proof -
  have a: "(dev, BBLOCK b (sb s)) \<notin> set (held s)" "BBLOCK b (sb s) < FSSIZE"
    using assms by (auto simp: bmap_ok_def)
  show ?thesis
    using txn_bread [OF assms(1) a] txn_log_write_held [OF assms(1)]
    by (simp add: bfree_def block_free_def free_block_def Let_def)
qed

lemma free_block_simps [simp]:
  "sb (free_block dev b s) = sb s" "held (free_block dev b s) = held s"
  "icache (free_block dev b s) = icache s" "mypid (free_block dev b s) = mypid s"
  "refcount_table (free_block dev b s) = refcount_table s" "ticks (free_block dev b s) = ticks s"
  by (simp_all add: free_block_def)

lemma free_block_free: "block_free (free_block dev b s) dev c \<longleftrightarrow> c = b \<or> block_free s dev c"
  unfolding free_block_def by (rule block_free_clear)

lemma free_block_bmap_ok: "bmap_ok s dev \<Longrightarrow> block_used s dev b \<Longrightarrow> bmap_ok (free_block dev b s) dev"
  by (auto simp: bmap_ok_def free_block_free block_used_def)

section \<open>The allocator as an interface\<close>

text \<open>
  What the clients of an allocator rely on: \<open>ok n s\<close> allows \<open>n\<close> more operations, an allocation
  returns a free item whenever there is one and takes exactly it, a release gives exactly
  its item back.
\<close>

locale allocator =
  fixes ok :: "nat \<Rightarrow> 's \<Rightarrow> bool" and isfree used :: "'s \<Rightarrow> nat \<Rightarrow> bool"
    and alloc :: "'s \<Rightarrow> (nat \<times> 's) res" and release :: "nat \<Rightarrow> 's \<Rightarrow> 's res"
  assumes alloc_law: "ok (Suc n) s \<Longrightarrow> isfree s x \<Longrightarrow> \<exists>b s'. alloc s = Ok (b, s') \<and> ok n s' \<and> isfree s b \<and>
        (\<forall>c. isfree s' c \<longleftrightarrow> isfree s c \<and> c \<noteq> b) \<and> (\<forall>c. used s' c \<longleftrightarrow> used s c \<or> c = b)"
    and release_law: "ok (Suc n) s \<Longrightarrow> used s b \<Longrightarrow> \<exists>s'. release b s = Ok s' \<and> ok n s' \<and>
        (\<forall>c. isfree s' c \<longleftrightarrow> isfree s c \<or> c = b) \<and> (\<forall>c. used s' c \<longleftrightarrow> used s c \<and> c \<noteq> b)"
    and used_not_free: "used s b \<Longrightarrow> \<not> isfree s b"
    and finite_free: "ok n s \<Longrightarrow> finite {b. isfree s b}"
begin

lemma alloc_many:
  assumes "ok (n + m) s" "n \<le> card {b. isfree s b}"
  shows "\<exists>bs s'. repeat_res n alloc s = Ok (bs, s') \<and> length bs = n \<and> distinct bs \<and> ok m s' \<and>
     (\<forall>b \<in> set bs. isfree s b) \<and> (\<forall>c. isfree s' c \<longleftrightarrow> isfree s c \<and> c \<notin> set bs) \<and>
     (\<forall>c. used s' c \<longleftrightarrow> used s c \<or> c \<in> set bs)"
  using assms
proof (induction n arbitrary: s)
  case 0
  then show ?case by simp
next
  case (Suc n)
  have ok: "ok (Suc (n + m)) s" using Suc.prems(1) by simp
  have "{b. isfree s b} \<noteq> {}" using Suc.prems(2) by (metis card.empty not_less_eq_eq zero_le)
  then obtain x where "isfree s x" by blast
  from alloc_law [OF ok this] obtain b s1 where s1: "alloc s = Ok (b, s1)" "ok (n + m) s1" "isfree s b"
    "\<And>c. isfree s1 c \<longleftrightarrow> isfree s c \<and> c \<noteq> b" "\<And>c. used s1 c \<longleftrightarrow> used s c \<or> c = b" by blast
  have "{c. isfree s1 c} = {c. isfree s c} - {b}" using s1(4) by blast
  then have "n \<le> card {c. isfree s1 c}"
    using Suc.prems(2) s1(3) finite_free [OF ok] by simp
  from Suc.IH [OF s1(2) this] obtain bs s' where bs: "repeat_res n alloc s1 = Ok (bs, s')" "length bs = n"
    "distinct bs" "ok m s'" "\<forall>b \<in> set bs. isfree s1 b" "\<forall>c. isfree s' c \<longleftrightarrow> isfree s1 c \<and> c \<notin> set bs"
    "\<forall>c. used s' c \<longleftrightarrow> used s1 c \<or> c \<in> set bs" by blast
  have "b \<notin> set bs" using bs(5) s1(4) by blast
  with s1 bs show ?case by (intro exI [of _ "b # bs"] exI [of _ s']) auto
qed

lemma release_many:
  assumes "ok (length bs + m) s" "distinct bs" "\<forall>b \<in> set bs. used s b"
  shows "\<exists>s'. each_res release bs s = Ok s' \<and> ok m s' \<and>
     (\<forall>c. isfree s' c \<longleftrightarrow> isfree s c \<or> c \<in> set bs)"
  using assms
proof (induction bs arbitrary: s)
  case Nil
  then show ?case by simp
next
  case (Cons b bs)
  have ok: "ok (Suc (length bs + m)) s" and u: "used s b" using Cons.prems by simp_all
  from release_law [OF ok u] obtain s1 where s1: "release b s = Ok s1" "ok (length bs + m) s1"
    "\<And>c. isfree s1 c \<longleftrightarrow> isfree s c \<or> c = b" "\<And>c. used s1 c \<longleftrightarrow> used s c \<and> c \<noteq> b" by blast
  have "\<forall>c \<in> set bs. used s1 c" using Cons.prems s1(4) by auto
  from Cons.IH [OF s1(2) _ this] Cons.prems s1 show ?case by auto
qed

lemma alloc_release:
  assumes "ok (n + n) s" "n \<le> card {b. isfree s b}"
  shows "\<exists>bs s' s''. repeat_res n alloc s = Ok (bs, s') \<and> distinct bs \<and> length bs = n \<and>
     (\<forall>b \<in> set bs. isfree s b \<and> \<not> isfree s' b) \<and>
     each_res release bs s' = Ok s'' \<and> (\<forall>c. isfree s'' c \<longleftrightarrow> isfree s c)"
proof -
  from alloc_many [OF assms] obtain bs s' where bs: "repeat_res n alloc s = Ok (bs, s')" "length bs = n"
    "distinct bs" "ok n s'" "\<forall>b \<in> set bs. isfree s b" "\<forall>c. isfree s' c \<longleftrightarrow> isfree s c \<and> c \<notin> set bs"
    "\<forall>c. used s' c \<longleftrightarrow> used s c \<or> c \<in> set bs" by blast
  have u: "\<forall>b \<in> set bs. used s' b" using bs(7) by blast
  have "ok (length bs + 0) s'" using bs(2,4) by simp
  from release_many [OF this bs(3) u] obtain s'' where
    s'': "each_res release bs s' = Ok s''" "\<forall>c. isfree s'' c \<longleftrightarrow> isfree s' c \<or> c \<in> set bs" by blast
  then have "\<forall>c. isfree s'' c \<longleftrightarrow> isfree s c" using bs(5,6) by blast
  with bs s''(1) show ?thesis by blast
qed

end

text \<open>The block allocator with room in the transaction for the logged blocks of \<open>n\<close> operations.\<close>

definition alloc_ok :: "nat \<Rightarrow> nat \<Rightarrow> 'z fs_state_scheme \<Rightarrow> bool" where
  "alloc_ok dev n s \<longleftrightarrow> txn (2 * n) 1 s \<and> bmap_ok s dev"

definition is_free :: "nat \<Rightarrow> 'z fs_state_scheme \<Rightarrow> nat \<Rightarrow> bool" where
  "is_free dev s b \<longleftrightarrow> b < sb_size (sb s) \<and> block_free s dev b"

definition is_used :: "nat \<Rightarrow> 'z fs_state_scheme \<Rightarrow> nat \<Rightarrow> bool" where
  "is_used dev s b \<longleftrightarrow> block_used s dev b"

lemma balloc_law:
  assumes "alloc_ok dev (Suc n) s" "is_free dev s x"
  shows "\<exists>b s'. balloc dev s = Ok (b, s') \<and> alloc_ok dev n s' \<and> is_free dev s b \<and>
     (\<forall>c. is_free dev s' c \<longleftrightarrow> is_free dev s c \<and> c \<noteq> b) \<and> (\<forall>c. is_used dev s' c \<longleftrightarrow> is_used dev s c \<or> c = b)"
proof -
  have t: "txn (Suc (Suc (2 * n))) 1 s" "bmap_ok s dev" using assms(1) by (simp_all add: alloc_ok_def)
  have t2: "txn 2 1 s" by (rule txn_mono [OF t(1)]) simp_all
  obtain b where b: "is_first_free s dev 0 b" "balloc dev s = Ok (b, alloc_block dev b s)"
    using balloc_ok [OF t2 t(2)] assms(2) unfolding is_free_def by blast
  have f: "b < sb_size (sb s)" "block_free s dev b" using b(1) by (auto simp: is_first_free_def)
  note af = alloc_block_free [OF t(2) f(2)]
  have "(dev, b) \<notin> set (held s)" using t(2) f by (auto simp: bmap_ok_def)
  then have "is_used dev (alloc_block dev b s) c \<longleftrightarrow> is_used dev s c \<or> c = b" for c
    using af [of c] f free_not_bitmap [OF t(2) f(2)] unfolding is_used_def block_used_def by auto
  moreover have "is_free dev (alloc_block dev b s) c \<longleftrightarrow> is_free dev s c \<and> c \<noteq> b" for c
    using af [of c] unfolding is_free_def by auto
  moreover have "alloc_ok dev n (alloc_block dev b s)"
    unfolding alloc_ok_def using alloc_block_txn [OF t(1)] alloc_block_bmap_ok [OF t(2) f(2)] by blast
  ultimately show ?thesis using b(2) f unfolding is_free_def by blast
qed

lemma bfree_law:
  assumes "alloc_ok dev (Suc n) s" "is_used dev s b"
  shows "\<exists>s'. bfree dev b s = Ok s' \<and> alloc_ok dev n s' \<and>
     (\<forall>c. is_free dev s' c \<longleftrightarrow> is_free dev s c \<or> c = b) \<and> (\<forall>c. is_used dev s' c \<longleftrightarrow> is_used dev s c \<and> c \<noteq> b)"
proof -
  have t: "txn (Suc (2 * n)) (Suc 0) s" "bmap_ok s dev"
    using assms(1) by (auto simp: alloc_ok_def elim: txn_mono)
  have u: "b < sb_size (sb s)" "\<not> block_free s dev b" using assms(2) by (auto simp: is_used_def block_used_def)
  have e: "bfree dev b s = Ok (free_block dev b s)" using bfree_eq [OF t u(1)] u(2) by simp
  have "alloc_ok dev n (free_block dev b s)"
    using txn_lupd [OF t(1)] free_block_bmap_ok [OF t(2)] assms(2)
    unfolding alloc_ok_def free_block_def [symmetric] is_used_def by (simp add: free_block_def)
  moreover have "is_free dev (free_block dev b s) c \<longleftrightarrow> is_free dev s c \<or> c = b" for c
    using u(1) by (auto simp: is_free_def free_block_free)
  moreover have "is_used dev (free_block dev b s) c \<longleftrightarrow> is_used dev s c \<and> c \<noteq> b" for c
    by (auto simp: is_used_def block_used_def free_block_free)
  ultimately show ?thesis using e by blast
qed

interpretation balc: allocator "alloc_ok dev" "is_free dev" "is_used dev" "balloc dev" "bfree dev" for dev
proof
  show "\<not> is_free dev s b" if "is_used dev s b" for s :: "'z fs_state_scheme" and b
    using that by (simp add: is_used_def is_free_def block_used_def)
  show "finite {b. is_free dev s b}" for s :: "'z fs_state_scheme"
    unfolding is_free_def by (rule finite_subset [of _ "{..<sb_size (sb s)}"]) auto
qed (rule balloc_law bfree_law; assumption)+

section \<open>Properties\<close>

text \<open>
  \<^bold>\<open>C25\<close>. \<^verbatim>\<open>balloc\<close> inside a transaction with room for two blocks: if the bitmap has a free block
  below \<^verbatim>\<open>sb.size\<close>, the lowest one is returned, reads as zeros and is no longer free, every
  other block keeps its state of use and every block but it and its bitmap block keeps
  its contents; if there is none, \<^verbatim>\<open>balloc\<close> panics.
\<close>

theorem balloc_first_free:
  assumes "txn 2 1 s" "bmap_ok s dev"
  shows "(if \<exists>b < sb_size (sb s). block_free s dev b
     then \<exists>b s'. balloc dev s = Ok (b, s') \<and> is_first_free s dev 0 b \<and> blks s' (dev, b) = (\<lambda>_. 0) \<and>
       (\<forall>c < sb_size (sb s). block_free s' dev c \<longleftrightarrow> c \<noteq> b \<and> block_free s dev c) \<and>
       (\<forall>a. a \<noteq> (dev, b) \<longrightarrow> a \<noteq> (dev, BBLOCK b (sb s)) \<longrightarrow> blks s' a = blks s a)
     else balloc dev s = Panic ''balloc: out of blocks'')"
proof (cases "\<exists>b < sb_size (sb s). block_free s dev b")
  case True
  from balloc_ok [OF assms True] obtain b where
    b: "is_first_free s dev 0 b" "balloc dev s = Ok (b, alloc_block dev b s)" .
  have f: "block_free s dev b" using b(1) by (simp add: is_first_free_def)
  show ?thesis
    using True b alloc_block_free [OF assms(2) f] by (auto simp: alloc_block_blks)
qed (use balloc_full [OF assms] in auto)

text \<open>
  \<^bold>\<open>C26\<close>. Allocation and release are inverse: with \<open>n\<close> free blocks and enough room in the log, \<open>n\<close>
  calls of \<^verbatim>\<open>balloc\<close> return \<open>n\<close> distinct blocks that were free and are not any more, and \<^verbatim>\<open>bfree\<close>
  of each of them succeeds and restores the set of free blocks.
\<close>

theorem balloc_bfree_roundtrip:
  assumes "alloc_ok dev (n + n) s" "n \<le> card {b. is_free dev s b}"
  shows "\<exists>bs s' s''. repeat_res n (balloc dev) s = Ok (bs, s') \<and> distinct bs \<and> length bs = n \<and>
     (\<forall>b \<in> set bs. is_free dev s b \<and> \<not> is_free dev s' b) \<and>
     each_res (bfree dev) bs s' = Ok s'' \<and> (\<forall>c. is_free dev s'' c \<longleftrightarrow> is_free dev s c)"
  by (rule balc.alloc_release [OF assms])

section \<open>A freshly made file system\<close>

text \<open>
  The disk mkfs makes, with an empty root directory: 59 blocks of metadata, the root inode
  in block 32, the bitmap in block 58 and the entries of the root directory in block 59.
\<close>

definition boot_blks :: "baddr \<Rightarrow> block" where
  "boot_blks a i =
     (if a = (1, 58) then if i < 7 then 255 else if i = 7 then 15 else 0
      else if a = (1, 32) then
        if i = 64 then 1 else if i = 70 then 1 else if i = 72 then 32 else if i = 76 then 59 else 0
      else if a = (1, 59) then
        if i = 0 then 1 else if i = 2 then 46 else if i = 16 then 1 else if i = 18 then 46 else if i = 19 then 46 else 0
      else 0)"

definition boot_sb :: superblock where
  "boot_sb = \<lparr>sb_size = 1000, sb_nblocks = 941, sb_ninodes = 200, sb_nlog = 30, sb_logstart = 2,
     sb_inodestart = 32, sb_bmapstart = 58, sb_journalstart = 0, sb_njournalblocks = 0\<rparr>"

definition boot_inode :: inode where
  "boot_inode = \<lparr>i_dev = 0, i_inum = 0, i_ref = 0, i_lock = \<lparr>locked = False, lk_pid = 0\<rparr>, i_valid = False,
     i_type = 0, i_major = 0, i_minor = 0, i_nlink = 0, i_size = 0, i_addrs = replicate 10 0,
     i_indirect = 0, i_create_time = 0, i_version_head = 0\<rparr>"

text \<open>Inside the first system call of process 1, with the root directory as its directory.\<close>

definition boot_fs :: fs_state where
  "boot_fs = con_state.extend
     (boot_con\<lparr>blks := boot_blks, disk := boot_blks,
        klog := \<lparr>log_start = 2, log_size = 30, outstanding = 1, committing = False, log_dev = 1, lh_block = []\<rparr>\<rparr>)
     \<lparr>sb = boot_sb, icache = boot_inode\<lparr>i_dev := 1, i_inum := 1, i_ref := 1\<rparr> # replicate 49 boot_inode,
      mypid = 1, cwd = 0\<rparr>"

lemma boot_fs_simps [simp]:
  "blks boot_fs = boot_blks" "held boot_fs = []" "dirty boot_fs = []" "sb boot_fs = boot_sb"
  "klog boot_fs = \<lparr>log_start = 2, log_size = 30, outstanding = 1, committing = False, log_dev = 1, lh_block = []\<rparr>"
  "icache boot_fs = boot_inode\<lparr>i_dev := 1, i_inum := 1, i_ref := 1\<rparr> # replicate 49 boot_inode"
  "mypid boot_fs = 1" "cwd boot_fs = 0" "ticks boot_fs = 0"
  "refcount_table boot_fs = refcount_table boot_gc"
  by (simp_all add: boot_fs_def con_state.defs boot_con_def gc_state.defs boot_gc_def)

lemma boot_txn: "n + h \<le> 29 \<Longrightarrow> txn n h boot_fs"
  by (simp add: txn_def)

lemma boot_block_free: "b < 4096 \<Longrightarrow> block_free boot_fs 1 b \<longleftrightarrow> 60 \<le> b"
proof -
  assume b: "b < 4096"
  have low: "bit (255 :: byte) k \<longleftrightarrow> k < 8" "bit (15 :: byte) k \<longleftrightarrow> k < 4" for k
    using bit_mask_iff [of 8 k, where ?'a = byte] bit_mask_iff [of 4 k, where ?'a = byte]
    by (auto simp: mask_eq_exp_minus_1)
  have "block_free boot_fs 1 b \<longleftrightarrow> \<not> (b div 8 < 7 \<or> b div 8 = 7 \<and> b mod 8 < 4)"
    using b low [of "b mod 8"] by (auto simp: block_free_def BBLOCK_def boot_sb_def bit_free_iff boot_blks_def)
  also have "\<dots> \<longleftrightarrow> 60 \<le> b" by presburger
  finally show ?thesis .
qed

lemma boot_bmap_ok: "bmap_ok boot_fs 1"
  unfolding bmap_ok_def using boot_block_free by (auto simp: boot_sb_def BBLOCK_def)

theorem balloc_first_free_witness: "\<exists>s'. balloc 1 boot_fs = Ok (60, s') \<and> blks s' (1, 60) = (\<lambda>_. 0)"
proof -
  have ex: "\<exists>b < sb_size (sb boot_fs). block_free boot_fs 1 b"
    using boot_block_free [of 60] by (intro exI [of _ 60]) (simp add: boot_sb_def)
  have first: "is_first_free boot_fs 1 0 b \<longleftrightarrow> b = 60" if "b < 1000" for b
    using boot_block_free that
    by (auto simp: is_first_free_def boot_sb_def dest: spec [of _ 60] intro: ccontr)
  have "txn 2 1 boot_fs" by (rule boot_txn) simp
  from balloc_first_free [OF this boot_bmap_ok] ex obtain b s' where
    b: "balloc 1 boot_fs = Ok (b, s')" "is_first_free boot_fs 1 0 b" "blks s' (1, b) = (\<lambda>_. 0)"
    by auto
  have "b = 60" using b(2) first [of b] by (auto simp: is_first_free_def boot_sb_def)
  with b show ?thesis by auto
qed

theorem balloc_bfree_roundtrip_witness:
  "\<exists>bs s' s''. repeat_res 3 (balloc 1) boot_fs = Ok (bs, s') \<and> length bs = 3 \<and> each_res (bfree 1) bs s' = Ok s''"
proof -
  have "{b. is_free 1 boot_fs b} = {60..<1000}"
    using boot_block_free by (auto simp: is_free_def boot_sb_def)
  moreover have "alloc_ok 1 (3 + 3) boot_fs"
    using boot_txn [of 12 1] boot_bmap_ok by (simp add: alloc_ok_def)
  ultimately show ?thesis using balloc_bfree_roundtrip [of 1 3 boot_fs] by auto
qed

end
