(* ===== verification/Inode.thy ===== *)
theory Inode
  imports Alloc
begin

text \<open>
  Inodes of fs.c: the on-disk encoding, the inode cache (\<^verbatim>\<open>iget\<close>, \<^verbatim>\<open>idup\<close>, \<^verbatim>\<open>ilock\<close>, \<^verbatim>\<open>iunlock\<close>,
  \<^verbatim>\<open>iput\<close>), allocation and write-back of inodes (\<^verbatim>\<open>ialloc\<close>, \<^verbatim>\<open>iupdate\<close>), the block map of a file
  (\<^verbatim>\<open>bmap\<close>) and truncation (\<^verbatim>\<open>itrunc\<close>). An inode pointer is an index into the cache; the functions
  that may return NULL return an option, and their callers test it, so the tests for a NULL
  argument in \<^verbatim>\<open>ilock\<close> and \<^verbatim>\<open>iunlock\<close> have no counterpart.
\<close>

abbreviation (input) T_DIR :: int where "T_DIR \<equiv> 1"
abbreviation (input) T_FILE :: int where "T_FILE \<equiv> 2"
abbreviation (input) T_DEV :: int where "T_DEV \<equiv> 3"
abbreviation (input) ROOTINO :: nat where "ROOTINO \<equiv> 1"

section \<open>The on-disk inode\<close>

record dinode =
  d_type :: int
  d_major :: int
  d_minor :: int
  d_nlink :: int
  d_size :: nat
  d_addrs :: "nat list"
  d_indirect :: nat
  d_create_time :: nat
  d_version_head :: nat

text \<open>\<^verbatim>\<open>(struct dinode*)bp->data + inum%IPB\<close>: 64 bytes per inode.\<close>

definition dip_off :: "nat \<Rightarrow> nat" where
  "dip_off inum = 64 * (inum mod IPB)"

definition get_dinode :: "block \<Rightarrow> nat \<Rightarrow> dinode" where
  "get_dinode b off =
     \<lparr>d_type = to_short (get16 b off), d_major = to_short (get16 b (off + 2)),
      d_minor = to_short (get16 b (off + 4)), d_nlink = to_short (get16 b (off + 6)),
      d_size = get32 b (off + 8), d_addrs = get_words b (off + 12) 10,
      d_indirect = get32 b (off + 52), d_create_time = get32 b (off + 56),
      d_version_head = get32 b (off + 60)\<rparr>"

definition put_dinode :: "block \<Rightarrow> nat \<Rightarrow> dinode \<Rightarrow> block" where
  "put_dinode b off d =
     (let b = put16 b off (of_short (d_type d));
          b = put16 b (off + 2) (of_short (d_major d));
          b = put16 b (off + 4) (of_short (d_minor d));
          b = put16 b (off + 6) (of_short (d_nlink d));
          b = put32 b (off + 8) (d_size d);
          b = put_words b (off + 12) (d_addrs d);
          b = put32 b (off + 52) (d_indirect d);
          b = put32 b (off + 56) (d_create_time d) in
      put32 b (off + 60) (d_version_head d))"

section \<open>The inode cache\<close>

definition set_ino :: "nat \<Rightarrow> (inode \<Rightarrow> inode) \<Rightarrow> 'z fs_state_scheme \<Rightarrow> 'z fs_state_scheme" where
  "set_ino ip f s = s\<lparr>icache := (icache s)[ip := f (icache s ! ip)]\<rparr>"

definition iinit :: "nat \<Rightarrow> 'z fs_state_scheme \<Rightarrow> 'z fs_state_scheme res" where
  "iinit dev s =
     (let s = s\<lparr>icache := map (\<lambda>ip. ip\<lparr>i_lock := initsleeplock (i_lock ip)\<rparr>) (icache s)\<rparr> in
      rbind (readsb dev s) (\<lambda>(sp, s).
      let s = s\<lparr>sb := sp\<rparr> in
      cprintf (lit ''sb: size %d nblocks %d ninodes %d nlog %d logstart %d inodestart %d bmap start %d'' @ [10])
        (map (\<lambda>n. CInt (of_nat n)) [sb_size sp, sb_nblocks sp, sb_ninodes sp, sb_nlog sp, sb_logstart sp,
           sb_inodestart sp, sb_bmapstart sp]) s))"

text \<open>The scan of \<^verbatim>\<open>iget\<close>: a cached entry with references, or the first one without.\<close>

definition iget :: "nat \<Rightarrow> nat \<Rightarrow> 'z fs_state_scheme \<Rightarrow> (nat \<times> 'z fs_state_scheme) res" where
  "iget dev inum s =
     (case first_idx (\<lambda>ip. 0 < i_ref ip \<and> i_dev ip = dev \<and> i_inum ip = inum) (icache s) of
        Some ip \<Rightarrow> Ok (ip, set_ino ip (\<lambda>i. i\<lparr>i_ref := i_ref i + 1\<rparr>) s)
      | None \<Rightarrow>
          (case first_idx (\<lambda>ip. i_ref ip = 0) (icache s) of
             None \<Rightarrow> Panic ''iget: no inodes''
           | Some emp \<Rightarrow>
               Ok (emp, set_ino emp (\<lambda>i. i\<lparr>i_dev := dev, i_inum := inum, i_ref := 1, i_valid := False\<rparr>) s)))"

text \<open>The scan of \<^verbatim>\<open>ialloc\<close> over the inode numbers \<open>inums\<close>.\<close>

primrec ialloc_loop :: "nat \<Rightarrow> int \<Rightarrow> nat list \<Rightarrow> 'z fs_state_scheme \<Rightarrow> (nat \<times> 'z fs_state_scheme) res" where
  "ialloc_loop dev type [] s = Panic ''ialloc: no inodes''"
| "ialloc_loop dev type (inum # inums) s =
     rbind (bread dev (IBLOCK inum (sb s)) s) (\<lambda>(bp, s).
     let dip = get_dinode (b_data bp) (dip_off inum) in
     if d_type dip = 0 then
       let dip = \<lparr>d_type = type, d_major = 0, d_minor = 0, d_nlink = 0, d_size = 0, d_addrs = replicate 10 0,
                  d_indirect = 0, d_create_time = ticks s, d_version_head = 0\<rparr>;
           bp = bp\<lparr>b_data := put_dinode (b_data bp) (dip_off inum) dip\<rparr> in
       rbind (log_write bp s) (\<lambda>s.
       rbind (brelse bp s) (\<lambda>s.
       iget dev inum s))
     else
       rbind (brelse bp s) (\<lambda>s.
       ialloc_loop dev type inums s))"

definition ialloc :: "nat \<Rightarrow> int \<Rightarrow> 'z fs_state_scheme \<Rightarrow> (nat \<times> 'z fs_state_scheme) res" where
  "ialloc dev type s = ialloc_loop dev type [1..<sb_ninodes (sb s)] s"

definition dinode_of :: "inode \<Rightarrow> dinode" where
  "dinode_of ip =
     \<lparr>d_type = i_type ip, d_major = i_major ip, d_minor = i_minor ip, d_nlink = i_nlink ip,
      d_size = i_size ip, d_addrs = i_addrs ip, d_indirect = i_indirect ip,
      d_create_time = i_create_time ip, d_version_head = i_version_head ip\<rparr>"

definition iupdate :: "nat \<Rightarrow> 'z fs_state_scheme \<Rightarrow> 'z fs_state_scheme res" where
  "iupdate ip s =
     (let i = icache s ! ip in
      rbind (bread (i_dev i) (IBLOCK (i_inum i) (sb s)) s) (\<lambda>(bp, s).
      let bp = bp\<lparr>b_data := put_dinode (b_data bp) (dip_off (i_inum i)) (dinode_of i)\<rparr> in
      rbind (log_write bp s) (\<lambda>s.
      brelse bp s)))"

definition idup :: "nat \<Rightarrow> 'z fs_state_scheme \<Rightarrow> nat \<times> 'z fs_state_scheme" where
  "idup ip s = (ip, set_ino ip (\<lambda>i. i\<lparr>i_ref := i_ref i + 1\<rparr>) s)"

definition load_dinode :: "dinode \<Rightarrow> inode \<Rightarrow> inode" where
  "load_dinode d i =
     i\<lparr>i_type := d_type d, i_major := d_major d, i_minor := d_minor d, i_nlink := d_nlink d,
       i_size := d_size d, i_addrs := d_addrs d, i_indirect := d_indirect d,
       i_create_time := d_create_time d, i_version_head := d_version_head d\<rparr>"

definition ilock :: "nat \<Rightarrow> 'z fs_state_scheme \<Rightarrow> 'z fs_state_scheme res" where
  "ilock ip s =
     (if i_ref (icache s ! ip) < 1 then Panic ''ilock''
      else
        rbind (acquiresleep (mypid s) (i_lock (icache s ! ip))) (\<lambda>lk.
        let s = set_ino ip (\<lambda>i. i\<lparr>i_lock := lk\<rparr>) s; i = icache s ! ip in
        if \<not> i_valid i then
          rbind (bread (i_dev i) (IBLOCK (i_inum i) (sb s)) s) (\<lambda>(bp, s).
          let s = set_ino ip (load_dinode (get_dinode (b_data bp) (dip_off (i_inum i)))) s in
          rbind (brelse bp s) (\<lambda>s.
          let s = set_ino ip (\<lambda>i. i\<lparr>i_valid := True\<rparr>) s in
          if i_type (icache s ! ip) = 0 then Panic ''ilock: no type'' else Ok s))
        else Ok s))"

definition iunlock :: "nat \<Rightarrow> 'z fs_state_scheme \<Rightarrow> 'z fs_state_scheme res" where
  "iunlock ip s =
     (let i = icache s ! ip in
      if \<not> holdingsleep (mypid s) (i_lock i) \<or> i_ref i < 1 then Panic ''iunlock''
      else Ok (set_ino ip (\<lambda>i. i\<lparr>i_lock := releasesleep (i_lock i)\<rparr>) s))"

section \<open>Block map and truncation\<close>

definition bmap :: "nat \<Rightarrow> nat \<Rightarrow> 'z fs_state_scheme \<Rightarrow> (nat \<times> 'z fs_state_scheme) res" where
  "bmap ip bn s =
     (let i = icache s ! ip in
      if bn < NDIRECT then
        if i_addrs i ! bn = 0 then
          rbind (balloc (i_dev i) s) (\<lambda>(addr, s).
          Ok (addr, set_ino ip (\<lambda>i. i\<lparr>i_addrs := (i_addrs i)[bn := addr]\<rparr>) s))
        else Ok (i_addrs i ! bn, s)
      else
        let bn = bn - NDIRECT in
        if bn < NINDIRECT then
          rbind (if i_indirect i = 0 then
                   rbind (balloc (i_dev i) s) (\<lambda>(addr, s).
                   Ok (addr, set_ino ip (\<lambda>i. i\<lparr>i_indirect := addr\<rparr>) s))
                 else Ok (i_indirect i, s)) (\<lambda>(addr, s).
          rbind (bread (i_dev i) addr s) (\<lambda>(bp, s).
          let addr = get32 (b_data bp) (4 * bn) in
          rbind (if addr = 0 then
                   rbind (balloc (i_dev i) s) (\<lambda>(addr, s).
                   let bp = bp\<lparr>b_data := put32 (b_data bp) (4 * bn) addr\<rparr> in
                   rbind (log_write bp s) (\<lambda>s.
                   Ok (addr, s)))
                 else Ok (addr, s)) (\<lambda>(addr, s).
          rbind (brelse bp s) (\<lambda>s.
          Ok (addr, s)))))
        else Panic ''bmap: out of range'')"

text \<open>One pass of the loop over the direct blocks.\<close>

definition itrunc_direct :: "nat \<Rightarrow> nat \<Rightarrow> 'z fs_state_scheme \<Rightarrow> 'z fs_state_scheme res" where
  "itrunc_direct ip i s =
     (let dev = i_dev (icache s ! ip); a = i_addrs (icache s ! ip) ! i in
      if a \<noteq> 0 then
        rbind (if bref_is_tracked a s then
                 (case bref_dec a s of (r, s) \<Rightarrow> if r = 0 then bfree dev a s else Ok s)
               else bfree dev a s) (\<lambda>s.
        Ok (set_ino ip (\<lambda>n. n\<lparr>i_addrs := (i_addrs n)[i := 0]\<rparr>) s))
      else Ok s)"

definition itrunc :: "nat \<Rightarrow> 'z fs_state_scheme \<Rightarrow> 'z fs_state_scheme res" where
  "itrunc ip s =
     rbind (each_res (itrunc_direct ip) [0..<NDIRECT] s) (\<lambda>s.
     let dev = i_dev (icache s ! ip); ind = i_indirect (icache s ! ip) in
     rbind (if ind \<noteq> 0 then
              rbind (bread dev ind s) (\<lambda>(bp, s).
              rbind (each_res (\<lambda>j s. let a = get32 (b_data bp) (4 * j) in
                       if a \<noteq> 0 then bfree dev a s else Ok s) [0..<NINDIRECT] s) (\<lambda>s.
              rbind (brelse bp s) (\<lambda>s.
              rbind (bfree dev ind s) (\<lambda>s.
              Ok (set_ino ip (\<lambda>n. n\<lparr>i_indirect := 0\<rparr>) s)))))
            else Ok s) (\<lambda>s.
     iupdate ip (set_ino ip (\<lambda>n. n\<lparr>i_size := 0\<rparr>) s)))"

definition iput :: "nat \<Rightarrow> 'z fs_state_scheme \<Rightarrow> 'z fs_state_scheme res" where
  "iput ip s =
     rbind (acquiresleep (mypid s) (i_lock (icache s ! ip))) (\<lambda>lk.
     let s = set_ino ip (\<lambda>i. i\<lparr>i_lock := lk\<rparr>) s; i = icache s ! ip in
     rbind (if i_valid i \<and> i_nlink i = 0 \<and> i_ref i = 1 then
              rbind (itrunc ip s) (\<lambda>s.
              rbind (iupdate ip (set_ino ip (\<lambda>n. n\<lparr>i_type := 0\<rparr>) s)) (\<lambda>s.
              Ok (set_ino ip (\<lambda>n. n\<lparr>i_valid := False\<rparr>) s)))
            else Ok s) (\<lambda>s.
     let s = set_ino ip (\<lambda>i. i\<lparr>i_lock := releasesleep (i_lock i)\<rparr>) s in
     Ok (set_ino ip (\<lambda>i. i\<lparr>i_ref := i_ref i - 1\<rparr>) s)))"

definition iunlockput :: "nat \<Rightarrow> 'z fs_state_scheme \<Rightarrow> 'z fs_state_scheme res" where
  "iunlockput ip s = rbind (iunlock ip s) (iput ip)"

record stat =
  st_type :: int
  st_dev :: nat
  st_ino :: nat
  st_nlink :: int
  st_size :: nat

definition stati :: "nat \<Rightarrow> 'z fs_state_scheme \<Rightarrow> stat" where
  "stati ip s =
     (let i = icache s ! ip in
      \<lparr>st_type = i_type i, st_dev = i_dev i, st_ino = i_inum i, st_nlink = i_nlink i, st_size = i_size i\<rparr>)"

section \<open>Encoding and decoding\<close>

definition dinode_wf :: "dinode \<Rightarrow> bool" where
  "dinode_wf d \<longleftrightarrow> is_short (d_type d) \<and> is_short (d_major d) \<and> is_short (d_minor d) \<and> is_short (d_nlink d) \<and>
     d_size d < 4294967296 \<and> length (d_addrs d) = 10 \<and> (\<forall>a \<in> set (d_addrs d). a < 4294967296) \<and>
     d_indirect d < 4294967296 \<and> d_create_time d < 4294967296 \<and> d_version_head d < 4294967296"

lemma get_words_put32_other [field_simps_disk]:
  "off' + 4 * n \<le> off \<or> off + 4 \<le> off' \<Longrightarrow> get_words (put32 b off v) off' n = get_words b off' n"
  by (auto simp: get_words_def get32_put32_other)

lemma get_words_put16_other [field_simps_disk]:
  "off' + 4 * n \<le> off \<or> off + 2 \<le> off' \<Longrightarrow> get_words (put16 b off v) off' n = get_words b off' n"
  by (auto simp: get_words_def get32_put16_other)

lemma get_words_put_words_other [field_simps_disk]:
  "off' + 4 * n \<le> off \<or> off + 4 * length xs \<le> off' \<Longrightarrow> get_words (put_words b off xs) off' n = get_words b off' n"
  by (auto simp: get_words_def get32_put_words_other)

lemma get_words_put_words_same:
  "length xs = n \<Longrightarrow> \<forall>a \<in> set xs. a < 4294967296 \<Longrightarrow> get_words (put_words b off xs) off n = xs"
  using get_words_put_words [of b off xs] by (auto simp: map_idI)

lemma get_put_dinode [simp]: "dinode_wf d \<Longrightarrow> get_dinode (put_dinode b off d) off = d"
  by (cases d) (simp add: dinode_wf_def get_dinode_def put_dinode_def Let_def field_simps_disk get_words_put_words_same)

lemma get_put_dinode_other:
  "length (d_addrs d) = 10 \<Longrightarrow> off' + 64 \<le> off \<or> off + 64 \<le> off' \<Longrightarrow>
     get_dinode (put_dinode b off d) off' = get_dinode b off'"
  by (auto simp: get_dinode_def put_dinode_def Let_def field_simps_disk)

lemma dip_off_other: "i mod IPB \<noteq> j mod IPB \<Longrightarrow> dip_off j + 64 \<le> dip_off i \<or> dip_off i + 64 \<le> dip_off j"
  unfolding dip_off_def by linarith

lemma IBLOCK_inj: "IBLOCK i sp = IBLOCK j sp \<Longrightarrow> i mod IPB = j mod IPB \<Longrightarrow> i = j"
proof -
  assume e: "IBLOCK i sp = IBLOCK j sp" "i mod IPB = j mod IPB"
  then have "i div IPB = j div IPB" by (simp add: IBLOCK_def)
  with e(2) have "i div IPB * IPB + i mod IPB = j div IPB * IPB + j mod IPB" by simp
  then show "i = j" by simp
qed

text \<open>The inode \<open>inum\<close> as it is stored in the blocks of the device.\<close>

definition disk_inode :: "'z fs_state_scheme \<Rightarrow> nat \<Rightarrow> nat \<Rightarrow> dinode" where
  "disk_inode s dev inum = get_dinode (blks s (dev, IBLOCK inum (sb s))) (dip_off inum)"

text \<open>Storing the inode \<open>inum\<close>.\<close>

definition store_dinode :: "nat \<Rightarrow> nat \<Rightarrow> dinode \<Rightarrow> 'z fs_state_scheme \<Rightarrow> 'z fs_state_scheme" where
  "store_dinode dev inum d s =
     lupd (dev, IBLOCK inum (sb s)) (put_dinode (blks s (dev, IBLOCK inum (sb s))) (dip_off inum) d) s"

lemma store_dinode_simps [simp]:
  "sb (store_dinode dev inum d s) = sb s" "held (store_dinode dev inum d s) = held s"
  "icache (store_dinode dev inum d s) = icache s" "mypid (store_dinode dev inum d s) = mypid s"
  "refcount_table (store_dinode dev inum d s) = refcount_table s" "ticks (store_dinode dev inum d s) = ticks s"
  by (simp_all add: store_dinode_def)

lemma disk_inode_store:
  assumes "dinode_wf d"
  shows "disk_inode (store_dinode dev inum d s) dev j = (if j = inum then d else disk_inode s dev j)"
proof (cases "j = inum")
  case True
  then show ?thesis using assms by (simp add: disk_inode_def store_dinode_def)
next
  case False
  show ?thesis
  proof (cases "IBLOCK j (sb s) = IBLOCK inum (sb s)")
    case True
    with False have "inum mod IPB \<noteq> j mod IPB" using IBLOCK_inj [of j "sb s" inum] by auto
    with True False assms show ?thesis
      by (simp add: disk_inode_def store_dinode_def get_put_dinode_other [OF _ dip_off_other] dinode_wf_def)
  qed (use False in \<open>simp add: disk_inode_def store_dinode_def\<close>)
qed

section \<open>Rules for the cache\<close>

lemma set_ino_simps [simp]:
  "blks (set_ino ip f s) = blks s" "held (set_ino ip f s) = held s" "dirty (set_ino ip f s) = dirty s"
  "klog (set_ino ip f s) = klog s" "disk (set_ino ip f s) = disk s" "wtrace (set_ino ip f s) = wtrace s"
  "ticks (set_ino ip f s) = ticks s" "refcount_table (set_ino ip f s) = refcount_table s"
  "sb (set_ino ip f s) = sb s" "mypid (set_ino ip f s) = mypid s" "cwd (set_ino ip f s) = cwd s"
  "icache (set_ino ip f s) = (icache s)[ip := f (icache s ! ip)]"
  by (simp_all add: set_ino_def)

lemma txn_set_ino [simp]: "txn n h (set_ino ip f s) = txn n h s"
  by (simp add: txn_def)

lemma block_free_set_ino [simp]: "block_free (set_ino ip f s) = block_free s"
  by (simp add: block_free_def fun_eq_iff)

lemma bmap_ok_set_ino [simp]: "bmap_ok (set_ino ip f s) = bmap_ok s"
  by (simp add: bmap_ok_def fun_eq_iff)

lemma block_used_set_ino [simp]: "block_used (set_ino ip f s) = block_used s"
  by (simp add: block_used_def fun_eq_iff)

lemma set_ino_held: "set_ino ip f (s\<lparr>held := h\<rparr>) = (set_ino ip f s)\<lparr>held := h\<rparr>"
  by (simp add: set_ino_def)

lemma set_ino_lupd: "set_ino ip f (lupd a v s) = lupd a v (set_ino ip f s)"
  by (simp add: set_ino_def lupd_def)

lemma set_ino_twice: "set_ino ip g (set_ino ip f s) = set_ino ip (\<lambda>i. g (f i)) s"
  by (cases "ip < length (icache s)") (simp_all add: set_ino_def list_update_beyond)

lemma set_ino_held_same [simp]: "(set_ino ip f s)\<lparr>held := held s\<rparr> = set_ino ip f s"
  by (simp add: set_ino_def)

lemma iupdate_eq:
  assumes "txn (Suc n) (Suc h) s" "i = icache s ! ip"
    and "(i_dev i, IBLOCK (i_inum i) (sb s)) \<notin> set (held s)" "IBLOCK (i_inum i) (sb s) < FSSIZE"
  shows "iupdate ip s = Ok (store_dinode (i_dev i) (i_inum i) (dinode_of i) s)"
  using logged_update [OF assms(1,3,4), of "\<lambda>d. put_dinode d (dip_off (i_inum i)) (dinode_of i)"] assms(2)
  by (simp add: iupdate_def Let_def store_dinode_def)

lemma acquired [simp]: "lk\<lparr>locked := True, lk_pid := p\<rparr> = \<lparr>locked = True, lk_pid = p\<rparr>"
  by (cases lk) simp

lemma released [simp]: "releasesleep lk = \<lparr>locked = False, lk_pid = 0\<rparr>"
  by (cases lk) (simp add: releasesleep_def)

lemma load_dinode_simps [simp]:
  "i_type (load_dinode d n) = d_type d" "i_dev (load_dinode d n) = i_dev n" "i_inum (load_dinode d n) = i_inum n"
  "i_ref (load_dinode d n) = i_ref n" "i_lock (load_dinode d n) = i_lock n" "i_valid (load_dinode d n) = i_valid n"
  "load_dinode d (n\<lparr>i_lock := l\<rparr>) = (load_dinode d n)\<lparr>i_lock := l\<rparr>"
  "load_dinode d (n\<lparr>i_valid := v\<rparr>) = (load_dinode d n)\<lparr>i_valid := v\<rparr>"
  "load_dinode d (load_dinode d' n) = load_dinode d n" "load_dinode (dinode_of n) n = n"
  "dinode_of (load_dinode d n) = d" "d_type (dinode_of n) = i_type n" "d_addrs (dinode_of n) = i_addrs n"
  by (simp_all add: load_dinode_def dinode_of_def)

lemma ilock_valid:
  assumes "1 \<le> i_ref (icache s ! ip)" "\<not> locked (i_lock (icache s ! ip))" "i_valid (icache s ! ip)"
    and "ip < length (icache s)"
  shows "ilock ip s = Ok (set_ino ip (\<lambda>i. i\<lparr>i_lock := \<lparr>locked = True, lk_pid = mypid s\<rparr>\<rparr>) s)"
  using assms by (simp add: ilock_def acquiresleep_def Let_def)

lemma ilock_reload:
  assumes "txn n (Suc h) s" "i = icache s ! ip" "1 \<le> i_ref i" "\<not> locked (i_lock i)" "\<not> i_valid i"
    and "(i_dev i, IBLOCK (i_inum i) (sb s)) \<notin> set (held s)" "IBLOCK (i_inum i) (sb s) < FSSIZE"
    and "ip < length (icache s)"
  shows "ilock ip s =
     (if d_type (disk_inode s (i_dev i) (i_inum i)) = 0 then Panic ''ilock: no type''
      else Ok (set_ino ip (\<lambda>n. (load_dinode (disk_inode s (i_dev i) (i_inum i)) n)
                 \<lparr>i_lock := \<lparr>locked = True, lk_pid = mypid s\<rparr>, i_valid := True\<rparr>) s))"
proof -
  let ?u = "set_ino ip (\<lambda>n. n\<lparr>i_lock := \<lparr>locked = True, lk_pid = mypid s\<rparr>\<rparr>) s"
  have "bread (i_dev i) (IBLOCK (i_inum i) (sb s)) ?u =
      Ok (\<lparr>b_dev = i_dev i, b_blockno = IBLOCK (i_inum i) (sb s),
           b_data = blks s (i_dev i, IBLOCK (i_inum i) (sb s))\<rparr>,
          ?u\<lparr>held := (i_dev i, IBLOCK (i_inum i) (sb s)) # held s\<rparr>)"
    using txn_bread [of n h ?u "i_dev i"] assms by simp
  then show ?thesis
    using assms by (simp add: ilock_def acquiresleep_def Let_def disk_inode_def set_ino_held set_ino_twice)
qed

lemma dinode_wf_simple:
  "is_short t \<Longrightarrow> is_short n \<Longrightarrow> sz < 4294967296 \<Longrightarrow> dinode_wf \<lparr>d_type = t, d_major = 0, d_minor = 0, d_nlink = n,
     d_size = sz, d_addrs = replicate 10 0, d_indirect = 0, d_create_time = 0, d_version_head = 0\<rparr>"
  by (simp add: dinode_wf_def is_short_def)

section \<open>One cache entry per inode\<close>

definition icache_ok :: "'z fs_state_scheme \<Rightarrow> bool" where
  "icache_ok s \<longleftrightarrow>
     (\<forall>i < length (icache s). 0 \<le> i_ref (icache s ! i)) \<and>
     (\<forall>i < length (icache s). \<forall>j < length (icache s). 0 < i_ref (icache s ! i) \<and> 0 < i_ref (icache s ! j) \<and>
        i_dev (icache s ! i) = i_dev (icache s ! j) \<and> i_inum (icache s ! i) = i_inum (icache s ! j) \<longrightarrow> i = j)"

text \<open>The entry \<open>ip\<close> caches the inode \<open>inum\<close> of \<open>dev\<close>; its number of references, if any does.\<close>

definition caches :: "'z fs_state_scheme \<Rightarrow> nat \<Rightarrow> nat \<Rightarrow> nat \<Rightarrow> bool" where
  "caches s dev inum ip \<longleftrightarrow> ip < length (icache s) \<and> 0 < i_ref (icache s ! ip) \<and>
     i_dev (icache s ! ip) = dev \<and> i_inum (icache s ! ip) = inum"

definition irefs :: "'z fs_state_scheme \<Rightarrow> nat \<Rightarrow> nat \<Rightarrow> int" where
  "irefs s dev inum =
     (case first_idx (\<lambda>i. 0 < i_ref i \<and> i_dev i = dev \<and> i_inum i = inum) (icache s) of
        Some ip \<Rightarrow> i_ref (icache s ! ip) | None \<Rightarrow> 0)"

lemma caches_unique: "icache_ok s \<Longrightarrow> caches s dev inum i \<Longrightarrow> caches s dev inum j \<Longrightarrow> i = j"
  by (auto simp: icache_ok_def caches_def)

lemma icache_okI:
  assumes "\<And>i. i < length (icache s) \<Longrightarrow> 0 \<le> i_ref (icache s ! i)"
    and "\<And>dev inum i j. caches s dev inum i \<Longrightarrow> caches s dev inum j \<Longrightarrow> i = j"
  shows "icache_ok s"
  unfolding icache_ok_def using assms(1) assms(2) [unfolded caches_def] by blast

lemma icache_ok_ref: "icache_ok s \<Longrightarrow> i < length (icache s) \<Longrightarrow> 0 \<le> i_ref (icache s ! i)"
  by (simp add: icache_ok_def)

lemma first_idx_caches:
  assumes "icache_ok s"
  shows "first_idx (\<lambda>i. 0 < i_ref i \<and> i_dev i = dev \<and> i_inum i = inum) (icache s) = Some ip \<longleftrightarrow> caches s dev inum ip"
proof
  assume "caches s dev inum ip"
  moreover from this have "\<not> caches s dev inum j" if "j < ip" for j
    using caches_unique [OF assms, of dev inum j ip] that by auto
  ultimately show "first_idx (\<lambda>i. 0 < i_ref i \<and> i_dev i = dev \<and> i_inum i = inum) (icache s) = Some ip"
    by (auto simp: first_idx_Some caches_def)
qed (auto simp: first_idx_Some caches_def)

lemma first_idx_caches_None:
  "first_idx (\<lambda>i. 0 < i_ref i \<and> i_dev i = dev \<and> i_inum i = inum) (icache s) = None \<longleftrightarrow> (\<forall>ip. \<not> caches s dev inum ip)"
  unfolding first_idx_None all_set_conv_all_nth caches_def by auto

lemma iget_hit:
  assumes "icache_ok s" "caches s dev inum ip"
  shows "iget dev inum s = Ok (ip, set_ino ip (\<lambda>i. i\<lparr>i_ref := i_ref i + 1\<rparr>) s)"
  unfolding iget_def first_idx_caches [OF assms(1), THEN iffD2, OF assms(2)] by simp

lemma irefs_caches: "icache_ok s \<Longrightarrow> caches s dev inum ip \<Longrightarrow> irefs s dev inum = i_ref (icache s ! ip)"
  using first_idx_caches [of s dev inum ip] by (simp add: irefs_def)

lemma irefs_none: "(\<And>ip. \<not> caches s dev inum ip) \<Longrightarrow> irefs s dev inum = 0"
proof -
  assume "\<And>ip. \<not> caches s dev inum ip"
  then have "first_idx (\<lambda>i. 0 < i_ref i \<and> i_dev i = dev \<and> i_inum i = inum) (icache s) = None"
    using first_idx_caches_None [of dev inum s] by blast
  then show ?thesis unfolding irefs_def by (simp only: option.simps)
qed

lemma iget_cases:
  assumes "icache_ok s"
  obtains (hit) ip where "caches s dev inum ip" "iget dev inum s = Ok (ip, set_ino ip (\<lambda>i. i\<lparr>i_ref := i_ref i + 1\<rparr>) s)"
  | (miss) ip where "\<forall>j. \<not> caches s dev inum j" "ip < length (icache s)" "i_ref (icache s ! ip) = 0"
      "iget dev inum s = Ok (ip, set_ino ip (\<lambda>i. i\<lparr>i_dev := dev, i_inum := inum, i_ref := 1, i_valid := False\<rparr>) s)"
  | (full) "\<forall>j. \<not> caches s dev inum j" "\<forall>i < length (icache s). i_ref (icache s ! i) \<noteq> 0"
      "iget dev inum s = Panic ''iget: no inodes''"
proof (cases "first_idx (\<lambda>i. 0 < i_ref i \<and> i_dev i = dev \<and> i_inum i = inum) (icache s)")
  case (Some ip)
  then have c: "caches s dev inum ip" using first_idx_caches [OF assms] by blast
  show thesis by (rule hit [OF c iget_hit [OF assms c]])
next
  case None
  then have nc: "\<forall>j. \<not> caches s dev inum j" using first_idx_caches_None by blast
  show thesis
  proof (cases "first_idx (\<lambda>i. i_ref i = 0) (icache s)")
    case (Some ip)
    have e: "iget dev inum s = Ok (ip, set_ino ip (\<lambda>i. i\<lparr>i_dev := dev, i_inum := inum, i_ref := 1, i_valid := False\<rparr>) s)"
      unfolding iget_def None Some by simp
    show thesis using Some by (intro miss [OF nc _ _ e]) (auto simp: first_idx_Some)
  next
    case None': None
    have e: "iget dev inum s = Panic ''iget: no inodes''" unfolding iget_def None None' by simp
    show thesis using None' by (intro full [OF nc _ e]) (auto simp: first_idx_None)
  qed
qed

text \<open>
  \<^bold>\<open>C28\<close>. The inode cache has one entry per inode. In a cache with that invariant \<^verbatim>\<open>iget\<close> fails only
  if no entry holds the inode and every entry is in use; otherwise it returns an entry that
  names the inode and counts one reference more than there were, keeps the invariant and
  every other entry, and a second \<^verbatim>\<open>iget\<close> returns the same entry.
\<close>

theorem iget_one_entry:
  assumes ok: "icache_ok s"
  shows "(if (\<exists>ip. caches s dev inum ip) \<or> (\<exists>ip < length (icache s). i_ref (icache s ! ip) = 0)
     then \<exists>ip s'. iget dev inum s = Ok (ip, s') \<and> icache_ok s' \<and> caches s' dev inum ip \<and>
       i_ref (icache s' ! ip) = irefs s dev inum + 1 \<and> (\<forall>j. j \<noteq> ip \<longrightarrow> icache s' ! j = icache s ! j) \<and>
       (\<exists>s''. iget dev inum s' = Ok (ip, s''))
     else iget dev inum s = Panic ''iget: no inodes'')"
  using ok
proof (cases rule: iget_cases [of s dev inum])
  case (hit ip)
  let ?s = "set_ino ip (\<lambda>i. i\<lparr>i_ref := i_ref i + 1\<rparr>) s"
  have c: "caches ?s d n j \<longleftrightarrow> caches s d n j" for d n j
    using hit(1) by (auto simp: caches_def nth_list_update)
  have ok': "icache_ok ?s"
  proof (rule icache_okI)
    show "0 \<le> i_ref (icache ?s ! i)" if "i < length (icache ?s)" for i
      using icache_ok_ref [OF ok, of i] that hit(1) by (simp add: nth_list_update caches_def)
  qed (simp only: c caches_unique [OF ok])
  have "i_ref (icache ?s ! ip) = irefs s dev inum + 1"
    using hit(1) irefs_caches [OF ok hit(1)] by (simp add: caches_def)
  moreover have "iget dev inum ?s = Ok (ip, set_ino ip (\<lambda>i. i\<lparr>i_ref := i_ref i + 1\<rparr>) ?s)"
    by (rule iget_hit [OF ok']) (simp only: c hit(1))
  moreover have "icache ?s ! j = icache s ! j" if "j \<noteq> ip" for j using that by simp
  moreover have "caches ?s dev inum ip" by (simp only: c hit(1))
  ultimately show ?thesis using hit ok' by auto
next
  case (miss ip)
  let ?s = "set_ino ip (\<lambda>i. i\<lparr>i_dev := dev, i_inum := inum, i_ref := 1, i_valid := False\<rparr>) s"
  have c: "caches ?s d n j \<longleftrightarrow> (if j = ip then d = dev \<and> n = inum else caches s d n j)" for d n j
    using miss(2) by (auto simp: caches_def nth_list_update)
  have ok': "icache_ok ?s"
  proof (rule icache_okI)
    show "0 \<le> i_ref (icache ?s ! i)" if "i < length (icache ?s)" for i
      using icache_ok_ref [OF ok, of i] that by (cases "i = ip") simp_all
    show "i = j" if "caches ?s d n i" "caches ?s d n j" for d n i j
      using that miss(1) caches_unique [OF ok, of d n i j] unfolding c by (auto split: if_splits)
  qed
  have c1: "caches ?s dev inum ip" by (simp only: c simp_thms if_True)
  have "i_ref (icache ?s ! ip) = irefs s dev inum + 1"
    using miss irefs_none [of s dev inum] by simp
  moreover have "iget dev inum ?s = Ok (ip, set_ino ip (\<lambda>i. i\<lparr>i_ref := i_ref i + 1\<rparr>) ?s)"
    by (rule iget_hit [OF ok' c1])
  moreover have "icache ?s ! j = icache s ! j" if "j \<noteq> ip" for j using that by simp
  ultimately show ?thesis using miss ok' c1 by auto
next
  case full
  then show ?thesis by auto
qed

theorem iget_one_entry_witness: "\<exists>s'. iget 1 1 boot_fs = Ok (0, s') \<and> i_ref (icache s' ! 0) = 2"
proof -
  have c0: "caches boot_fs d n j \<Longrightarrow> j = 0" for d n j
    by (auto simp: caches_def boot_inode_def nth_Cons' split: if_splits)
  have ok: "icache_ok boot_fs"
  proof (rule icache_okI)
    show "i = j" if "caches boot_fs d n i" "caches boot_fs d n j" for d n i j
      using c0 [OF that(1)] c0 [OF that(2)] by simp
  qed (auto simp: boot_inode_def nth_Cons')
  have c: "caches boot_fs 1 1 0" by (simp add: caches_def)
  then have r: "irefs boot_fs 1 1 = 1" using irefs_caches [OF ok c] by simp
  have "(\<exists>ip. caches boot_fs 1 1 ip) \<or> (\<exists>ip < length (icache boot_fs). i_ref (icache boot_fs ! ip) = 0)"
    using c by blast
  with iget_one_entry [OF ok, of 1 1] obtain ip s' where
    s': "iget 1 1 boot_fs = Ok (ip, s')" "i_ref (icache s' ! ip) = irefs boot_fs 1 1 + 1" by (simp only: if_True) blast
  then show ?thesis using iget_hit [OF ok c] r by simp
qed

section \<open>From the cache to the disk and back\<close>

lemma iunlockput_ok:
  assumes "i = icache s ! ip" "ip < length (icache s)" "holdingsleep (mypid s) (i_lock i)" "1 \<le> i_ref i" "i_nlink i \<noteq> 0"
  shows "iunlockput ip s = Ok (set_ino ip (\<lambda>i. i\<lparr>i_lock := \<lparr>locked = False, lk_pid = 0\<rparr>, i_ref := i_ref i - 1\<rparr>) s)"
  using assms by (simp add: iunlockput_def iunlock_def iput_def acquiresleep_def Let_def set_ino_twice)

lemma iget_after_put:
  assumes "icache_ok s" "ip < length (icache s)" "i = icache s ! ip" "i_ref i = 1"
    and "\<forall>j < length (icache s). i_ref (icache s ! j) = 0 \<longrightarrow> \<not> locked (i_lock (icache s ! j))"
    and "u = set_ino ip (\<lambda>i. i\<lparr>i_lock := \<lparr>locked = False, lk_pid = 0\<rparr>, i_ref := i_ref i - 1\<rparr>) s"
  obtains k where "k < length (icache s)" "\<not> locked (i_lock (icache u ! k))"
    "iget (i_dev i) (i_inum i) u =
       Ok (k, set_ino k (\<lambda>n. n\<lparr>i_dev := i_dev i, i_inum := i_inum i, i_ref := 1, i_valid := False\<rparr>) u)"
proof -
  have cu: "caches u d n j \<longleftrightarrow> caches s d n j \<and> j \<noteq> ip" for d n j
    using assms(2,3,4,6) by (auto simp: caches_def nth_list_update)
  have ok: "icache_ok u"
  proof (rule icache_okI)
    show "0 \<le> i_ref (icache u ! j)" if "j < length (icache u)" for j
      using icache_ok_ref [OF assms(1), of j] that assms(2,3,4,6) by (simp add: nth_list_update)
    show "j = l" if "caches u d n j" "caches u d n l" for d n j l
      using that caches_unique [OF assms(1), of d n j l] by (simp add: cu)
  qed
  have "caches s (i_dev i) (i_inum i) ip" using assms(2,3,4) by (simp add: caches_def)
  then have none: "\<not> caches u (i_dev i) (i_inum i) j" for j
    using caches_unique [OF assms(1), of "i_dev i" "i_inum i" j ip] by (auto simp: cu)
  have free: "\<exists>j < length (icache u). i_ref (icache u ! j) = 0"
    using assms(2,3,4,6) by (intro exI [of _ ip]) simp
  from ok show thesis
  proof (cases rule: iget_cases [of u "i_dev i" "i_inum i"])
    case (miss k)
    have "\<not> locked (i_lock (icache u ! k))"
      using miss(2,3) assms(2,5,6) by (cases "k = ip") simp_all
    then show ?thesis using that [of k] miss assms(6) by simp
  qed (use none free in auto)
qed

text \<open>
  \<^bold>\<open>C27\<close>. Inodes survive the disk. A process that holds the sleep lock of a cached inode and its only
  reference writes the inode back with \<^verbatim>\<open>iupdate\<close> and gives up lock and reference with \<^verbatim>\<open>iunlockput\<close>;
  the inode has links, so it is not freed, but no entry of the cache holds it any more. The next \<^verbatim>\<open>iget\<close> of its number then takes an entry, maybe another one, and
  the \<^verbatim>\<open>ilock\<close> of that entry reloads it from its block and finds every field as it was. The inode
  of every other number on the device is unchanged.
\<close>

theorem iupdate_ilock_roundtrip:
  assumes "txn 1 1 s" "icache_ok s" "i = icache s ! ip" "ip < length (icache s)"
    and "holdingsleep (mypid s) (i_lock i)" "i_ref i = 1" "i_nlink i \<noteq> 0" "i_type i \<noteq> 0" "dinode_wf (dinode_of i)"
    and "(i_dev i, IBLOCK (i_inum i) (sb s)) \<notin> set (held s)" "IBLOCK (i_inum i) (sb s) < FSSIZE"
    and "\<forall>j < length (icache s). i_ref (icache s ! j) = 0 \<longrightarrow> \<not> locked (i_lock (icache s ! j))"
  shows "\<exists>s' u k v w. iupdate ip s = Ok s' \<and> iunlockput ip s' = Ok u \<and> (\<forall>j. \<not> caches u (i_dev i) (i_inum i) j) \<and>
     iget (i_dev i) (i_inum i) u = Ok (k, v) \<and> \<not> i_valid (icache v ! k) \<and> ilock k v = Ok w \<and>
     icache w ! k = i\<lparr>i_valid := True, i_lock := \<lparr>locked = True, lk_pid = mypid s\<rparr>\<rparr> \<and>
     disk_inode w (i_dev i) (i_inum i) = dinode_of i \<and>
     (\<forall>j. j \<noteq> i_inum i \<longrightarrow> disk_inode w (i_dev i) j = disk_inode s (i_dev i) j)"
proof -
  define s' where "s' = store_dinode (i_dev i) (i_inum i) (dinode_of i) s"
  have up: "iupdate ip s = Ok s'"
    using iupdate_eq [of 0 0 s i ip] assms(1,3,10,11) by (simp add: s'_def)
  have t: "txn 0 1 s'" using txn_lupd [of 0 1 s] assms(1) by (simp add: s'_def store_dinode_def)
  have ic: "icache s' = icache s" "sb s' = sb s" "held s' = held s" "mypid s' = mypid s"
    by (simp_all add: s'_def)
  have ds: "disk_inode s' (i_dev i) j = (if j = i_inum i then dinode_of i else disk_inode s (i_dev i) j)" for j
    unfolding s'_def by (rule disk_inode_store [OF assms(9)])
  define u where "u = set_ino ip (\<lambda>i. i\<lparr>i_lock := \<lparr>locked = False, lk_pid = 0\<rparr>, i_ref := i_ref i - 1\<rparr>) s'"
  have put: "iunlockput ip s' = Ok u"
    using iunlockput_ok [of i s' ip] assms(3-7) ic by (simp add: u_def)
  have ok': "icache_ok s'" using assms(2) ic by (simp add: icache_ok_def)
  obtain k where k: "k < length (icache s)" "\<not> locked (i_lock (icache u ! k))"
    "iget (i_dev i) (i_inum i) u =
       Ok (k, set_ino k (\<lambda>n. n\<lparr>i_dev := i_dev i, i_inum := i_inum i, i_ref := 1, i_valid := False\<rparr>) u)"
    using iget_after_put [OF ok' _ _ _ _ u_def, of i] assms(3,4,6,12) ic by auto
  define v where "v = set_ino k (\<lambda>n. n\<lparr>i_dev := i_dev i, i_inum := i_inum i, i_ref := 1, i_valid := False\<rparr>) u"
  have "caches s (i_dev i) (i_inum i) ip" using assms(3,4,6) by (simp add: caches_def)
  then have none: "\<not> caches u (i_dev i) (i_inum i) j" for j
    using caches_unique [OF assms(2), of "i_dev i" "i_inum i" j ip] assms(3,4,6) ic
    by (cases "j = ip") (auto simp: caches_def u_def)
  have vk: "icache v ! k = (icache u ! k)\<lparr>i_dev := i_dev i, i_inum := i_inum i, i_ref := 1, i_valid := False\<rparr>"
    "sb v = sb s" "held v = held s" "mypid v = mypid s" "length (icache v) = length (icache s)" "txn 0 1 v"
    using k(1) ic t by (simp_all add: v_def u_def)
  have dv: "disk_inode v (i_dev i) j = disk_inode s' (i_dev i) j" for j
    by (simp add: disk_inode_def v_def u_def)
  define w where "w = set_ino k (\<lambda>n. (load_dinode (dinode_of i) n)
      \<lparr>i_lock := \<lparr>locked = True, lk_pid = mypid s\<rparr>, i_valid := True\<rparr>) v"
  have lock: "ilock k v = Ok w"
    using ilock_reload [of 0 0 v "icache v ! k" k] vk k(1,2) assms(8,10,11) dv ds
    by (simp add: w_def)
  have wk: "icache w ! k = i\<lparr>i_valid := True, i_lock := \<lparr>locked = True, lk_pid = mypid s\<rparr>\<rparr>"
    using vk k(1) assms(6) by (cases i) (simp add: w_def load_dinode_def dinode_of_def)
  have dw: "disk_inode w (i_dev i) j = disk_inode s' (i_dev i) j" for j
    using dv by (simp add: disk_inode_def w_def)
  show ?thesis
    using up put none k(3) vk(1) lock wk dw ds unfolding v_def [symmetric] by auto
qed

theorem iupdate_ilock_roundtrip_witness:
  "\<exists>s' u k v w. iupdate 0 (set_ino 0 (\<lambda>i. i\<lparr>i_valid := True, i_type := 2, i_nlink := 5,
       i_lock := \<lparr>locked = True, lk_pid = mypid boot_fs\<rparr>\<rparr>) boot_fs) = Ok s' \<and>
     iunlockput 0 s' = Ok u \<and> iget 1 1 u = Ok (k, v) \<and> ilock k v = Ok w \<and> i_nlink (icache w ! k) = 5"
proof -
  let ?f = "\<lambda>i. i\<lparr>i_valid := True, i_type := 2, i_nlink := 5, i_lock := \<lparr>locked = True, lk_pid = mypid boot_fs\<rparr>\<rparr>"
  let ?s = "set_ino 0 ?f boot_fs"
  let ?i = "icache ?s ! 0"
  have wf: "dinode_wf (dinode_of ?i)"
    using dinode_wf_simple [of 2 5 0] by (simp add: dinode_of_def boot_inode_def is_short_def)
  have t: "txn 1 1 ?s" using boot_txn [of 1 1] by simp
  have c0: "caches ?s d n j \<Longrightarrow> j = 0" for d n j
    by (auto simp: caches_def boot_inode_def nth_Cons' split: if_splits)
  have ok: "icache_ok ?s"
  proof (rule icache_okI)
    show "i = j" if "caches ?s d n i" "caches ?s d n j" for d n i j
      using c0 [OF that(1)] c0 [OF that(2)] by simp
  qed (auto simp: boot_inode_def nth_Cons')
  have un: "\<forall>j < length (icache ?s). i_ref (icache ?s ! j) = 0 \<longrightarrow> \<not> locked (i_lock (icache ?s ! j))"
    by (auto simp: boot_inode_def nth_Cons')
  have i: "i_dev ?i = 1" "i_inum ?i = 1" "holdingsleep (mypid ?s) (i_lock ?i)" "i_ref ?i = 1" "i_nlink ?i = 5" "i_type ?i = 2"
    "(1, IBLOCK 1 (sb ?s)) \<notin> set (held ?s)" "IBLOCK 1 (sb ?s) < FSSIZE" "0 < length (icache ?s)"
    by (simp_all add: IBLOCK_def boot_sb_def boot_inode_def holdingsleep_def)
  from iupdate_ilock_roundtrip [OF t ok refl i(9,3,4) _ _ wf _ _ un]
  obtain s' u k v w where "iupdate 0 ?s = Ok s'" "iunlockput 0 s' = Ok u" "iget 1 1 u = Ok (k, v)"
    "ilock k v = Ok w" "icache w ! k = ?i\<lparr>i_valid := True, i_lock := \<lparr>locked = True, lk_pid = mypid ?s\<rparr>\<rparr>"
    unfolding i(1,2,5,6) using i(7,8) by auto
  moreover from this(5) have "i_nlink (icache w ! k) = 5" using i(5) by simp
  ultimately show ?thesis by blast
qed

end
