(* ===== verification/Ring.thy ===== *)
theory Ring
  imports Prelude
begin

text \<open>
  Ring buffers with free-running 32-bit indices, as pipe.c and console.c have them: the
  indices only grow (and wrap around at \<open>2 ^ 32\<close>), the slot of an index is its remainder
  modulo the size. The contents as a list, and the laws of adding at one end and of taking
  from either end, for every size that divides \<open>2 ^ 32\<close>.
\<close>

definition ring_slot :: "nat \<Rightarrow> uint \<Rightarrow> nat" where
  "ring_slot N i = unat i mod N"

text \<open>The bytes from index \<open>r\<close> up to index \<open>w\<close>.\<close>

definition ring_list :: "nat \<Rightarrow> block \<Rightarrow> uint \<Rightarrow> uint \<Rightarrow> byte list" where
  "ring_list N buf r w = map (\<lambda>i. buf (ring_slot N (r + of_nat i))) [0..<unat (w - r)]"

lemma ring_length [simp]: "length (ring_list N buf r w) = unat (w - r)"
  by (simp add: ring_list_def)

lemma ring_empty [simp]: "ring_list N buf r r = []"
  by (simp add: ring_list_def)

lemma ring_empty_iff: "ring_list N buf r w = [] \<longleftrightarrow> r = w"
  by (auto simp: ring_list_def unat_eq_0)

text \<open>An index one further is one further from any index that is not at the maximal distance.\<close>

lemma unat_step: "unat (w - r) + 1 < 4294967296 \<Longrightarrow> unat (w + 1 - r) = unat (w - r) + 1" for w r :: uint
proof -
  assume a: "unat (w - r) + 1 < 4294967296"
  have "unat (w + 1 - r) = unat ((w - r) + 1)" by (rule arg_cong [of _ _ unat]) simp
  also have "\<dots> = (unat (w - r) + 1) mod 4294967296" by (simp add: unat_word_ariths(1))
  also have "\<dots> = unat (w - r) + 1" using a by simp
  finally show ?thesis .
qed

lemma unat_back: "r \<noteq> w \<Longrightarrow> unat (w - (r + 1)) = unat (w - r) - 1" for w r :: uint
proof -
  assume "r \<noteq> w"
  then have "w - r \<noteq> 0" by simp
  then have "unat (w - r - 1) = unat (w - r) - 1" by (rule unat_minus_one)
  then show ?thesis by (simp add: diff_diff_eq)
qed

lemma ring_append:
  assumes "unat (w - r) + unat (e - w) = unat (e - r)"
  shows "ring_list N buf r e = ring_list N buf r w @ ring_list N buf w e"
proof -
  have w: "w = r + of_nat (unat (w - r))" by simp
  have sp: "[0..<unat (e - r)] = [0..<unat (w - r)] @ map (\<lambda>i. i + unat (w - r)) [0..<unat (e - w)]"
    unfolding assms [symmetric] map_add_upt add.commute [of "unat (e - w)"]
    by (rule upt_add_eq_append) simp
  have "r + of_nat (i + unat (w - r)) = w + of_nat i" for i
    by simp
  then show ?thesis unfolding ring_list_def sp by (simp add: o_def add.commute)
qed

locale ring =
  fixes N :: nat
  assumes pos: "0 < N" and divides: "N dvd 4294967296" and small: "N < 4294967296"
begin

lemma slot_less: "ring_slot N i < N"
  using pos by (simp add: ring_slot_def)

lemma slot_add: "ring_slot N (r + of_nat i) = (unat r + i) mod N"
proof -
  have "unat (r + of_nat i) = (unat r + i) mod 4294967296"
    by (simp add: unat_word_ariths unat_of_nat mod_simps)
  then show ?thesis by (simp add: ring_slot_def mod_mod_cancel divides)
qed

lemma slot_inj: "i < N \<Longrightarrow> j < N \<Longrightarrow> ring_slot N (r + of_nat i) = ring_slot N (r + of_nat j) \<Longrightarrow> i = j"
proof (induction i j rule: linorder_wlog)
  case (le i j)
  then have "(unat r + j) mod N = (unat r + i) mod N" unfolding slot_add by simp
  then have "N dvd (unat r + j) - (unat r + i)" using le(1) by (simp add: mod_eq_dvd_iff_nat)
  then have "N dvd j - i" by simp
  with le show ?case using nat_dvd_not_less [of "j - i" N] by fastforce
next
  case (sym i j)
  then show ?case by simp
qed

lemma push:
  assumes "unat (w - r) < N"
  shows "ring_list N (buf(ring_slot N w := c)) r (w + 1) = ring_list N buf r w @ [c]"
proof -
  let ?n = "unat (w - r)"
  have n: "unat (w + 1 - r) = ?n + 1" using assms small by (intro unat_step) simp
  have w: "r + of_nat ?n = w" by simp
  have "ring_slot N (r + of_nat i) \<noteq> ring_slot N w" if "i < ?n" for i
    using slot_inj [of i ?n r] that assms w by auto
  then show ?thesis
    unfolding ring_list_def n by (simp add: w)
qed

lemma push_other:
  assumes "unat (w - r) \<le> unat (e - r)" "unat (e - r) < N"
  shows "ring_list N (buf(ring_slot N e := c)) r w = ring_list N buf r w"
proof -
  have e: "r + of_nat (unat (e - r)) = e" by simp
  have "ring_slot N (r + of_nat i) \<noteq> ring_slot N e" if "i < unat (w - r)" for i
    using slot_inj [of i "unat (e - r)" r] that assms e by auto
  then show ?thesis unfolding ring_list_def by simp
qed

lemma pop:
  assumes "r \<noteq> w"
  shows "ring_list N buf r w = buf (ring_slot N r) # ring_list N buf (r + 1) w"
proof -
  have "0 < unat (w - r)" using assms by (simp add: unat_gt_0)
  then obtain k where k: "unat (w - r) = Suc k" by (cases "unat (w - r)") auto
  have "unat (w - (r + 1)) = k" using unat_back [OF assms] k by simp
  then show ?thesis
    unfolding ring_list_def k by (simp add: map_upt_Suc add.assoc add.commute [of 1] del: upt_Suc)
qed

lemma pop_last:
  assumes "r \<noteq> w" "unat (w - r) \<le> N"
  shows "ring_list N buf r (w - 1) = butlast (ring_list N buf r w)"
proof -
  have "unat (w - 1 - r) = unat (w - r) - 1"
    using assms(1) unat_minus_one [of "w - r"] by (simp add: algebra_simps)
  moreover have "map f [0..<n - 1] = butlast (map f [0..<n])" for f :: "nat \<Rightarrow> byte" and n
    by (cases n) simp_all
  ultimately show ?thesis unfolding ring_list_def by simp
qed

lemma last_slot:
  assumes "r \<noteq> w"
  shows "last (ring_list N buf r w) = buf (ring_slot N (w - 1))"
proof -
  have "0 < unat (w - r)" using assms by (simp add: unat_gt_0)
  then obtain k where k: "unat (w - r) = Suc k" by (cases "unat (w - r)") auto
  have "of_nat (Suc k) = w - r" unfolding k [symmetric] by simp
  then have "r + of_nat k = w - 1" by (simp add: algebra_simps)
  then show ?thesis unfolding ring_list_def k by simp
qed

end

text \<open>The two sizes in the kernel.\<close>

abbreviation (input) INPUT_BUF :: nat where "INPUT_BUF \<equiv> 128"
abbreviation (input) PIPESIZE :: nat where "PIPESIZE \<equiv> 512"

interpretation input_ring: ring INPUT_BUF
  by unfold_locales simp_all

interpretation pipe_ring: ring PIPESIZE
  by unfold_locales simp_all

end
