(* ===== verification/Console.thy ===== *)
theory Console
  imports Inode Ring
begin

text \<open>
  The input side of console.c: line editing in \<^verbatim>\<open>consoleintr\<close>, \<^verbatim>\<open>consoleread\<close>, \<^verbatim>\<open>consolewrite\<close> and
  the device table. The input buffer is a ring of 128 bytes with three free-running indices:
  bytes from \<open>inp_r\<close> to \<open>inp_w\<close> are complete lines, bytes from \<open>inp_w\<close> to \<open>inp_e\<close> the line being
  edited. The lemmas show that it implements a queue of committed bytes and an edited line.
\<close>

section \<open>State and devices\<close>

text \<open>The function pointers \<^verbatim>\<open>consoleinit\<close> stores in \<^verbatim>\<open>devsw\<close>; NULL is \<open>None\<close>.\<close>

datatype devread = Consoleread
datatype devwrite = Consolewrite

record dev_state = fs_state +
  inp_buf :: block
  inp_r :: uint
  inp_w :: uint
  inp_e :: uint
  killed :: bool
  devsw_read :: "devread option list"
  devsw_write :: "devwrite option list"

definition consoleinit :: "'z dev_state_scheme \<Rightarrow> 'z dev_state_scheme" where
  "consoleinit s =
     s\<lparr>devsw_write := (devsw_write s)[1 := Some Consolewrite],
       devsw_read := (devsw_read s)[1 := Some Consoleread]\<rparr>"

section \<open>Input\<close>

text \<open>
  Control-U: the loop ends at the latest when \<open>inp_e\<close> has come back to \<open>inp_w\<close>, that is after
  \<open>inp_e - inp_w\<close> passes.
\<close>

primrec kill_line :: "nat \<Rightarrow> 'z dev_state_scheme \<Rightarrow> 'z dev_state_scheme res" where
  "kill_line 0 s = Ok s"
| "kill_line (Suc n) s =
     (if inp_e s \<noteq> inp_w s \<and> inp_buf s (ring_slot INPUT_BUF (inp_e s - 1)) \<noteq> 10
      then rbind (consputc BACKSPACE (s\<lparr>inp_e := inp_e s - 1\<rparr>)) (kill_line n)
      else Ok s)"

text \<open>
  One character of the loop of \<^verbatim>\<open>consoleintr\<close>; the flag is \<^verbatim>\<open>doprocdump\<close>. Waking up the readers
  has no effect on this state.
\<close>

definition consoleintr_char :: "int \<Rightarrow> bool \<times> 'z dev_state_scheme \<Rightarrow> (bool \<times> 'z dev_state_scheme) res" where
  "consoleintr_char c = (\<lambda>(pd, s).
     if c = 16 then Ok (True, s)
     else if c = 21 then rbind (kill_line (unat (inp_e s - inp_w s)) s) (\<lambda>s. Ok (pd, s))
     else if c = 8 \<or> c = 127 then
       if inp_e s \<noteq> inp_w s then
         rbind (consputc BACKSPACE (s\<lparr>inp_e := inp_e s - 1\<rparr>)) (\<lambda>s. Ok (pd, s))
       else Ok (pd, s)
     else if c \<noteq> 0 \<and> inp_e s - inp_r s < 128 then
       let c = (if c = 13 then 10 else c);
           s = s\<lparr>inp_buf := (inp_buf s)(ring_slot INPUT_BUF (inp_e s) := of_int c), inp_e := inp_e s + 1\<rparr> in
       rbind (consputc (nat c) s) (\<lambda>s.
       Ok (pd, if c = 10 \<or> c = 4 \<or> inp_e s = inp_r s + 128 then s\<lparr>inp_w := inp_e s\<rparr> else s))
     else Ok (pd, s))"

text \<open>
  The characters \<^verbatim>\<open>getc\<close> delivers, up to the first negative one. The result has the flag that
  makes the handler call \<^verbatim>\<open>procdump\<close> in the end.
\<close>

fun consoleintr :: "int list \<Rightarrow> bool \<times> 'z dev_state_scheme \<Rightarrow> (bool \<times> 'z dev_state_scheme) res" where
  "consoleintr [] ps = Ok ps"
| "consoleintr (c # cs) ps = (if c \<ge> 0 then rbind (consoleintr_char c ps) (consoleintr cs) else Ok ps)"

text \<open>
  The loop of \<^verbatim>\<open>consoleread\<close>; \<open>part\<close> tells that bytes have been read (\<^verbatim>\<open>n < target\<close>). The bytes stored
  at \<^verbatim>\<open>dst\<close> are returned, or \<open>None\<close> when the process has been killed.
\<close>

primrec consoleread_loop :: "nat \<Rightarrow> bool \<Rightarrow> 'z dev_state_scheme \<Rightarrow> (byte list option \<times> 'z dev_state_scheme) res" where
  "consoleread_loop 0 part s = Ok (Some [], s)"
| "consoleread_loop (Suc n) part s =
     (if inp_r s = inp_w s then if killed s then Ok (None, s) else Sleeps ''input''
      else
        let c = inp_buf s (ring_slot INPUT_BUF (inp_r s)); s = s\<lparr>inp_r := inp_r s + 1\<rparr> in
        if c = 4 then Ok (Some [], if part then s\<lparr>inp_r := inp_r s - 1\<rparr> else s)
        else if c = 10 then Ok (Some [c], s)
        else rbind (consoleread_loop n True s) (\<lambda>(cs, s). Ok (map_option ((#) c) cs, s)))"

definition consoleread :: "nat \<Rightarrow> int \<Rightarrow> 'z dev_state_scheme \<Rightarrow> (int \<times> byte list \<times> 'z dev_state_scheme) res" where
  "consoleread ip n s =
     rbind (iunlock ip s) (\<lambda>s.
     rbind (consoleread_loop (nat n) False s) (\<lambda>(r, s).
     rbind (ilock ip s) (\<lambda>s.
     case r of None \<Rightarrow> Ok (-1, [], s) | Some cs \<Rightarrow> Ok (int (length cs), cs, s))))"

definition consolewrite :: "nat \<Rightarrow> block \<Rightarrow> int \<Rightarrow> 'z dev_state_scheme \<Rightarrow> (int \<times> 'z dev_state_scheme) res" where
  "consolewrite ip buf n s =
     rbind (iunlock ip s) (\<lambda>s.
     rbind (consputs (map buf [0..<nat n]) s) (\<lambda>s.
     rbind (ilock ip s) (\<lambda>s.
     Ok (n, s))))"

section \<open>The input buffer as a queue of lines\<close>

text \<open>At most 128 bytes, the committed ones first.\<close>

definition input_ok :: "'z dev_state_scheme \<Rightarrow> bool" where
  "input_ok s \<longleftrightarrow> unat (inp_w s - inp_r s) + unat (inp_e s - inp_w s) = unat (inp_e s - inp_r s) \<and>
     unat (inp_e s - inp_r s) \<le> INPUT_BUF"

definition committed :: "'z dev_state_scheme \<Rightarrow> byte list" where
  "committed s = ring_list INPUT_BUF (inp_buf s) (inp_r s) (inp_w s)"

definition editing :: "'z dev_state_scheme \<Rightarrow> byte list" where
  "editing s = ring_list INPUT_BUF (inp_buf s) (inp_w s) (inp_e s)"

text \<open>Line editing as a function of the committed bytes and the edited line.\<close>

definition edit_char :: "int \<Rightarrow> byte list \<times> byte list \<Rightarrow> byte list \<times> byte list" where
  "edit_char c = (\<lambda>(done, line).
     if c = 16 then (done, line)
     else if c = 21 then (done, rev (dropWhile (\<lambda>b. b \<noteq> 10) (rev line)))
     else if c = 8 \<or> c = 127 then (done, butlast line)
     else if c \<noteq> 0 \<and> length done + length line < 128 then
       let b = (if c = 13 then 10 else of_int c); line = line @ [b] in
       if c = 13 \<or> c = 10 \<or> c = 4 \<or> length done + length line = 128 then (done @ line, []) else (done, line)
     else (done, line))"

lemma only_console_input:
  assumes "only_console s t"
  shows "inp_buf t = inp_buf s" "inp_r t = inp_r s" "inp_w t = inp_w s" "inp_e t = inp_e s"
    "killed t = killed s" "icache t = icache s"
proof -
  have t: "t = s\<lparr>crt := crt t, cursor := cursor t, uart_out := uart_out t\<rparr>"
    using assms by (simp add: only_console_def)
  show "inp_buf t = inp_buf s" "inp_r t = inp_r s" "inp_w t = inp_w s" "inp_e t = inp_e s"
    "killed t = killed s" "icache t = icache s"
    by (subst t, simp)+
qed

text \<open>A state with given input indices and buffer, up to the screen.\<close>

definition same_input :: "'z dev_state_scheme \<Rightarrow> 'z dev_state_scheme \<Rightarrow> bool" where
  "same_input s t \<longleftrightarrow> inp_buf t = inp_buf s \<and> inp_r t = inp_r s \<and> inp_w t = inp_w s \<and> inp_e t = inp_e s"

lemma same_input_views:
  "same_input s t \<Longrightarrow> input_ok t = input_ok s" "same_input s t \<Longrightarrow> committed t = committed s"
  "same_input s t \<Longrightarrow> editing t = editing s"
  by (simp_all add: same_input_def input_ok_def committed_def editing_def)

lemma consputc_input:
  assumes "screen_ok s"
  shows "\<exists>t. consputc c s = Ok t \<and> screen_ok t \<and> same_input s t"
  using consputc_ok [OF assms, of c] only_console_input unfolding same_input_def by blast

lemma unat_pred: "e \<noteq> w \<Longrightarrow> unat (e - 1 - w) = unat (e - w) - 1" for e w :: uint
  using unat_minus_one [of "e - w"] by (simp add: algebra_simps)

lemma erase:
  assumes "input_ok s" "inp_e s \<noteq> inp_w s"
  shows "input_ok (s\<lparr>inp_e := inp_e s - 1\<rparr>)" "committed (s\<lparr>inp_e := inp_e s - 1\<rparr>) = committed s"
    "editing (s\<lparr>inp_e := inp_e s - 1\<rparr>) = butlast (editing s)"
proof -
  have pos: "0 < unat (inp_e s - inp_w s)" using assms(2) by (simp add: unat_gt_0)
  have ne: "inp_e s \<noteq> inp_r s"
  proof
    assume "inp_e s = inp_r s"
    with assms(1) pos show False by (simp add: input_ok_def)
  qed
  show "input_ok (s\<lparr>inp_e := inp_e s - 1\<rparr>)"
    using assms(1) pos unat_pred [OF assms(2)] unat_pred [OF ne] by (auto simp: input_ok_def)
  show "committed (s\<lparr>inp_e := inp_e s - 1\<rparr>) = committed s" by (simp add: committed_def)
  have "unat (inp_e s - inp_w s) \<le> INPUT_BUF" using assms(1) by (simp add: input_ok_def)
  then show "editing (s\<lparr>inp_e := inp_e s - 1\<rparr>) = butlast (editing s)"
    using input_ring.pop_last [of "inp_w s" "inp_e s" "inp_buf s"] assms(2) by (auto simp: editing_def)
qed

lemma rev_drop_step:
  "xs \<noteq> [] \<Longrightarrow> last xs \<noteq> c \<Longrightarrow>
     rev (dropWhile (\<lambda>b. b \<noteq> c) (rev (butlast xs))) = rev (dropWhile (\<lambda>b. b \<noteq> c) (rev xs))"
  by (induction xs rule: rev_induct) auto

lemma rev_drop_stop: "xs = [] \<or> last xs = c \<Longrightarrow> rev (dropWhile (\<lambda>b. b \<noteq> c) (rev xs)) = xs"
  by (cases xs rule: rev_cases) auto

lemma kill_line_ok:
  assumes "input_ok s" "screen_ok s" "n = unat (inp_e s - inp_w s)"
  shows "\<exists>t. kill_line n s = Ok t \<and> input_ok t \<and> screen_ok t \<and> committed t = committed s \<and>
     editing t = rev (dropWhile (\<lambda>b. b \<noteq> 10) (rev (editing s)))"
  using assms
proof (induction n arbitrary: s)
  case 0
  then have "editing s = []" by (simp add: editing_def ring_empty_iff unat_eq_0)
  with 0 show ?case by simp
next
  case (Suc n)
  have ne: "inp_e s \<noteq> inp_w s" using Suc.prems(3) by auto
  then have ne': "editing s \<noteq> []" by (auto simp: editing_def ring_empty_iff)
  have last: "last (editing s) = inp_buf s (ring_slot INPUT_BUF (inp_e s - 1))"
    using input_ring.last_slot [of "inp_w s" "inp_e s"] ne by (auto simp: editing_def)
  show ?case
  proof (cases "inp_buf s (ring_slot INPUT_BUF (inp_e s - 1)) = 10")
    case True
    then show ?thesis using Suc.prems(1,2) last rev_drop_stop [of "editing s" 10] by simp
  next
    case False
    let ?u = "s\<lparr>inp_e := inp_e s - 1\<rparr>"
    note er = erase [OF Suc.prems(1) ne]
    have "screen_ok ?u" using Suc.prems(2) by (simp add: screen_ok_def)
    then obtain t where t: "consputc BACKSPACE ?u = Ok t" "screen_ok t" "same_input ?u t"
      using consputc_input by blast
    have n: "n = unat (inp_e t - inp_w t)"
      using Suc.prems(3) unat_pred [OF ne] t(3) by (simp add: same_input_def)
    have "input_ok t" using er(1) same_input_views(1) [OF t(3)] by simp
    from Suc.IH [OF this t(2) n] obtain v where
      v: "kill_line n t = Ok v" "input_ok v" "screen_ok v" "committed v = committed t"
        "editing v = rev (dropWhile (\<lambda>b. b \<noteq> 10) (rev (editing t)))" by blast
    have "editing t = butlast (editing s)" "committed t = committed s"
      using er same_input_views(2,3) [OF t(3)] by simp_all
    then show ?thesis
      using v t(1) False ne rev_drop_step [OF ne', of 10] last by simp
  qed
qed

lemma insert_byte:
  assumes "input_ok s" "inp_e s - inp_r s < 128"
    and t: "inp_buf t = (inp_buf s)(ring_slot INPUT_BUF (inp_e s) := b)" "inp_r t = inp_r s"
      "inp_w t = inp_w s" "inp_e t = inp_e s + 1"
  shows "input_ok t" "committed t = committed s" "editing t = editing s @ [b]"
    "input_ok (t\<lparr>inp_w := inp_e t\<rparr>)" "committed (t\<lparr>inp_w := inp_e t\<rparr>) = committed s @ editing s @ [b]"
    "editing (t\<lparr>inp_w := inp_e t\<rparr>) = []" "inp_e t = inp_r t + 128 \<longleftrightarrow> length (committed s) + length (editing s @ [b]) = 128"
proof -
  have lt: "unat (inp_e s - inp_r s) < 128" using assms(2) by (simp add: word_less_nat_alt)
  have sum: "unat (inp_w s - inp_r s) + unat (inp_e s - inp_w s) = unat (inp_e s - inp_r s)"
    using assms(1) by (simp add: input_ok_def)
  have st: "unat (inp_e s + 1 - inp_r s) = unat (inp_e s - inp_r s) + 1"
    "unat (inp_e s + 1 - inp_w s) = unat (inp_e s - inp_w s) + 1"
    using lt sum by (intro unat_step; simp)+
  show ok: "input_ok t" using st lt sum t by (simp add: input_ok_def)
  show c: "committed t = committed s"
    using input_ring.push_other [of "inp_w s" "inp_r s" "inp_e s"] lt sum t by (simp add: committed_def)
  show e: "editing t = editing s @ [b]"
    using input_ring.push [of "inp_e s" "inp_w s"] lt sum t by (simp add: editing_def)
  show "input_ok (t\<lparr>inp_w := inp_e t\<rparr>)" using st lt t by (simp add: input_ok_def)
  show "editing (t\<lparr>inp_w := inp_e t\<rparr>) = []" by (simp add: editing_def)
  have "ring_list INPUT_BUF (inp_buf t) (inp_r t) (inp_e t) = committed t @ editing t"
    using ok unfolding committed_def editing_def by (intro ring_append) (simp add: input_ok_def)
  then show "committed (t\<lparr>inp_w := inp_e t\<rparr>) = committed s @ editing s @ [b]"
    by (simp add: committed_def [of "t\<lparr>inp_w := inp_e t\<rparr>"] c e)
  have "inp_e t = inp_r t + 128 \<longleftrightarrow> inp_e t - inp_r t = 128" by (auto simp: algebra_simps)
  also have "\<dots> \<longleftrightarrow> unat (inp_e t - inp_r t) = 128" by (auto simp: word_unat_eq_iff)
  also have "\<dots> \<longleftrightarrow> length (committed s) + length (editing s @ [b]) = 128"
    using st sum t by (simp add: committed_def editing_def)
  finally show "inp_e t = inp_r t + 128 \<longleftrightarrow> length (committed s) + length (editing s @ [b]) = 128" .
qed

lemma consoleintr_char_ok:
  assumes ok: "input_ok s" "screen_ok s" and c: "0 \<le> c" "c < 256"
  shows "\<exists>pd' t. consoleintr_char c (pd, s) = Ok (pd', t) \<and> input_ok t \<and> screen_ok t \<and>
     (committed t, editing t) = edit_char c (committed s, editing s)"
proof -
  have e: "length (editing s) = unat (inp_e s - inp_w s)" by (simp add: editing_def)
  consider "c = 16" | "c = 21" | "c = 8 \<or> c = 127" | "c \<notin> {16, 21, 8, 127}" by blast
  then show ?thesis
  proof cases
    case 1
    then show ?thesis using ok by (auto simp: consoleintr_char_def edit_char_def)
  next
    case 2
    then show ?thesis
      using kill_line_ok [OF ok refl] by (auto simp: consoleintr_char_def edit_char_def)
  next
    case 3
    show ?thesis
    proof (cases "inp_e s = inp_w s")
      case True
      then have "editing s = []" by (simp add: editing_def)
      with 3 True ok show ?thesis by (auto simp: consoleintr_char_def edit_char_def)
    next
      case False
      let ?u = "s\<lparr>inp_e := inp_e s - 1\<rparr>"
      note er = erase [OF ok(1) False]
      have "screen_ok ?u" using ok(2) by (simp add: screen_ok_def)
      then obtain t where t: "consputc BACKSPACE ?u = Ok t" "screen_ok t" "same_input ?u t"
        using consputc_input by blast
      have "input_ok t" "committed t = committed s" "editing t = butlast (editing s)"
        using er same_input_views [OF t(3)] by simp_all
      with 3 False t show ?thesis by (auto simp: consoleintr_char_def edit_char_def)
    qed
  next
    case 4
    have full: "inp_e s - inp_r s < 128 \<longleftrightarrow> length (committed s) + length (editing s) < 128"
      using ok(1) by (simp add: input_ok_def committed_def editing_def word_less_nat_alt)
    show ?thesis
    proof (cases "c \<noteq> 0 \<and> inp_e s - inp_r s < 128")
      case False
      then show ?thesis using 4 ok full by (auto simp: consoleintr_char_def edit_char_def)
    next
      case True
      define b where "b = (if c = 13 then 10 else c)"
      let ?u = "s\<lparr>inp_buf := (inp_buf s)(ring_slot INPUT_BUF (inp_e s) := of_int b), inp_e := inp_e s + 1\<rparr>"
      have "screen_ok ?u" using ok(2) by (simp add: screen_ok_def)
      then obtain t where t: "consputc (nat b) ?u = Ok t" "screen_ok t" "same_input ?u t"
        using consputc_input by blast
      have u: "inp_buf t = (inp_buf s)(ring_slot INPUT_BUF (inp_e s) := of_int b)" "inp_r t = inp_r s"
        "inp_w t = inp_w s" "inp_e t = inp_e s + 1"
        using t(3) by (simp_all add: same_input_def)
      note ins = insert_byte [OF ok(1) _ u] 
      have s1: "screen_ok (t\<lparr>inp_w := inp_e t\<rparr>)" using t(2) by (simp add: screen_ok_def)
      have r: "consoleintr_char c (pd, s) =
          Ok (pd, if b = 10 \<or> b = 4 \<or> inp_e t = inp_r t + 128 then t\<lparr>inp_w := inp_e t\<rparr> else t)"
        using 4 True t(1) by (simp add: consoleintr_char_def Let_def b_def [symmetric])
      have sp: "edit_char c (committed s, editing s) =
          (if b = 10 \<or> b = 4 \<or> length (committed s) + length (editing s @ [of_int b :: byte]) = 128
           then (committed s @ editing s @ [of_int b], []) else (committed s, editing s @ [of_int b]))"
        using 4 True full by (auto simp: edit_char_def Let_def b_def)
      show ?thesis
        unfolding r sp using True ins t(2) s1 by simp
    qed
  qed
qed

text \<open>
  \<^bold>\<open>C29\<close>. Console input refines line editing on lists. From a state whose indices are in order and
  whose screen is in range, \<^verbatim>\<open>consoleintr\<close> of any sequence of characters never panics, keeps
  the ring within its 128 bytes (wrap-around of the indices included), and leaves the
  committed bytes and the edited line as editing those lists character by character does:
  kill line, backspace, carriage return as newline, and a line committed by newline,
  control-D or a full buffer.
\<close>

theorem consoleintr_edits_lines:
  assumes "input_ok s" "screen_ok s" "\<forall>c \<in> set cs. 0 \<le> c \<and> c < 256"
  shows "\<exists>pd' t. consoleintr cs (pd, s) = Ok (pd', t) \<and> input_ok t \<and> screen_ok t \<and>
     (committed t, editing t) = fold edit_char cs (committed s, editing s)"
  using assms
proof (induction cs arbitrary: pd s)
  case Nil
  then show ?case by simp
next
  case (Cons c cs)
  then have c: "0 \<le> c" "c < 256" by auto
  from consoleintr_char_ok [OF Cons.prems(1,2) c, of pd] obtain pd' t where
    t: "consoleintr_char c (pd, s) = Ok (pd', t)" "input_ok t" "screen_ok t"
      "(committed t, editing t) = edit_char c (committed s, editing s)" by blast
  from Cons.IH [OF t(2,3), of pd'] Cons.prems(3) obtain pd'' u where
    "consoleintr cs (pd', t) = Ok (pd'', u)" "input_ok u" "screen_ok u"
    "(committed u, editing u) = fold edit_char cs (committed t, editing t)" by auto
  then show ?case using t c by simp
qed

definition boot_dev :: dev_state where
  "boot_dev = fs_state.extend boot_fs
     \<lparr>inp_buf = \<lambda>_. 0, inp_r = 4294967295, inp_w = 4294967295, inp_e = 4294967295, killed = False,
      devsw_read = None # Some Consoleread # replicate 8 None, devsw_write = None # Some Consolewrite # replicate 8 None\<rparr>"

text \<open>Here the indices wrap around while the line is typed.\<close>

theorem consoleintr_edits_lines_witness:
  "\<exists>pd' t. consoleintr [97, 98, 8, 13] (False, boot_dev) = Ok (pd', t) \<and> committed t = [97, 10]"
proof -
  have ok: "input_ok boot_dev" "screen_ok boot_dev"
    by (simp_all add: boot_dev_def input_ok_def screen_ok_def fs_state.defs boot_fs_def con_state.defs
        boot_con_def gc_state.defs)
  have start: "committed boot_dev = []" "editing boot_dev = []" "inp_r boot_dev = 4294967295"
    by (simp_all add: boot_dev_def committed_def editing_def fs_state.defs)
  have "fold edit_char [97, 98, 8, 13] ([], []) = ([97, 10], [])"
    by (simp add: edit_char_def)
  with consoleintr_edits_lines [OF ok, of "[97, 98, 8, 13]" False] start obtain pd' t where
    t: "consoleintr [97, 98, 8, 13] (False, boot_dev) = Ok (pd', t)" "committed t = [97, 10]" by auto
  then show ?thesis by blast
qed

section \<open>Reading lines\<close>

text \<open>
  What a read of at most \<open>n\<close> bytes takes from the committed bytes: up to and including a
  newline; control-D ends the read and stays in the queue unless it comes first. \<open>None\<close> when
  the bytes do not suffice.
\<close>

fun take_line :: "nat \<Rightarrow> bool \<Rightarrow> byte list \<Rightarrow> (byte list \<times> byte list) option" where
  "take_line 0 part q = Some ([], q)"
| "take_line (Suc n) part [] = None"
| "take_line (Suc n) part (c # q) =
     (if c = 4 then Some ([], if part then c # q else q)
      else if c = 10 then Some ([c], q)
      else map_option (\<lambda>(l, r). (c # l, r)) (take_line n True q))"

lemma input_pop:
  assumes "input_ok s" "inp_r s \<noteq> inp_w s"
  shows "committed s = inp_buf s (ring_slot INPUT_BUF (inp_r s)) # committed (s\<lparr>inp_r := inp_r s + 1\<rparr>)"
    "input_ok (s\<lparr>inp_r := inp_r s + 1\<rparr>)" "editing (s\<lparr>inp_r := inp_r s + 1\<rparr>) = editing s"
proof -
  show "committed s = inp_buf s (ring_slot INPUT_BUF (inp_r s)) # committed (s\<lparr>inp_r := inp_r s + 1\<rparr>)"
    using input_ring.pop [OF assms(2)] by (simp add: committed_def)
  have pos: "0 < unat (inp_w s - inp_r s)" using assms(2) by (simp add: unat_gt_0)
  have "inp_r s \<noteq> inp_e s"
  proof
    assume "inp_r s = inp_e s"
    with assms(1) pos show False by (simp add: input_ok_def)
  qed
  then show "input_ok (s\<lparr>inp_r := inp_r s + 1\<rparr>)"
    using assms pos unat_back [OF assms(2)] unat_back [of "inp_r s" "inp_e s"] by (auto simp: input_ok_def)
  show "editing (s\<lparr>inp_r := inp_r s + 1\<rparr>) = editing s" by (simp add: editing_def)
qed

lemma consoleread_loop_line:
  assumes "input_ok s"
  shows "(case take_line n part (committed s) of
     Some (l, q) \<Rightarrow> \<exists>t. consoleread_loop n part s = Ok (Some l, t) \<and> committed t = q \<and> input_ok t \<and>
        editing t = editing s \<and> t = s\<lparr>inp_r := inp_r t\<rparr>
   | None \<Rightarrow> if killed s then \<exists>t. consoleread_loop n part s = Ok (None, t) \<and> t = s\<lparr>inp_r := inp_r t\<rparr>
             else consoleread_loop n part s = Sleeps ''input'')"
  using assms
proof (induction n arbitrary: part s)
  case 0
  then show ?case by simp
next
  case (Suc n)
  show ?case
  proof (cases "inp_r s = inp_w s")
    case True
    then have "committed s = []" by (simp add: committed_def)
    with True show ?thesis by simp
  next
    case False
    let ?u = "s\<lparr>inp_r := inp_r s + 1\<rparr>"
    note p = input_pop [OF Suc.prems False]
    define c where "c = inp_buf s (ring_slot INPUT_BUF (inp_r s))"
    have com: "committed s = c # committed ?u" using p(1) by (simp add: c_def)
    consider "c = 4" | "c = 10" | "c \<noteq> 4" "c \<noteq> 10" by blast
    then show ?thesis
    proof cases
      case 3
      have run: "consoleread_loop (Suc n) part s =
          rbind (consoleread_loop n True ?u) (\<lambda>(cs, s). Ok (map_option ((#) c) cs, s))"
        using False 3 by (simp add: Let_def c_def)
      show ?thesis
      proof (cases "take_line n True (committed ?u)")
        case None
        with Suc.IH [OF p(2), of True] show ?thesis
          unfolding com run using 3 by (auto split: if_splits)
      next
        case (Some lq)
        obtain l q where lq: "lq = (l, q)" by (cases lq)
        with Suc.IH [OF p(2), of True] Some obtain t where
          t: "consoleread_loop n True ?u = Ok (Some l, t)" "committed t = q" "input_ok t"
            "editing t = editing ?u" "t = ?u\<lparr>inp_r := inp_r t\<rparr>" by auto
        then have "consoleread_loop (Suc n) part s = Ok (Some (c # l), t)" unfolding run by simp
        moreover have "t = s\<lparr>inp_r := inp_r t\<rparr>" using t(5) by simp
        ultimately show ?thesis using t p(3) Some lq 3 unfolding com by auto
      qed
    qed (use False p Suc.prems com in \<open>auto simp: Let_def c_def [symmetric]\<close>)
  qed
qed

text \<open>
  \<^bold>\<open>C30\<close>. Reading from the console: for a locked inode \<^verbatim>\<open>consoleread\<close> returns the next line of the
  committed bytes (cut at \<open>n\<close>), removes exactly it from the queue and leaves the edited line
  alone; with too few bytes it waits, or returns -1 if the process has been killed. The
  inode is locked again in every case it returns.
\<close>

theorem consoleread_line:
  assumes ok: "input_ok s" and ip: "i = icache s ! ip" "ip < length (icache s)" "1 \<le> i_ref i" "i_valid i"
      "i_lock i = \<lparr>locked = True, lk_pid = mypid s\<rparr>"
  shows "(case take_line (nat n) False (committed s) of
     Some (l, q) \<Rightarrow> \<exists>t. consoleread ip n s = Ok (int (length l), l, t) \<and> committed t = q \<and> input_ok t \<and>
        editing t = editing s \<and> icache t = icache s
   | None \<Rightarrow> if killed s then \<exists>t. consoleread ip n s = Ok (-1, [], t) \<and> icache t = icache s
             else consoleread ip n s = Sleeps ''input'')"
proof -
  let ?u = "set_ino ip (\<lambda>i. i\<lparr>i_lock := \<lparr>locked = False, lk_pid = 0\<rparr>\<rparr>) s"
  have un: "iunlock ip s = Ok ?u" using ip by (simp add: iunlock_def holdingsleep_def)
  have views: "input_ok ?u = input_ok s" "committed ?u = committed s" "editing ?u = editing s" "killed ?u = killed s"
    by (simp_all add: input_ok_def committed_def editing_def set_ino_def)
  have same: "(icache s ! ip)\<lparr>i_lock := \<lparr>locked = True, lk_pid = mypid s\<rparr>\<rparr> = icache s ! ip"
    using ip by (cases "icache s ! ip") simp
  have restore: "(icache s)[ip := (icache s ! ip)\<lparr>i_lock := \<lparr>locked = True, lk_pid = mypid s\<rparr>\<rparr>] = icache s"
    by (simp only: same list_update_id)
  have relock: "ilock ip (?u\<lparr>inp_r := r\<rparr>) = Ok (s\<lparr>inp_r := r\<rparr>)" for r
  proof -
    have "ilock ip (?u\<lparr>inp_r := r\<rparr>) =
        Ok (set_ino ip (\<lambda>i. i\<lparr>i_lock := \<lparr>locked = True, lk_pid = mypid s\<rparr>\<rparr>) (?u\<lparr>inp_r := r\<rparr>))"
      using ip by (subst ilock_valid) (simp_all add: set_ino_def)
    also have "set_ino ip (\<lambda>i. i\<lparr>i_lock := \<lparr>locked = True, lk_pid = mypid s\<rparr>\<rparr>) (?u\<lparr>inp_r := r\<rparr>) = s\<lparr>inp_r := r\<rparr>"
      using ip(2) restore by (simp add: set_ino_def)
    finally show ?thesis .
  qed
  note loop = consoleread_loop_line [of ?u "nat n" False, unfolded views, OF ok]
  show ?thesis
  proof (cases "take_line (nat n) False (committed s)")
    case None
    show ?thesis
    proof (cases "killed s")
      case True
      with loop None obtain t where t: "consoleread_loop (nat n) False ?u = Ok (None, t)" "t = ?u\<lparr>inp_r := inp_r t\<rparr>"
        by auto
      have "ilock ip t = Ok (s\<lparr>inp_r := inp_r t\<rparr>)" using relock [of "inp_r t"] t(2) by simp
      with None True t(1) un show ?thesis by (simp add: consoleread_def)
    qed (use loop None un in \<open>simp add: consoleread_def\<close>)
  next
    case (Some lq)
    obtain l q where lq: "lq = (l, q)" by (cases lq)
    with loop Some obtain t where t: "consoleread_loop (nat n) False ?u = Ok (Some l, t)" "committed t = q"
      "input_ok t" "editing t = editing s" "t = ?u\<lparr>inp_r := inp_r t\<rparr>" by auto
    have lk: "ilock ip t = Ok (s\<lparr>inp_r := inp_r t\<rparr>)" using relock [of "inp_r t"] t(5) by simp
    have f: "inp_buf t = inp_buf s" "inp_w t = inp_w s" "inp_e t = inp_e s"
      by (subst t(5), simp add: set_ino_def)+
    have "committed (s\<lparr>inp_r := inp_r t\<rparr>) = committed t" "input_ok (s\<lparr>inp_r := inp_r t\<rparr>) = input_ok t"
      "editing (s\<lparr>inp_r := inp_r t\<rparr>) = editing s"
      by (simp_all add: committed_def input_ok_def editing_def f)
    with lk t lq Some un show ?thesis by (simp add: consoleread_def)
  qed
qed

definition typed_dev :: dev_state where
  "typed_dev = (set_ino 0 (\<lambda>i. i\<lparr>i_valid := True, i_lock := \<lparr>locked = True, lk_pid = 1\<rparr>\<rparr>) boot_dev)
      \<lparr>inp_buf := (\<lambda>_. 10), inp_w := 1, inp_e := 1\<rparr>"

theorem consoleread_line_witness: "\<exists>t. consoleread 0 5 typed_dev = Ok (1, [10], t) \<and> committed t = [10]"
proof -
  have "input_ok typed_dev" by (simp add: typed_dev_def input_ok_def boot_dev_def fs_state.defs set_ino_def)
  moreover have "committed typed_dev = [10, 10]"
    by (simp add: typed_dev_def committed_def ring_list_def boot_dev_def fs_state.defs set_ino_def upt_rec)
  moreover have "icache typed_dev ! 0 = boot_inode\<lparr>i_dev := 1, i_inum := 1, i_ref := 1, i_valid := True,
      i_lock := \<lparr>locked = True, lk_pid = 1\<rparr>\<rparr>" "0 < length (icache typed_dev)" "mypid typed_dev = 1"
    by (simp_all add: typed_dev_def boot_dev_def fs_state.defs boot_fs_def con_state.defs)
  moreover have "take_line (nat 5) False [10, 10] = Some ([10], [10])"
    using take_line.simps(3) [of 4 False 10 "[10]"] by simp
  ultimately show ?thesis using consoleread_line [of typed_dev "icache typed_dev ! 0" 0 5] by auto
qed

end
