(* ===== verification/Content.thy ===== *)
theory Content
  imports Console
begin

text \<open>
  The contents of files: \<^verbatim>\<open>readi\<close> and \<^verbatim>\<open>writei\<close> of fs.c over the block map of an inode. The contents
  are a function from byte offsets to bytes (\<open>content\<close>); the lemmas show that \<^verbatim>\<open>bmap\<close> keeps them,
  that \<^verbatim>\<open>writei\<close> overwrites exactly the bytes it is given, and that \<^verbatim>\<open>readi\<close> returns them.
  Bytes a call stores through its \<^verbatim>\<open>dst\<close> pointer are part of its result.
\<close>

section \<open>readi and writei\<close>

function readi_loop :: "nat \<Rightarrow> nat \<Rightarrow> nat \<Rightarrow> 'z dev_state_scheme \<Rightarrow> (byte list \<times> 'z dev_state_scheme) res" where
  "readi_loop ip off rem s =
     (if rem = 0 then Ok ([], s)
      else
        rbind (bmap ip (off div BSIZE) s) (\<lambda>(addr, s).
        rbind (bread (i_dev (icache s ! ip)) addr s) (\<lambda>(bp, s).
        let m = min rem (BSIZE - off mod BSIZE) in
        rbind (brelse bp s) (\<lambda>s.
        rbind (readi_loop ip (off + m) (rem - m) s) (\<lambda>(bs, s).
        Ok (map (\<lambda>k. b_data bp (off mod BSIZE + k)) [0..<m] @ bs, s))))))"
  by auto
termination
  by (relation "measure (\<lambda>(ip, off, rem, s). rem)") auto

declare readi_loop.simps [simp del]

definition readi :: "nat \<Rightarrow> nat \<Rightarrow> nat \<Rightarrow> 'z dev_state_scheme \<Rightarrow> (int \<times> byte list \<times> 'z dev_state_scheme) res" where
  "readi ip off n s =
     (let i = icache s ! ip in
      if i_type i = T_DEV then
        if i_major i < 0 \<or> int NDEV \<le> i_major i then Ok (-1, [], s)
        else
          (case devsw_read s ! nat (i_major i) of
             None \<Rightarrow> Ok (-1, [], s)
           | Some Consoleread \<Rightarrow> consoleread ip (to_int32 n) s)
      else if i_size i < off \<or> (off + n) mod 4294967296 < off then Ok (-1, [], s)
      else
        let n = (if i_size i < (off + n) mod 4294967296 then i_size i - off else n) in
        rbind (readi_loop ip off n s) (\<lambda>(bs, s).
        Ok (to_int32 n, bs, s)))"

text \<open>\<open>k\<close> is the number of bytes written so far, the offset in \<^verbatim>\<open>src\<close>.\<close>

function writei_loop :: "nat \<Rightarrow> block \<Rightarrow> nat \<Rightarrow> nat \<Rightarrow> nat \<Rightarrow> 'z dev_state_scheme \<Rightarrow> 'z dev_state_scheme res" where
  "writei_loop ip src k off rem s =
     (if rem = 0 then Ok s
      else
        rbind (bmap ip (off div BSIZE) s) (\<lambda>(addr, s).
        rbind (bread (i_dev (icache s ! ip)) addr s) (\<lambda>(bp, s).
        let m = min rem (BSIZE - off mod BSIZE);
            bp = bp\<lparr>b_data := blit (b_data bp) (off mod BSIZE) (\<lambda>j. src (k + j)) m\<rparr> in
        rbind (log_write bp s) (\<lambda>s.
        rbind (brelse bp s) (\<lambda>s.
        writei_loop ip src (k + m) (off + m) (rem - m) s)))))"
  by auto
termination
  by (relation "measure (\<lambda>(ip, src, k, off, rem, s). rem)") auto

declare writei_loop.simps [simp del]

definition writei :: "nat \<Rightarrow> block \<Rightarrow> nat \<Rightarrow> nat \<Rightarrow> 'z dev_state_scheme \<Rightarrow> (int \<times> 'z dev_state_scheme) res" where
  "writei ip src off n s =
     (let i = icache s ! ip in
      if i_type i = T_DEV then
        if i_major i < 0 \<or> int NDEV \<le> i_major i then Ok (-1, s)
        else
          (case devsw_write s ! nat (i_major i) of
             None \<Rightarrow> Ok (-1, s)
           | Some Consolewrite \<Rightarrow> consolewrite ip src (to_int32 n) s)
      else if i_size i < off \<or> (off + n) mod 4294967296 < off then Ok (-1, s)
      else if MAXFILE * BSIZE < (off + n) mod 4294967296 then Ok (-1, s)
      else
        rbind (writei_loop ip src 0 off n s) (\<lambda>s.
        rbind (if 0 < n \<and> i_size (icache s ! ip) < off + n
               then iupdate ip (set_ino ip (\<lambda>i. i\<lparr>i_size := off + n\<rparr>) s)
               else Ok s) (\<lambda>s.
        Ok (to_int32 n, s))))"

section \<open>The blocks of a file\<close>

text \<open>The block number \<^verbatim>\<open>bmap\<close> would return for an allocated block, 0 for a hole.\<close>

definition bnum :: "'z fs_state_scheme \<Rightarrow> inode \<Rightarrow> nat \<Rightarrow> nat" where
  "bnum s i bn =
     (if bn < NDIRECT then i_addrs i ! bn
      else if i_indirect i = 0 then 0
      else get32 (blks s (i_dev i, i_indirect i)) (4 * (bn - NDIRECT)))"

text \<open>The first block behind the bitmap.\<close>

definition data_start :: "superblock \<Rightarrow> nat" where
  "data_start sp = BBLOCK (sb_size sp - 1) sp + 1"

definition layout_ok :: "'z fs_state_scheme \<Rightarrow> nat \<Rightarrow> bool" where
  "layout_ok s dev \<longleftrightarrow> bmap_ok s dev \<and> 0 < sb_size (sb s) \<and>
     (\<forall>b < data_start (sb s). \<not> block_free s dev b)"

text \<open>
  A block that holds data: behind the metadata, in use, not locked.
\<close>

definition data_block :: "'z fs_state_scheme \<Rightarrow> nat \<Rightarrow> nat \<Rightarrow> bool" where
  "data_block s dev b \<longleftrightarrow> data_start (sb s) \<le> b \<and> b < sb_size (sb s) \<and> \<not> block_free s dev b \<and>
     (dev, b) \<notin> set (held s)"

text \<open>
  The block map of a file: every block it names is a data block, and no block is named twice.
\<close>

definition file_ok :: "'z fs_state_scheme \<Rightarrow> inode \<Rightarrow> bool" where
  "file_ok s i \<longleftrightarrow> length (i_addrs i) = NDIRECT \<and>
     (\<forall>bn < MAXFILE. bnum s i bn \<noteq> 0 \<longrightarrow> data_block s (i_dev i) (bnum s i bn) \<and> bnum s i bn \<noteq> i_indirect i) \<and>
     (i_indirect i \<noteq> 0 \<longrightarrow> data_block s (i_dev i) (i_indirect i)) \<and>
     (\<forall>bn < MAXFILE. \<forall>bm < MAXFILE. bnum s i bn \<noteq> 0 \<and> bnum s i bn = bnum s i bm \<longrightarrow> bn = bm)"

text \<open>The contents of a file; holes read as zeros.\<close>

definition content :: "'z fs_state_scheme \<Rightarrow> inode \<Rightarrow> nat \<Rightarrow> byte" where
  "content s i off =
     (if bnum s i (off div BSIZE) = 0 then 0
      else blks s (i_dev i, bnum s i (off div BSIZE)) (off mod BSIZE))"

definition mapped :: "'z fs_state_scheme \<Rightarrow> inode \<Rightarrow> nat \<Rightarrow> bool" where
  "mapped s i off \<longleftrightarrow> bnum s i (off div BSIZE) \<noteq> 0"

lemma data_start_bitmap: "b < sb_size sp \<Longrightarrow> BBLOCK b sp < data_start sp"
  by (simp add: data_start_def BBLOCK_def div_le_mono less_Suc_eq_le)

lemma layout_free_data:
  "layout_ok s dev \<Longrightarrow> block_free s dev b \<Longrightarrow> data_start (sb s) \<le> b"
  by (auto simp: layout_ok_def not_less [symmetric])

lemma data_start_pos: "0 < data_start sp"
  by (simp add: data_start_def)

lemma data_block_not_bitmap: "data_block s dev b \<Longrightarrow> c < sb_size (sb s) \<Longrightarrow> b \<noteq> BBLOCK c (sb s)"
  using data_start_bitmap [of c "sb s"] by (auto simp: data_block_def)

lemma data_block_less: "data_block s dev b \<Longrightarrow> layout_ok s dev \<Longrightarrow> b < FSSIZE"
  by (auto simp: data_block_def layout_ok_def bmap_ok_def)

section \<open>What an operation on one file keeps\<close>

text \<open>
  From \<open>s\<close> to \<open>t\<close> no block in use becomes free, and blocks in use other than those of \<open>X\<close> and the
  bitmap keep their contents.
\<close>

definition keeps :: "nat \<Rightarrow> nat set \<Rightarrow> 'z fs_state_scheme \<Rightarrow> 'z fs_state_scheme \<Rightarrow> bool" where
  "keeps dev X s t \<longleftrightarrow> sb t = sb s \<and> held t = held s \<and> length (icache t) = length (icache s) \<and> mypid t = mypid s \<and>
     ticks t = ticks s \<and>
     (\<forall>c < sb_size (sb s). \<not> block_free s dev c \<longrightarrow> \<not> block_free t dev c) \<and>
     (\<forall>c < sb_size (sb s). \<not> block_free s dev c \<longrightarrow> c \<notin> X \<longrightarrow> (\<forall>d < sb_size (sb s). c \<noteq> BBLOCK d (sb s)) \<longrightarrow>
        blks t (dev, c) = blks s (dev, c))"

lemma keeps_refl [simp]: "keeps dev X s s"
  by (simp add: keeps_def)

lemma keeps_trans: "keeps dev X s t \<Longrightarrow> keeps dev X t u \<Longrightarrow> keeps dev X s u"
  by (simp add: keeps_def)

lemma keeps_mono: "keeps dev X s t \<Longrightarrow> X \<subseteq> Y \<Longrightarrow> keeps dev Y s t"
  unfolding keeps_def by blast

lemma keeps_fresh:
  assumes "keeps dev Y s t" "keeps dev Z t u" "Y \<subseteq> X" "\<forall>b \<in> Z. b \<in> X \<or> block_free s dev b"
  shows "keeps dev X s u"
proof -
  have "blks u (dev, c) = blks s (dev, c)"
    if "c < sb_size (sb s)" "\<not> block_free s dev c" "c \<notin> X" "\<forall>d < sb_size (sb s). c \<noteq> BBLOCK d (sb s)" for c
  proof -
    have "c \<notin> Y" "c \<notin> Z" using that assms(3,4) by auto
    moreover have "sb t = sb s" "\<not> block_free t dev c" using assms(1) that unfolding keeps_def by blast+
    ultimately show ?thesis using assms(1,2) that unfolding keeps_def by metis
  qed
  then show ?thesis using assms(1,2) unfolding keeps_def by simp
qed

lemma keeps_D:
  assumes "keeps dev X s t"
  shows "sb t = sb s" "held t = held s" "length (icache t) = length (icache s)" "mypid t = mypid s" "ticks t = ticks s"
    "c < sb_size (sb s) \<Longrightarrow> block_free t dev c \<Longrightarrow> block_free s dev c"
  using assms by (auto simp: keeps_def)

lemma keeps_block:
  "keeps dev X s t \<Longrightarrow> data_block s dev c \<Longrightarrow> c \<notin> X \<Longrightarrow> blks t (dev, c) = blks s (dev, c)"
  using data_block_not_bitmap [of s dev c] unfolding keeps_def data_block_def by blast

lemma keeps_data_block: "keeps dev X s t \<Longrightarrow> data_block s dev c \<Longrightarrow> data_block t dev c"
  unfolding keeps_def data_block_def by simp

lemma keeps_set_ino [simp]: "keeps dev X s (set_ino ip f t) = keeps dev X s t"
  by (simp add: keeps_def)

lemma keeps_layout:
  assumes "keeps dev X s t" "layout_ok s dev"
  shows "layout_ok t dev"
proof -
  note k = keeps_D [OF assms(1)]
  have "bmap_ok t dev"
    by (rule bmap_ok_same_map [of s]) (use assms(2) k in \<open>auto simp: layout_ok_def\<close>)
  moreover have "\<not> block_free t dev b" if "b < data_start (sb s)" for b
  proof -
    have "data_start (sb s) \<le> sb_size (sb s)"
      using assms(2) by (auto simp: layout_ok_def bmap_ok_def data_start_def Suc_le_eq)
    then show ?thesis using k(6) [of b] assms(2) that by (auto simp: layout_ok_def)
  qed
  ultimately show ?thesis using assms(2) k(1) by (simp add: layout_ok_def)
qed

lemma keeps_alloc:
  assumes "layout_ok s dev" "is_first_free s dev 0 b"
  shows "keeps dev X s (alloc_block dev b s)"
proof -
  have b: "bmap_ok s dev" "block_free s dev b" using assms by (auto simp: layout_ok_def is_first_free_def)
  show ?thesis
    unfolding keeps_def using b alloc_block_free [OF b]
    by (auto simp: alloc_block_blks) (metis assms(2) is_first_free_def)+
qed

lemma keeps_lupd:
  assumes "data_block s dev x"
  shows "keeps dev {x} s (lupd (dev, x) v s)"
  unfolding keeps_def using block_free_lupd [of x _ s dev v] data_block_not_bitmap [OF assms] by auto

text \<open>Adding one block to a file, and possibly an indirect block.\<close>

lemma file_ok_grow:
  assumes ok: "file_ok s i" "layout_ok s dev" "i_dev i = dev" "i_dev i' = dev" "length (i_addrs i') = NDIRECT"
    and k: "keeps dev X s t" and bn: "bn < MAXFILE"
    and old: "\<And>bm. bm < MAXFILE \<Longrightarrow> bm \<noteq> bn \<Longrightarrow> bnum t i' bm = bnum s i bm"
    and new: "bnum t i' bn = a" "a < sb_size (sb s)" "block_free s dev a" "\<not> block_free t dev a"
    and ind: "i_indirect i' = i_indirect i \<or> i_indirect i' < sb_size (sb s) \<and> block_free s dev (i_indirect i') \<and>
       \<not> block_free t dev (i_indirect i') \<and> i_indirect i' \<noteq> a"
  shows "file_ok t i'"
proof -
  note kd = keeps_D [OF k]
  have fresh: "data_block t dev b" if "b < sb_size (sb s)" "block_free s dev b" "\<not> block_free t dev b" for b
    using that layout_free_data [OF ok(2) that(2)] ok(2) kd(1,2)
    by (auto simp: data_block_def layout_ok_def bmap_ok_def)
  have used: "bnum s i bm \<noteq> b" if "bm < MAXFILE" "bnum s i bm \<noteq> 0" "block_free s dev b" for bm b
    using ok(1,3) that by (auto simp: file_ok_def data_block_def)
  have ind_used: "i_indirect i \<noteq> a" if "i_indirect i \<noteq> 0"
    using ok(1,3) that new(3) by (auto simp: file_ok_def data_block_def)
  have a0: "a \<noteq> 0" using layout_free_data [OF ok(2) new(3)] data_start_pos [of "sb s"] by auto
  have old_ok: "data_block t dev (bnum s i bm) \<and> bnum s i bm \<noteq> i_indirect i'"
    if "bm < MAXFILE" "bnum s i bm \<noteq> 0" for bm
  proof -
    have "data_block s dev (bnum s i bm)" "bnum s i bm \<noteq> i_indirect i"
      using ok(1,3) that by (auto simp: file_ok_def)
    then show ?thesis using keeps_data_block [OF k] ind used [OF that] by auto
  qed
  have "data_block t dev (bnum t i' bm) \<and> bnum t i' bm \<noteq> i_indirect i'"
    if "bm < MAXFILE" "bnum t i' bm \<noteq> 0" for bm
  proof (cases "bm = bn")
    case True
    then show ?thesis using new fresh [OF new(2-4)] ind ind_used a0 by auto
  next
    case False
    then show ?thesis using that old [OF that(1)] old_ok [OF that(1)] by simp
  qed
  moreover have "data_block t dev (i_indirect i')" if "i_indirect i' \<noteq> 0"
    using ind
  proof
    assume e: "i_indirect i' = i_indirect i"
    then have "data_block s dev (i_indirect i)" using ok(1,3) that by (auto simp: file_ok_def)
    then show ?thesis using keeps_data_block [OF k] e by simp
  qed (use fresh in blast)
  moreover have "b1 = b2"
    if "b1 < MAXFILE" "b2 < MAXFILE" "bnum t i' b1 \<noteq> 0" "bnum t i' b1 = bnum t i' b2" for b1 b2
  proof -
    have inj: "\<And>b1 b2. b1 < MAXFILE \<Longrightarrow> b2 < MAXFILE \<Longrightarrow> bnum s i b1 \<noteq> 0 \<Longrightarrow> bnum s i b1 = bnum s i b2 \<Longrightarrow> b1 = b2"
      using ok(1) by (auto simp: file_ok_def)
    have na: "bnum s i bm \<noteq> a" if "bm < MAXFILE" for bm
      using used [OF that _ new(3)] a0 by blast
    show ?thesis
    proof (cases "b1 = bn"; cases "b2 = bn")
      assume "b1 = bn" "b2 \<noteq> bn"
      then show ?thesis using that(2,4) new(1) old [of b2] na [of b2] by simp
    next
      assume "b1 \<noteq> bn" "b2 = bn"
      then show ?thesis using that(1,4) new(1) old [of b1] na [of b1] by simp
    next
      assume "b1 \<noteq> bn" "b2 \<noteq> bn"
      then have "bnum s i b1 \<noteq> 0" "bnum s i b1 = bnum s i b2" using that old [of b1] old [of b2] by simp_all
      then show ?thesis by (rule inj [OF that(1,2)])
    qed simp
  qed
  ultimately show ?thesis using ok by (simp add: file_ok_def)
qed

section \<open>bmap\<close>

definition nfree :: "'z fs_state_scheme \<Rightarrow> nat \<Rightarrow> nat" where
  "nfree s dev = card {b. b < sb_size (sb s) \<and> block_free s dev b}"

lemma nfree_set_ino [simp]: "nfree (set_ino ip f s) dev = nfree s dev"
  by (simp add: nfree_def)

lemma nfree_pos: "0 < nfree s dev \<Longrightarrow> \<exists>b < sb_size (sb s). block_free s dev b"
  unfolding nfree_def card_gt_0_iff by blast

lemma nfree_alloc:
  assumes "bmap_ok s dev" "b < sb_size (sb s)" "block_free s dev b"
  shows "Suc (nfree (alloc_block dev b s) dev) = nfree s dev"
proof -
  have "{c. c < sb_size (sb s) \<and> block_free (alloc_block dev b s) dev c} = {c. c < sb_size (sb s) \<and> block_free s dev c} - {b}"
    using alloc_block_free [OF assms(1,3)] by blast
  moreover have "Suc (card ({c. c < sb_size (sb s) \<and> block_free s dev c} - {b})) = card {c. c < sb_size (sb s) \<and> block_free s dev c}"
    by (rule card_Suc_Diff1) (use assms(2,3) in simp_all)
  ultimately show ?thesis by (simp add: nfree_def)
qed

lemma nfree_lupd:
  assumes "data_block s dev x"
  shows "nfree (lupd (dev, x) v s) dev = nfree s dev"
proof -
  have "{c. c < sb_size (sb s) \<and> block_free (lupd (dev, x) v s) dev c} = {c. c < sb_size (sb s) \<and> block_free s dev c}"
    using block_free_lupd [of x _ s dev v] data_block_not_bitmap [OF assms] by blast
  then show ?thesis by (simp add: nfree_def)
qed

text \<open>The result of giving block \<open>bn\<close> of a file the number \<open>a\<close>: nothing else of the file changes.\<close>

definition grown :: "nat \<Rightarrow> nat \<Rightarrow> 'z fs_state_scheme \<Rightarrow> inode \<Rightarrow> nat \<Rightarrow> 'z fs_state_scheme \<Rightarrow> inode \<Rightarrow> bool" where
  "grown ip bn s i a t i' \<longleftrightarrow>
     icache t = (icache s)[ip := i'] \<and> i' = i\<lparr>i_addrs := i_addrs i', i_indirect := i_indirect i'\<rparr> \<and>
     keeps (i_dev i) ({i_indirect i} - {0}) s t \<and> a \<noteq> 0 \<and> bnum t i' bn = a \<and>
     (\<forall>bm < MAXFILE. bm \<noteq> bn \<longrightarrow> bnum t i' bm = bnum s i bm) \<and> file_ok t i' \<and>
     (i_indirect i' = i_indirect i \<or> i_indirect i = 0 \<and> block_free s (i_dev i) (i_indirect i')) \<and>
     nfree s (i_dev i) \<le> nfree t (i_dev i) + (if i_indirect i = 0 then 2 else 1) \<and>
     (if bnum s i bn = 0 then a < sb_size (sb s) \<and> block_free s (i_dev i) a \<and> blks t (i_dev i, a) = (\<lambda>_. 0)
      else t = s \<and> i' = i)"

lemma file_ok_block: "file_ok s i \<Longrightarrow> bn < MAXFILE \<Longrightarrow> bnum s i bn \<noteq> 0 \<Longrightarrow> data_block s (i_dev i) (bnum s i bn)"
  by (simp add: file_ok_def)

lemma file_ok_indirect: "file_ok s i \<Longrightarrow> i_indirect i \<noteq> 0 \<Longrightarrow> data_block s (i_dev i) (i_indirect i)"
  by (simp add: file_ok_def)

lemma bread_data:
  assumes "data_block s dev b" "layout_ok s dev" "txn n (Suc h) s"
  shows "bread dev b s = Ok (\<lparr>b_dev = dev, b_blockno = b, b_data = blks s (dev, b)\<rparr>, s\<lparr>held := (dev, b) # held s\<rparr>)"
  by (rule txn_bread [OF assms(3)]) (use assms data_block_less [OF assms(1,2)] in \<open>auto simp: data_block_def\<close>)

text \<open>A buffer is available to \<^verbatim>\<open>bget\<close>: not all are locked or wait for the log. No transaction is needed.\<close>

definition buf_free :: "'z blk_state_scheme \<Rightarrow> bool" where
  "buf_free s \<longleftrightarrow> card (set (held s) \<union> set (dirty s)) < NBUF"

lemma txn_buf_free: "txn n (Suc h) s \<Longrightarrow> buf_free s"
  by (simp add: txn_def buf_free_def)

lemma bread_data_free:
  assumes "data_block s dev b" "layout_ok s dev" "buf_free s"
  shows "bread dev b s = Ok (\<lparr>b_dev = dev, b_blockno = b, b_data = blks s (dev, b)\<rparr>, s\<lparr>held := (dev, b) # held s\<rparr>)"
  using assms data_block_less [OF assms(1,2)] by (auto simp: bread_def buf_free_def data_block_def)

lemma block_free_held [simp]: "block_free (s\<lparr>held := h\<rparr>) = block_free s"
  by (simp add: block_free_def fun_eq_iff)

lemma is_first_free_held [simp]: "is_first_free (s\<lparr>held := h\<rparr>) = is_first_free s"
  by (simp add: is_first_free_def fun_eq_iff)

lemma alloc_block_held: "alloc_block dev b (s\<lparr>held := h\<rparr>) = (alloc_block dev b s)\<lparr>held := h\<rparr>"
  by (simp add: alloc_block_def lupd_held)

lemma bmap_ok_held:
  assumes "bmap_ok s dev" "data_block s dev x"
  shows "bmap_ok (s\<lparr>held := (dev, x) # held s\<rparr>) dev"
  using assms data_block_not_bitmap [OF assms(2)] unfolding bmap_ok_def
  by (auto simp: data_block_def)

lemma bmap_hit:
  assumes "file_ok s i" "layout_ok s (i_dev i)" "i = icache s ! ip" "bn < MAXFILE" "bnum s i bn \<noteq> 0" "buf_free s"
  shows "bmap ip bn s = Ok (bnum s i bn, s)"
proof (cases "bn < NDIRECT")
  case True
  then show ?thesis using assms by (simp add: bmap_def bnum_def Let_def)
next
  case False
  then have ind: "i_indirect i \<noteq> 0" using assms(5) by (simp add: bnum_def split: if_splits)
  note rd = bread_data_free [OF file_ok_indirect [OF assms(1) ind] assms(2,6)]
  show ?thesis using False assms ind rd by (simp add: bmap_def bnum_def Let_def)
qed

lemma alloc_block_zero: "blks (alloc_block dev b s) (dev, b) = (\<lambda>_. 0)"
  by (simp add: alloc_block_blks)

lemma bmap_direct_new:
  assumes "file_ok s i" "layout_ok s (i_dev i)" "i = icache s ! ip" "ip < length (icache s)"
    and "bn < NDIRECT" "bnum s i bn = 0" "txn (Suc (Suc n)) (Suc h) s" "\<exists>b < sb_size (sb s). block_free s (i_dev i) b"
  shows "\<exists>a t i'. bmap ip bn s = Ok (a, t) \<and> grown ip bn s i a t i' \<and> txn n (Suc h) t"
proof -
  have t2: "txn 2 1 s" by (rule txn_mono [OF assms(7)]) simp_all
  have bo: "bmap_ok s (i_dev i)" using assms(2) by (simp add: layout_ok_def)
  from balloc_ok [OF t2 bo assms(8)] obtain b where
    b: "is_first_free s (i_dev i) 0 b" "balloc (i_dev i) s = Ok (b, alloc_block (i_dev i) b s)" .
  have bf: "b < sb_size (sb s)" "block_free s (i_dev i) b" using b(1) by (auto simp: is_first_free_def)
  let ?i = "i\<lparr>i_addrs := (i_addrs i)[bn := b]\<rparr>"
  let ?t = "set_ino ip (\<lambda>i. i\<lparr>i_addrs := (i_addrs i)[bn := b]\<rparr>) (alloc_block (i_dev i) b s)"
  have k: "keeps (i_dev i) X s ?t" for X using keeps_alloc [OF assms(2) b(1)] by simp
  have len: "length (i_addrs i) = NDIRECT" using assms(1) by (simp add: file_ok_def)
  have ind: "blks ?t (i_dev i, i_indirect i) = blks s (i_dev i, i_indirect i)" if "i_indirect i \<noteq> 0"
    using keeps_block [OF k [of "{}"] file_ok_indirect [OF assms(1) that]] by simp
  have new: "bnum ?t ?i bn = b" using assms(5) len by (simp add: bnum_def)
  have old: "bnum ?t ?i bm = bnum s i bm" if "bm < MAXFILE" "bm \<noteq> bn" for bm
    using that ind by (auto simp: bnum_def nth_list_update)
  have nf: "\<not> block_free ?t (i_dev i) b"
    using alloc_block_free [OF bo bf(2) bf(1)] by simp
  have ok: "file_ok ?t ?i"
    by (rule file_ok_grow [OF assms(1,2) refl _ _ k _ old new bf nf]) (use assms(5) len in auto)
  have b0: "b \<noteq> 0" using layout_free_data [OF assms(2) bf(2)] data_start_pos [of "sb s"] by auto
  have "bmap ip bn s = Ok (b, ?t)" using assms b(2) by (simp add: bmap_def bnum_def Let_def)
  moreover have "grown ip bn s i b ?t ?i"
    unfolding grown_def using k new old ok b0 bf assms(3,6) nfree_alloc [OF bo bf] by (simp add: alloc_block_zero)
  moreover have "txn n (Suc h) ?t" using alloc_block_txn [OF assms(7)] by simp
  ultimately show ?thesis by blast
qed

lemma is_first_free_unique: "is_first_free s dev n b \<Longrightarrow> is_first_free s dev n c \<Longrightarrow> b = c"
  unfolding is_first_free_def by (metis linorder_neqE_nat)

lemma is_first_free_exists:
  assumes "b < sb_size (sb s)" "block_free s dev b"
  obtains c where "is_first_free s dev 0 c"
proof -
  have "\<exists>c. c < sb_size (sb s) \<and> block_free s dev c" using assms by blast
  then obtain c where c: "c < sb_size (sb s) \<and> block_free s dev c"
    "\<forall>d<c. \<not> (d < sb_size (sb s) \<and> block_free s dev d)"
    unfolding exists_least_iff [of "\<lambda>c. c < sb_size (sb s) \<and> block_free s dev c"] by blast
  then have "\<not> block_free s dev d" if "d < c" for d using that by (simp add: order_less_trans [of d c])
  then show thesis using c(1) by (intro that [of c]) (simp add: is_first_free_def)
qed

lemma lupd_held_cons [simp]: "(lupd a v s)\<lparr>held := held t\<rparr> = lupd a v s" if "held s = held t"
  using that by (simp add: lupd_def)

lemma bmap_indirect_eq:
  assumes ok: "file_ok s i" "layout_ok s (i_dev i)" "i = icache s ! ip"
    and bn: "\<not> bn < NDIRECT" "bn < MAXFILE" "bnum s i bn = 0" "i_indirect i \<noteq> 0"
    and room: "txn (Suc (Suc (Suc n))) (Suc (Suc h)) s"
    and b: "is_first_free s (i_dev i) 0 b"
  shows "bmap ip bn s = Ok (b, lupd (i_dev i, i_indirect i)
           (put32 (blks s (i_dev i, i_indirect i)) (4 * (bn - NDIRECT)) b) (alloc_block (i_dev i) b s))"
proof -
  let ?x = "i_indirect i" let ?d = "i_dev i"
  have dx: "data_block s ?d ?x" by (rule file_ok_indirect [OF ok(1) bn(4)])
  let ?s = "s\<lparr>held := (?d, ?x) # held s\<rparr>"
  note rd = bread_data [OF dx ok(2) room]
  have bo: "bmap_ok ?s ?d" using bmap_ok_held [OF _ dx] ok(2) by (simp add: layout_ok_def)
  have free: "b < sb_size (sb s)" "block_free s ?d b" using b by (auto simp: is_first_free_def)
  have t1: "txn 2 1 ?s" by (rule txn_mono [OF txn_held [OF room]]) simp_all
  have al: "balloc ?d ?s = Ok (b, (alloc_block ?d b s)\<lparr>held := (?d, ?x) # held s\<rparr>)"
  proof -
    from balloc_ok [OF t1 bo] obtain c where c: "is_first_free ?s ?d 0 c" "balloc ?d ?s = Ok (c, alloc_block ?d c ?s)"
      using free by auto
    have "c = b" by (rule is_first_free_unique [of s ?d 0]) (use b c(1) in auto)
    then show ?thesis using c(2) by (simp add: alloc_block_held)
  qed
  have t2: "txn (Suc n) (Suc (Suc h)) (alloc_block ?d b s)" by (rule alloc_block_txn [OF room])
  note lw = txn_log_write_held [OF t2, of _ "(?d, ?x)", simplified]
  have z: "get32 (blks s (?d, ?x)) (4 * (bn - NDIRECT)) = 0" "i_indirect (icache s ! ip) \<noteq> 0" "i_dev (icache s ! ip) = ?d"
    "i_indirect (icache s ! ip) = ?x"
    using bn ok(3) by (auto simp: bnum_def)
  have lt: "bn - NDIRECT < NINDIRECT" using bn by simp
  show ?thesis
    unfolding bmap_def Let_def using bn(1) lt z rd al lw by simp
qed

lemma bmap_indirect_new:
  assumes ok: "file_ok s i" "layout_ok s (i_dev i)" "i = icache s ! ip" "ip < length (icache s)"
    and bn: "\<not> bn < NDIRECT" "bn < MAXFILE" "bnum s i bn = 0" "i_indirect i \<noteq> 0"
    and room: "txn (Suc (Suc (Suc n))) (Suc (Suc h)) s" "\<exists>b < sb_size (sb s). block_free s (i_dev i) b"
  shows "\<exists>a t i'. bmap ip bn s = Ok (a, t) \<and> grown ip bn s i a t i' \<and> txn n (Suc (Suc h)) t"
proof -
  let ?x = "i_indirect i" let ?d = "i_dev i"
  from room(2) obtain b where b: "is_first_free s ?d 0 b" using is_first_free_exists by blast
  then have bf: "b < sb_size (sb s)" "block_free s ?d b" by (auto simp: is_first_free_def)
  let ?v = "put32 (blks s (?d, ?x)) (4 * (bn - NDIRECT)) b"
  let ?t = "lupd (?d, ?x) ?v (alloc_block ?d b s)"
  have bo: "bmap_ok s ?d" using ok(2) by (simp add: layout_ok_def)
  have dx: "data_block s ?d ?x" by (rule file_ok_indirect [OF ok(1) bn(4)])
  have k1: "keeps ?d X s (alloc_block ?d b s)" for X by (rule keeps_alloc [OF ok(2) b])
  have dx1: "data_block (alloc_block ?d b s) ?d ?x" by (rule keeps_data_block [OF k1 dx])
  have "keeps ?d {?x} s ?t" by (rule keeps_trans [OF k1 keeps_lupd [OF dx1]])
  then have k: "keeps ?d ({?x} - {0}) s ?t" using bn(4) by simp
  have xb: "?x \<noteq> b" using dx bf by (auto simp: data_block_def)
  have b0: "b \<noteq> 0" using layout_free_data [OF ok(2) bf(2)] data_start_pos [of "sb s"] by auto
  have b32: "b < 2 ^ 32" using bf bo by (auto simp: bmap_ok_def)
  have new: "bnum ?t i bn = b" using bn b32 by (simp add: bnum_def)
  have old: "bnum ?t i bm = bnum s i bm" if "bm < MAXFILE" "bm \<noteq> bn" for bm
  proof (cases "bm < NDIRECT")
    case False
    then have "bm - NDIRECT \<noteq> bn - NDIRECT" using that bn(1) by simp
    then have "4 * (bm - NDIRECT) + 4 \<le> 4 * (bn - NDIRECT) \<or> 4 * (bn - NDIRECT) + 4 \<le> 4 * (bm - NDIRECT)" by presburger
    then show ?thesis using False by (simp add: bnum_def get32_put32_other)
  qed (simp add: bnum_def)
  have nf: "\<not> block_free ?t ?d b"
    using alloc_block_free [OF bo bf(2) bf(1)] block_free_lupd [of ?x b "alloc_block ?d b s" ?d ?v]
      data_block_not_bitmap [OF dx bf(1)] by simp
  have good: "file_ok ?t i"
    by (rule file_ok_grow [OF ok(1,2) refl refl _ k bn(2) old new bf nf]) (use ok(1) in \<open>auto simp: file_ok_def\<close>)
  have "icache ?t = (icache s)[ip := i]" using ok(3,4) by simp
  moreover have "blks ?t (?d, b) = (\<lambda>_. 0)" using xb by (simp add: alloc_block_zero)
  ultimately have "grown ip bn s i b ?t i"
    unfolding grown_def using k new old good b0 bf bn(3) nfree_alloc [OF bo bf] nfree_lupd [OF dx1, of ?v] by simp
  moreover have "txn n (Suc (Suc h)) ?t"
    by (rule txn_mono [OF txn_lupd [OF alloc_block_txn [OF room(1)]]]) simp_all
  ultimately show ?thesis
    using bmap_indirect_eq [OF ok(1-3) bn room(1) b] by blast
qed

text \<open>A file without an indirect block first gets one.\<close>

lemma bmap_get_indirect:
  assumes "\<not> bn < NDIRECT" "bn < MAXFILE" "i = icache s ! ip" "i_indirect i = 0" "ip < length (icache s)"
    and "balloc (i_dev i) s = Ok (b, t)" "b \<noteq> 0" "icache t = icache s"
  shows "bmap ip bn s = bmap ip bn (set_ino ip (\<lambda>i. i\<lparr>i_indirect := b\<rparr>) t)"
proof -
  have "bn - NDIRECT < NINDIRECT" using assms(1,2) by simp
  with assms show ?thesis by (simp add: bmap_def Let_def cong: if_cong)
qed

lemma get32_zero [simp]: "get32 (\<lambda>_. 0) off = 0"
  by (simp add: get32_def get16_def)

lemma bmap_two_new:
  assumes ok: "file_ok s i" "layout_ok s (i_dev i)" "i = icache s ! ip" "ip < length (icache s)"
    and bn: "\<not> bn < NDIRECT" "bn < MAXFILE" "i_indirect i = 0"
    and room: "txn (Suc (Suc (Suc (Suc (Suc n))))) (Suc (Suc h)) s"
      "2 \<le> nfree s (i_dev i)"
  shows "\<exists>a t i'. bmap ip bn s = Ok (a, t) \<and> grown ip bn s i a t i' \<and> txn n (Suc (Suc h)) t"
proof -
  let ?d = "i_dev i"
  have t2: "txn 2 1 s" by (rule txn_mono [OF room(1)]) simp_all
  have bo: "bmap_ok s ?d" using ok(2) by (simp add: layout_ok_def)
  have "\<exists>b < sb_size (sb s). block_free s ?d b" by (rule nfree_pos) (use room(2) in simp)
  from balloc_ok [OF t2 bo this] obtain b where
    b: "is_first_free s ?d 0 b" "balloc ?d s = Ok (b, alloc_block ?d b s)" .
  have bf: "b < sb_size (sb s)" "block_free s ?d b" using b(1) by (auto simp: is_first_free_def)
  have b0: "b \<noteq> 0" using layout_free_data [OF ok(2) bf(2)] data_start_pos [of "sb s"] by auto
  let ?j = "i\<lparr>i_indirect := b\<rparr>" and ?u = "set_ino ip (\<lambda>i. i\<lparr>i_indirect := b\<rparr>) (alloc_block ?d b s)"
  have k1: "keeps ?d X s ?u" for X using keeps_alloc [OF ok(2) b(1)] by simp
  have l1: "layout_ok ?u ?d" by (rule keeps_layout [OF k1 ok(2)])
  have same: "bnum ?u ?j bm = bnum s i bm" if "bm < MAXFILE" for bm
    using bn(3) b0 by (simp add: bnum_def alloc_block_zero)
  have nf: "\<not> block_free ?u ?d b" using alloc_block_free [OF bo bf(2) bf(1)] by simp
  have "data_block ?u ?d b"
    using layout_free_data [OF ok(2) bf(2)] bf nf bo by (auto simp: data_block_def bmap_ok_def)
  moreover have "data_block ?u ?d (bnum s i bm) \<and> bnum s i bm \<noteq> b" if "bm < MAXFILE" "bnum s i bm \<noteq> 0" for bm
    using file_ok_block [OF ok(1) that] keeps_data_block [OF k1, of "bnum s i bm"] bf(2) by (auto simp: data_block_def)
  ultimately have f1: "file_ok ?u ?j"
    using ok(1) b0 unfolding file_ok_def by (auto simp: same)
  have j: "?j = icache ?u ! ip" using ok by simp
  have z: "bnum ?u ?j bn = 0" using bn b0 by (simp add: bnum_def alloc_block_zero)
  have nf1: "Suc (nfree ?u ?d) = nfree s ?d" using nfree_alloc [OF bo bf] by simp
  have "\<exists>b < sb_size (sb ?u). block_free ?u ?d b" by (rule nfree_pos) (use nf1 room(2) in simp)
  then have "\<exists>a t i'. bmap ip bn ?u = Ok (a, t) \<and> grown ip bn ?u ?j a t i' \<and> txn n (Suc (Suc h)) t"
    by (intro bmap_indirect_new [OF f1 _ j _ bn(1,2) z])
       (use l1 ok(4) b0 alloc_block_txn [OF room(1)] in simp_all)
  then obtain a t i' where r: "bmap ip bn ?u = Ok (a, t)" "grown ip bn ?u ?j a t i'" "txn n (Suc (Suc h)) t" by blast
  have ind': "i_indirect i' = b" using r(2) b0 by (simp add: grown_def)
  have k2: "keeps ?d ({b} - {0}) ?u t" using r(2) by (simp add: grown_def)
  have k: "keeps ?d ({i_indirect i} - {0}) s t"
    by (rule keeps_fresh [OF k1 [of "{}"] k2]) (use bf(2) in simp_all)
  have afree: "a < sb_size (sb s)" "block_free s ?d a" "blks t (?d, a) = (\<lambda>_. 0)"
    using r(2) z alloc_block_free [OF bo bf(2), of a] by (auto simp: grown_def)
  have i': "i' = i\<lparr>i_addrs := i_addrs i', i_indirect := i_indirect i'\<rparr>"
    using r(2) by (cases i; cases i') (simp add: grown_def)
  have "nfree s ?d \<le> nfree t ?d + 2" using r(2) nf1 b0 by (simp add: grown_def)
  then have "grown ip bn s i a t i'"
    using r(2) k afree i' same bn(1,3) ind' bf(2) unfolding grown_def by (simp add: bnum_def)
  moreover have "bmap ip bn s = bmap ip bn ?u"
    by (rule bmap_get_indirect [OF bn(1,2) ok(3) bn(3) ok(4) b(2) b0]) simp
  ultimately show ?thesis using r by metis
qed

lemma bmap_grows:
  assumes ok: "file_ok s i" "layout_ok s (i_dev i)" "i = icache s ! ip" "ip < length (icache s)" "bn < MAXFILE"
    and room: "txn (n + 5) (Suc (Suc h)) s" "2 \<le> nfree s (i_dev i)"
  shows "\<exists>a t i'. bmap ip bn s = Ok (a, t) \<and> grown ip bn s i a t i' \<and> txn n (Suc (Suc h)) t"
proof (cases "bnum s i bn = 0")
  case True
  have free: "\<exists>b < sb_size (sb s). block_free s (i_dev i) b" by (rule nfree_pos) (use room(2) in simp)
  have tx: "m \<le> n + 5 \<Longrightarrow> txn m (Suc (Suc h)) s" "m \<le> n + 5 \<Longrightarrow> txn m (Suc h) s" for m
    using txn_mono [OF room(1)] by simp_all
  consider "bn < NDIRECT" | "\<not> bn < NDIRECT" "i_indirect i \<noteq> 0" | "\<not> bn < NDIRECT" "i_indirect i = 0" by blast
  then show ?thesis
  proof cases
    case 1
    show ?thesis by (rule bmap_direct_new [OF ok(1-4) 1 True tx(1) free]) simp
  next
    case 2
    show ?thesis by (rule bmap_indirect_new [OF ok(1-4) 2(1) ok(5) True 2(2) tx(1) free]) simp
  next
    case 3
    show ?thesis by (rule bmap_two_new [OF ok(1-4) 3(1) ok(5) 3(2) tx(1) room(2)]) simp
  qed
next
  case False
  have t: "txn n (Suc (Suc h)) s" "txn 0 (Suc 0) s" using txn_mono [OF room(1)] by simp_all
  have "bmap ip bn s = Ok (bnum s i bn, s)" by (rule bmap_hit [OF ok(1-3,5) False txn_buf_free [OF t(2)]])
  moreover have "grown ip bn s i (bnum s i bn) s i" using ok False by (simp add: grown_def)
  ultimately show ?thesis using t(1) by blast
qed

lemma grown_dev: "grown ip bn s i a t i' \<Longrightarrow> i_dev i' = i_dev i"
proof -
  assume "grown ip bn s i a t i'"
  then have "i' = i\<lparr>i_addrs := i_addrs i', i_indirect := i_indirect i'\<rparr>" by (simp only: grown_def)
  from arg_cong [OF this, of i_dev] show ?thesis by simp
qed

lemma grown_content:
  assumes "grown ip bn s i a t i'" "file_ok s i" "off < MAXFILE * BSIZE"
  shows "content t i' off = content s i off"
proof -
  let ?m = "off div BSIZE"
  have m: "?m < MAXFILE" using assms(3) by (simp add: less_mult_imp_div_less)
  have dev: "i_dev i' = i_dev i" by (rule grown_dev [OF assms(1)])
  show ?thesis
  proof (cases "bnum s i ?m = 0")
    case True
    then show ?thesis using assms(1) m dev by (cases "?m = bn") (auto simp: grown_def content_def)
  next
    case False
    have "bnum t i' ?m = bnum s i ?m" using assms(1) m False by (cases "?m = bn") (auto simp: grown_def)
    moreover have "bnum s i ?m \<noteq> i_indirect i" using assms(2) m False by (simp add: file_ok_def)
    then have "blks t (i_dev i, bnum s i ?m) = blks s (i_dev i, bnum s i ?m)"
      using keeps_block [of "i_dev i" "{i_indirect i} - {0}" s t] file_ok_block [OF assms(2) m False] assms(1) by (simp add: grown_def)
    ultimately show ?thesis using False dev by (simp add: content_def)
  qed
qed

section \<open>Writing\<close>

text \<open>The blocks of a file, and the number of blocks a write touches.\<close>

definition own :: "'z fs_state_scheme \<Rightarrow> inode \<Rightarrow> nat set" where
  "own s i = insert (i_indirect i) {bnum s i bn | bn. bn < MAXFILE} - {0}"

definition nblk :: "nat \<Rightarrow> nat \<Rightarrow> nat" where
  "nblk off n = (if n = 0 then 0 else (off + n - 1) div BSIZE - off div BSIZE + 1)"

text \<open>What a write to one file may change.\<close>

definition wrote :: "nat \<Rightarrow> 'z fs_state_scheme \<Rightarrow> inode \<Rightarrow> 'z fs_state_scheme \<Rightarrow> inode \<Rightarrow> bool" where
  "wrote ip s i t i' \<longleftrightarrow>
     icache t = (icache s)[ip := i'] \<and> i' = i\<lparr>i_addrs := i_addrs i', i_indirect := i_indirect i'\<rparr> \<and>
     keeps (i_dev i) (own s i) s t \<and> file_ok t i' \<and> (\<forall>b \<in> own t i'. b \<in> own s i \<or> block_free s (i_dev i) b)"

lemma wrote_dev: "wrote ip s i t i' \<Longrightarrow> i_dev i' = i_dev i"
proof -
  assume "wrote ip s i t i'"
  then have "i' = i\<lparr>i_addrs := i_addrs i', i_indirect := i_indirect i'\<rparr>" by (simp only: wrote_def)
  from arg_cong [OF this, of i_dev] show ?thesis by simp
qed

lemma own_free: "file_ok s i \<Longrightarrow> b \<in> own s i \<Longrightarrow> \<not> block_free s (i_dev i) b \<and> b < sb_size (sb s)"
  by (auto simp: own_def file_ok_def data_block_def)

lemma wrote_refl: "file_ok s i \<Longrightarrow> i = icache s ! ip \<Longrightarrow> wrote ip s i s i"
  by (simp add: wrote_def)

lemma wrote_trans:
  assumes "wrote ip s i t j" "wrote ip t j u k"
  shows "wrote ip s i u k"
proof -
  note d = wrote_dev [OF assms(1)]
  have kk: "keeps (i_dev i) (own s i) s t" "keeps (i_dev i) (own t j) t u"
    using assms d by (auto simp: wrote_def)
  have f: "file_ok u k" using assms(2) by (simp add: wrote_def)
  have o: "\<forall>b \<in> own t j. b \<in> own s i \<or> block_free s (i_dev i) b" using assms(1) by (simp add: wrote_def)
  have "keeps (i_dev i) (own s i) s u" by (rule keeps_fresh [OF kk subset_refl o])
  moreover have "b \<in> own s i \<or> block_free s (i_dev i) b" if "b \<in> own u k" for b
  proof -
    have "b \<in> own t j \<or> block_free t (i_dev i) b" using assms(2) that d by (auto simp: wrote_def)
    moreover have "b < sb_size (sb s)"
      using own_free [OF f that] keeps_D(1) [OF kk(1)] keeps_D(1) [OF kk(2)] by simp
    ultimately show ?thesis using o keeps_D(6) [OF kk(1)] by blast
  qed
  moreover have "k = i\<lparr>i_addrs := i_addrs k, i_indirect := i_indirect k\<rparr>"
    using assms by (cases i; cases j; cases k) (simp add: wrote_def)
  moreover have "icache u = (icache s)[ip := k]" using assms by (simp add: wrote_def)
  ultimately show ?thesis using f by (simp add: wrote_def)
qed

lemma grown_own:
  assumes "grown ip bn s i a t i'" "b \<in> own t i'"
  shows "b \<in> own s i \<or> block_free s (i_dev i) b"
proof -
  consider "b = i_indirect i'" | bm where "bm < MAXFILE" "b = bnum t i' bm" using assms(2) by (auto simp: own_def)
  then show ?thesis
  proof cases
    case 1
    then show ?thesis using assms by (auto simp: grown_def own_def)
  next
    case 2
    have b0: "b \<noteq> 0" using assms(2) by (simp add: own_def)
    show ?thesis
    proof (cases "bm = bn \<and> bnum s i bn = 0")
      case True
      then show ?thesis using 2 assms(1) by (simp add: grown_def)
    next
      case False
      then have "b = bnum s i bm" using 2 assms(1) by (cases "bm = bn") (simp_all add: grown_def)
      then show ?thesis using 2(1) b0 by (auto simp: own_def)
    qed
  qed
qed

lemma grown_wrote:
  assumes "grown ip bn s i a t i'"
  shows "wrote ip s i t i'"
proof -
  have "keeps (i_dev i) ({i_indirect i} - {0}) s t" using assms by (simp only: grown_def)
  then have "keeps (i_dev i) (own s i) s t" by (rule keeps_mono) (auto simp: own_def)
  then show ?thesis using assms grown_own [OF assms] unfolding wrote_def by (simp only: grown_def) blast
qed

text \<open>Storing into a data block of the file.\<close>

lemma data_write:
  assumes ok: "file_ok s i" "i = icache s ! ip" "bn < MAXFILE" "a = bnum s i bn" "a \<noteq> 0"
  defines "t v \<equiv> lupd (i_dev i, a) v s"
  shows "bnum (t v) i bm = bnum s i bm" "wrote ip s i (t v) i" "nfree (t v) (i_dev i) = nfree s (i_dev i)"
    "off < MAXFILE * BSIZE \<Longrightarrow> content (t v) i off = (if off div BSIZE = bn then v (off mod BSIZE) else content s i off)"
proof -
  have d: "data_block s (i_dev i) a" using file_ok_block [OF ok(1,3)] ok(4,5) by simp
  have ai: "a \<noteq> i_indirect i" using ok by (simp add: file_ok_def)
  show bn: "bnum (t v) i bm = bnum s i bm" for bm using ai by (simp add: bnum_def t_def)
  have k: "keeps (i_dev i) {a} s (t v)" using keeps_lupd [OF d] by (simp add: t_def)
  have "file_ok (t v) i"
    using ok(1) keeps_data_block [OF k] unfolding file_ok_def bn by blast
  moreover have "own (t v) i = own s i" by (simp add: own_def bn)
  moreover have "a \<in> own s i" using ok(3-5) by (auto simp: own_def)
  then have "keeps (i_dev i) (own s i) s (t v)" by (intro keeps_mono [OF k]) simp
  moreover have "icache (t v) = (icache s)[ip := i]" using ok(2) by (simp add: t_def)
  ultimately show "wrote ip s i (t v) i" by (simp add: wrote_def)
  show "nfree (t v) (i_dev i) = nfree s (i_dev i)" using nfree_lupd [OF d] by (simp add: t_def)
  show "content (t v) i off = (if off div BSIZE = bn then v (off mod BSIZE) else content s i off)"
    if "off < MAXFILE * BSIZE"
  proof -
    have m: "off div BSIZE < MAXFILE" using that by (simp add: less_mult_imp_div_less)
    have "bnum s i (off div BSIZE) = a \<longrightarrow> off div BSIZE = bn"
      using ok(1,3-5) m unfolding file_ok_def by blast
    then show ?thesis using ok(4,5) by (auto simp: content_def bn) (auto simp: t_def)
  qed
qed

lemma write_block:
  assumes "data_block s dev a" "layout_ok s dev" "txn (Suc n) (Suc h) s"
  shows "rbind (bread dev a s) (\<lambda>(bp, s).
           let bp = bp\<lparr>b_data := f (b_data bp)\<rparr> in rbind (log_write bp s) (\<lambda>s. rbind (brelse bp s) g))
         = g (lupd (dev, a) (f (blks s (dev, a))) s)"
  using bread_data [OF assms] txn_log_write_held [OF assms(3)] by (simp add: Let_def)

lemma block_split:
  obtains q r where "off = q * BSIZE + r" "r < BSIZE" "off div BSIZE = q" "off mod BSIZE = r"
  using div_mult_mod_eq [of off BSIZE, symmetric] mod_less_divisor [of BSIZE off, OF zero_less_numeral] by blast

lemma block_end: "off + (BSIZE - off mod BSIZE) = (off div BSIZE + 1) * BSIZE"
  by (rule block_split [of off]) (simp add: algebra_simps)

lemma block_offset:
  assumes "l div BSIZE = off div BSIZE"
  shows "off mod BSIZE \<le> l mod BSIZE \<longleftrightarrow> off \<le> l" "l mod BSIZE < off mod BSIZE + m \<longleftrightarrow> l < off + m"
    "off \<le> l \<Longrightarrow> l mod BSIZE - off mod BSIZE = l - off"
  by (rule block_split [of off]; rule block_split [of l]; use assms in simp)+

lemma nblk_step:
  assumes "0 < n"
  shows "nblk off n = Suc (nblk (off + min n (BSIZE - off mod BSIZE)) (n - min n (BSIZE - off mod BSIZE)))"
proof (cases "n \<le> BSIZE - off mod BSIZE")
  case True
  have "(off + n - 1) div BSIZE = off div BSIZE"
  proof -
    have "off + n - 1 = off div BSIZE * BSIZE + (off mod BSIZE + n - 1)" using assms by simp
    moreover have "off mod BSIZE + n - 1 < BSIZE" using True assms by auto
    ultimately show ?thesis by simp
  qed
  then show ?thesis using True assms by (simp add: nblk_def)
next
  case False
  define m where "m = BSIZE - off mod BSIZE"
  have "off + m = (off div BSIZE + 1) * BSIZE" unfolding m_def by (rule block_end)
  then have e: "(off + m) div BSIZE = off div BSIZE + 1" by simp
  have lt: "m < n" using False by (simp add: m_def)
  then have "(off + m) div BSIZE \<le> (off + n - 1) div BSIZE" by (intro div_le_mono) simp
  then show ?thesis unfolding nblk_def m_def [symmetric] using lt e by (simp add: Suc_diff_le [symmetric])
qed

lemma same_block:
  assumes "off \<le> l" "l < off + (BSIZE - off mod BSIZE)"
  shows "l div BSIZE = off div BSIZE"
  by (rule block_split [of off]) (use assms in \<open>auto intro: div_nat_eqI\<close>)

lemma writei_step:
  assumes ok: "file_ok s i" "layout_ok s (i_dev i)" "i = icache s ! ip" "ip < length (icache s)"
    and rem: "0 < rem" "off + rem \<le> MAXFILE * BSIZE" "m = min rem (BSIZE - off mod BSIZE)"
    and room: "txn (n + 6) (Suc (Suc h)) s" "2 \<le> nfree s (i_dev i)"
  shows "\<exists>t i'. writei_loop ip src k off rem s = writei_loop ip src (k + m) (off + m) (rem - m) t \<and>
     wrote ip s i t i' \<and> txn n (Suc (Suc h)) t \<and> nfree s (i_dev i) \<le> nfree t (i_dev i) + 2 \<and>
     (\<forall>j < MAXFILE * BSIZE. content t i' j = (if off \<le> j \<and> j < off + m then src (k + (j - off)) else content s i j)) \<and>
     (\<forall>j < MAXFILE * BSIZE. mapped s i j \<or> off \<le> j \<and> j < off + m \<longrightarrow> mapped t i' j)"
proof -
  let ?bn = "off div BSIZE" and ?o = "off mod BSIZE"
  have bn: "?bn < MAXFILE" using rem by (simp add: less_mult_imp_div_less)
  have r1: "txn (Suc n + 5) (Suc (Suc h)) s" using room(1) by (rule txn_mono) simp_all
  from bmap_grows [OF ok bn r1 room(2)] obtain a u j where
    u: "bmap ip ?bn s = Ok (a, u)" "grown ip ?bn s i a u j" "txn (Suc n) (Suc (Suc h)) u" by blast
  have j: "i_dev j = i_dev i" "file_ok u j" "j = icache u ! ip" "bnum u j ?bn = a" "a \<noteq> 0"
    "nfree s (i_dev i) \<le> nfree u (i_dev i) + 2" "keeps (i_dev i) ({i_indirect i} - {0}) s u"
    using u(2) grown_dev [OF u(2)] ok(4) by (auto simp: grown_def split: if_splits)
  have lay: "layout_ok u (i_dev i)" by (rule keeps_layout [OF j(7) ok(2)])
  have da: "data_block u (i_dev i) a" using file_ok_block [OF j(2) bn] j by simp
  let ?v = "blit (blks u (i_dev i, a)) ?o (\<lambda>j. src (k + j)) m"
  let ?t = "lupd (i_dev i, a) ?v u"
  note dw = data_write [OF j(2,3) bn j(4) [symmetric] j(5), unfolded j(1), where v = ?v]
  have "writei_loop ip src k off rem s = writei_loop ip src (k + m) (off + m) (rem - m) ?t"
    using rem(1) u(1) j(1) j(3) [symmetric] rem(3)
      write_block [OF da lay u(3), of "\<lambda>d. blit d ?o (\<lambda>j. src (k + j)) m"]
    by (subst writei_loop.simps) (simp add: Let_def)
  moreover have "wrote ip s i ?t j" by (rule wrote_trans [OF grown_wrote [OF u(2)] dw(2)])
  moreover have "txn n (Suc (Suc h)) ?t" by (rule txn_lupd [OF u(3)])
  moreover have "content ?t j l = (if off \<le> l \<and> l < off + m then src (k + (l - off)) else content s i l)"
    if "l < MAXFILE * BSIZE" for l
  proof (cases "l div BSIZE = ?bn")
    case True
    have c: "blks u (i_dev i, a) (l mod BSIZE) = content u j l" using True j by (simp add: content_def)
    show ?thesis
      using True dw(4) [OF that] c grown_content [OF u(2) ok(1) that] block_offset [OF True] by (auto simp: blit_def)
  next
    case False
    have "\<not> (off \<le> l \<and> l < off + m)" using False same_block [of off l] rem(3) min.cobounded2 [of rem "BSIZE - off mod BSIZE"] by linarith
    then show ?thesis using False dw(4) [OF that] grown_content [OF u(2) ok(1) that] by presburger
  qed
  moreover have "mapped ?t j l" if "l < MAXFILE * BSIZE" "mapped s i l \<or> off \<le> l \<and> l < off + m" for l
  proof -
    have "l div BSIZE < MAXFILE" using that(1) by (simp add: less_mult_imp_div_less)
    moreover have "l div BSIZE = ?bn \<or> mapped s i l"
      using that(2) same_block [of off l] rem(3) min.cobounded2 [of rem "BSIZE - off mod BSIZE"] by linarith
    ultimately show ?thesis
      using u(2) j(4,5) unfolding mapped_def dw(1) by (cases "l div BSIZE = ?bn") (auto simp: grown_def)
  qed
  moreover have "nfree s (i_dev i) \<le> nfree ?t (i_dev i) + 2" using j(6) dw(3) by linarith
  ultimately show ?thesis by blast
qed

lemma writei_loop_ok:
  assumes "file_ok s i" "layout_ok s (i_dev i)" "i = icache s ! ip" "ip < length (icache s)"
    and "off + rem \<le> MAXFILE * BSIZE"
    and "txn (n + 6 * nblk off rem) (Suc (Suc h)) s" "2 * nblk off rem \<le> nfree s (i_dev i)"
  shows "\<exists>t i'. writei_loop ip src k off rem s = Ok t \<and> wrote ip s i t i' \<and> txn n (Suc (Suc h)) t \<and>
     (\<forall>j < MAXFILE * BSIZE. content t i' j = (if off \<le> j \<and> j < off + rem then src (k + (j - off)) else content s i j)) \<and>
     (\<forall>j < MAXFILE * BSIZE. mapped s i j \<or> off \<le> j \<and> j < off + rem \<longrightarrow> mapped t i' j)"
  using assms
proof (induction rem arbitrary: k off s i rule: less_induct)
  case (less rem)
  show ?case
  proof (cases "rem = 0")
    case True
    then have "writei_loop ip src k off rem s = Ok s" by (simp add: writei_loop.simps)
    moreover have "txn n (Suc (Suc h)) s" using txn_mono [OF less.prems(6)] by simp
    ultimately show ?thesis using wrote_refl [OF less.prems(1,3)] True by fastforce
  next
    case False
    define m where "m = min rem (BSIZE - off mod BSIZE)"
    have nb: "nblk off rem = Suc (nblk (off + m) (rem - m))" unfolding m_def by (rule nblk_step) (use False in simp)
    have mpos: "0 < m" "m \<le> rem" using False by (simp_all add: m_def)
    have room: "txn (n + 6 * nblk (off + m) (rem - m) + 6) (Suc (Suc h)) s" "2 \<le> nfree s (i_dev i)"
      using less.prems(6,7) nb by (simp_all add: algebra_simps)
    from writei_step [OF less.prems(1-4) _ less.prems(5) m_def room, of src k] False obtain t j where
      t: "writei_loop ip src k off rem s = writei_loop ip src (k + m) (off + m) (rem - m) t" "wrote ip s i t j"
        "txn (n + 6 * nblk (off + m) (rem - m)) (Suc (Suc h)) t" "nfree s (i_dev i) \<le> nfree t (i_dev i) + 2"
        "\<And>l. l < MAXFILE * BSIZE \<Longrightarrow> content t j l = (if off \<le> l \<and> l < off + m then src (k + (l - off)) else content s i l)"
        "\<And>l. l < MAXFILE * BSIZE \<Longrightarrow> mapped s i l \<or> off \<le> l \<and> l < off + m \<Longrightarrow> mapped t j l"
      by blast
    have dj: "i_dev j = i_dev i" by (rule wrote_dev [OF t(2)])
    have w: "icache t = (icache s)[ip := j]" "keeps (i_dev i) (own s i) s t" "file_ok t j" using t(2) by (simp_all add: wrote_def)
    have "\<exists>u i'. writei_loop ip src (k + m) (off + m) (rem - m) t = Ok u \<and> wrote ip t j u i' \<and> txn n (Suc (Suc h)) u \<and>
       (\<forall>l < MAXFILE * BSIZE. content u i' l =
          (if off + m \<le> l \<and> l < off + m + (rem - m) then src (k + m + (l - (off + m))) else content t j l)) \<and>
       (\<forall>l < MAXFILE * BSIZE. mapped t j l \<or> off + m \<le> l \<and> l < off + m + (rem - m) \<longrightarrow> mapped u i' l)"
      by (rule less.IH) (use mpos False less.prems(4,5,7) w dj t(3,4) nb keeps_layout [OF w(2) less.prems(2)] in auto)
    then obtain u i' where u: "writei_loop ip src (k + m) (off + m) (rem - m) t = Ok u" "wrote ip t j u i'"
       "txn n (Suc (Suc h)) u"
       "\<And>l. l < MAXFILE * BSIZE \<Longrightarrow> content u i' l =
          (if off + m \<le> l \<and> l < off + m + (rem - m) then src (k + m + (l - (off + m))) else content t j l)"
       "\<And>l. l < MAXFILE * BSIZE \<Longrightarrow> mapped t j l \<or> off + m \<le> l \<and> l < off + m + (rem - m) \<Longrightarrow> mapped u i' l"
      by blast
    have "content u i' l = (if off \<le> l \<and> l < off + rem then src (k + (l - off)) else content s i l)"
      if "l < MAXFILE * BSIZE" for l
      using u(4) [OF that] t(5) [OF that] mpos by (cases "off + m \<le> l") auto
    moreover have "mapped u i' l" if "l < MAXFILE * BSIZE" "mapped s i l \<or> off \<le> l \<and> l < off + rem" for l
      using t(6) [OF that(1)] u(5) [OF that(1)] that(2) mpos by (cases "off + m \<le> l") auto
    ultimately show ?thesis using t(1) u(1,3) wrote_trans [OF t(2) u(2)] by auto
  qed
qed

section \<open>Other files\<close>

lemma keeps_file:
  assumes "keeps dev X s t" "file_ok s j" "i_dev j = dev" "own s j \<inter> X = {}"
  shows "file_ok t j" "own t j = own s j" "bn < MAXFILE \<Longrightarrow> bnum t j bn = bnum s j bn"
    "off < MAXFILE * BSIZE \<Longrightarrow> content t j off = content s j off"
    "off < MAXFILE * BSIZE \<Longrightarrow> mapped t j off = mapped s j off"
proof -
  have ind: "blks t (dev, i_indirect j) = blks s (dev, i_indirect j)" if "i_indirect j \<noteq> 0"
  proof -
    have "i_indirect j \<in> own s j" using that by (simp add: own_def)
    then have "i_indirect j \<notin> X" using assms(4) by blast
    then show ?thesis using keeps_block [OF assms(1)] file_ok_indirect [OF assms(2) that] assms(3) by simp
  qed
  show bn: "bnum t j bn = bnum s j bn" for bn
    using ind assms(3) by (simp add: bnum_def)
  show "file_ok t j"
    using assms(2,3) keeps_data_block [OF assms(1)] unfolding file_ok_def bn by blast
  show "own t j = own s j" by (simp add: own_def bn)
  show "mapped t j off = mapped s j off" by (simp add: mapped_def bn)
  show "content t j off = content s j off" if "off < MAXFILE * BSIZE"
  proof (cases "bnum s j (off div BSIZE) = 0")
    case False
    have m: "off div BSIZE < MAXFILE" using that by (simp add: less_mult_imp_div_less)
    have "bnum s j (off div BSIZE) \<in> own s j" using m False by (auto simp: own_def)
    then have "blks t (dev, bnum s j (off div BSIZE)) = blks s (dev, bnum s j (off div BSIZE))"
      using keeps_block [OF assms(1)] file_ok_block [OF assms(2) m False] assms(3,4) by auto
    then show ?thesis using assms(3) by (simp add: content_def bn)
  qed (simp add: content_def bn)
qed

text \<open>Updating an inode leaves all files as they are.\<close>

definition inode_ok :: "'z fs_state_scheme \<Rightarrow> inode \<Rightarrow> bool" where
  "inode_ok s i \<longleftrightarrow> IBLOCK (i_inum i) (sb s) < sb_bmapstart (sb s) \<and> IBLOCK (i_inum i) (sb s) < FSSIZE \<and>
     (i_dev i, IBLOCK (i_inum i) (sb s)) \<notin> set (held s)"

lemma keeps_store_dinode:
  assumes "inode_ok s i"
  shows "keeps (i_dev i) {IBLOCK (i_inum i) (sb s)} s (store_dinode (i_dev i) (i_inum i) d s)"
proof -
  have "IBLOCK (i_inum i) (sb s) \<noteq> BBLOCK c (sb s)" for c using assms by (auto simp: inode_ok_def BBLOCK_def)
  then show ?thesis unfolding keeps_def store_dinode_def by (auto simp: block_free_lupd)
qed

lemma inode_not_own:
  assumes "file_ok s j" "inode_ok s i"
  shows "own s j \<inter> {IBLOCK (i_inum i) (sb s)} = {}"
proof -
  have "data_start (sb s) \<le> b" if "b \<in> own s j" for b
    using assms(1) that by (auto simp: own_def file_ok_def data_block_def)
  moreover have "IBLOCK (i_inum i) (sb s) < data_start (sb s)"
    using assms(2) by (simp add: inode_ok_def data_start_def BBLOCK_def)
  ultimately show ?thesis by force
qed

text \<open>What \<^verbatim>\<open>writei\<close> leaves: \<open>i'\<close> is the new inode, with the bytes of \<open>src\<close> from \<open>off\<close> on.\<close>

definition written :: "nat \<Rightarrow> block \<Rightarrow> nat \<Rightarrow> nat \<Rightarrow> 'z fs_state_scheme \<Rightarrow> inode \<Rightarrow> 'z fs_state_scheme \<Rightarrow> inode \<Rightarrow> bool" where
  "written ip src off n s i t i' \<longleftrightarrow>
     icache t = (icache s)[ip := i'] \<and>
     i' = i\<lparr>i_addrs := i_addrs i', i_indirect := i_indirect i', i_size := max (i_size i) (off + n)\<rparr> \<and>
     file_ok t i' \<and> layout_ok t (i_dev i) \<and> sb t = sb s \<and> held t = held s \<and> mypid t = mypid s \<and>
     (\<forall>j < MAXFILE * BSIZE. content t i' j = (if off \<le> j \<and> j < off + n then src (j - off) else content s i j)) \<and>
     (\<forall>j < MAXFILE * BSIZE. mapped s i j \<or> off \<le> j \<and> j < off + n \<longrightarrow> mapped t i' j) \<and>
     (\<forall>f. file_ok s f \<and> i_dev f = i_dev i \<and> own s f \<inter> own s i = {} \<longrightarrow>
        file_ok t f \<and> (\<forall>j < MAXFILE * BSIZE. content t f j = content s f j)) \<and>
     (i_size i < off + n \<longrightarrow> disk_inode t (i_dev i) (i_inum i) = dinode_of i')"

lemma content_size [simp]:
  "content s (i\<lparr>i_size := n\<rparr>) = content s i" "bnum s (i\<lparr>i_size := n\<rparr>) = bnum s i"
  "mapped s (i\<lparr>i_size := n\<rparr>) = mapped s i" "file_ok s (i\<lparr>i_size := n\<rparr>) = file_ok s i"
  "own s (i\<lparr>i_size := n\<rparr>) = own s i"
  by (auto simp: content_def bnum_def mapped_def file_ok_def own_def fun_eq_iff)

lemma content_set_ino [simp]:
  "content (set_ino ip f s) = content s" "bnum (set_ino ip f s) = bnum s" "mapped (set_ino ip f s) = mapped s"
  "file_ok (set_ino ip f s) = file_ok s" "own (set_ino ip f s) = own s"
  by (auto simp: content_def bnum_def mapped_def file_ok_def own_def fun_eq_iff data_block_def)

lemma wrote_written:
  assumes "wrote ip s i t i'" "layout_ok s (i_dev i)" "off + n \<le> i_size i"
    and "\<And>j. j < MAXFILE * BSIZE \<Longrightarrow> content t i' j = (if off \<le> j \<and> j < off + n then src (j - off) else content s i j)"
    and "\<And>j. j < MAXFILE * BSIZE \<Longrightarrow> mapped s i j \<or> off \<le> j \<and> j < off + n \<Longrightarrow> mapped t i' j"
  shows "written ip src off n s i t i'"
proof -
  have k: "keeps (i_dev i) (own s i) s t" using assms(1) by (simp add: wrote_def)
  have i': "i' = i\<lparr>i_addrs := i_addrs i', i_indirect := i_indirect i', i_size := max (i_size i) (off + n)\<rparr>"
    using assms(1,3) by (cases i; cases i') (simp add: wrote_def)
  have w: "icache t = (icache s)[ip := i']" "file_ok t i'" using assms(1) by (simp_all add: wrote_def)
  show ?thesis
    unfolding written_def using w assms(3-5) keeps_layout [OF k assms(2)] keeps_D(1,2,4) [OF k] keeps_file(1,4) [OF k]
    by (intro conjI i') simp_all
qed

lemma dinode_wf_file:
  assumes "file_ok t j" "layout_ok t (i_dev j)" "dinode_wf (dinode_of i)" "sz < 4294967296"
    and "j = i\<lparr>i_addrs := i_addrs j, i_indirect := i_indirect j, i_size := sz\<rparr>"
  shows "dinode_wf (dinode_of j)"
proof -
  have b: "a < 4294967296" if "a = 0 \<or> data_block t (i_dev j) a" for a
    using that data_block_less [OF _ assms(2), of a] by auto
  have "i_addrs j ! n < 4294967296" if "n < NDIRECT" for n
  proof -
    have "bnum t j n = 0 \<or> data_block t (i_dev j) (bnum t j n)" using that file_ok_block [OF assms(1), of n] by fastforce
    then show ?thesis using b that by (simp add: bnum_def)
  qed
  moreover have len: "length (i_addrs j) = 10" using assms(1) by (simp add: file_ok_def)
  ultimately have "\<forall>a \<in> set (i_addrs j). a < 4294967296" by (simp add: all_set_conv_all_nth)
  moreover have "i_indirect j < 4294967296" by (rule b) (use file_ok_indirect [OF assms(1)] in blast)
  moreover have "i_type j = i_type i" "i_major j = i_major i" "i_minor j = i_minor i" "i_nlink j = i_nlink i" "i_size j = sz"
    "i_create_time j = i_create_time i" "i_version_head j = i_version_head i"
    using assms(5) by (cases i; cases j; simp)+
  ultimately show ?thesis using assms(3,4) len by (simp add: dinode_wf_def dinode_of_def)
qed

lemma iupdate_written:
  assumes w: "wrote ip s i t i'" and ok: "layout_ok s (i_dev i)" "inode_ok s i" "ip < length (icache s)" "dinode_wf (dinode_of i)"
    and sz: "i_size i < off + n" "off + n \<le> MAXFILE * BSIZE" and room: "txn (Suc m) (Suc h) t"
    and c: "\<And>j. j < MAXFILE * BSIZE \<Longrightarrow> content t i' j = (if off \<le> j \<and> j < off + n then src (j - off) else content s i j)"
    and mp: "\<And>j. j < MAXFILE * BSIZE \<Longrightarrow> mapped s i j \<or> off \<le> j \<and> j < off + n \<Longrightarrow> mapped t i' j"
  shows "\<exists>u j. iupdate ip (set_ino ip (\<lambda>i. i\<lparr>i_size := off + n\<rparr>) t) = Ok u \<and> written ip src off n s i u j \<and> txn m (Suc h) u"
proof -
  let ?j = "i'\<lparr>i_size := off + n\<rparr>" and ?t = "set_ino ip (\<lambda>i. i\<lparr>i_size := off + n\<rparr>) t"
  have k: "keeps (i_dev i) (own s i) s t" and f: "file_ok t i'" and ic: "icache t = (icache s)[ip := i']"
    using w by (simp_all add: wrote_def)
  have "i' = i\<lparr>i_addrs := i_addrs i', i_indirect := i_indirect i'\<rparr>" using w by (simp only: wrote_def)
  then have j: "?j = i\<lparr>i_addrs := i_addrs ?j, i_indirect := i_indirect ?j, i_size := off + n\<rparr>" by (cases i; cases i') simp
  have d: "i_dev ?j = i_dev i" "i_inum ?j = i_inum i" using j by (cases i; cases i'; simp)+
  have io: "inode_ok ?t ?j" using ok(2) keeps_D(1,2) [OF k] d by (simp add: inode_ok_def)
  have jc: "?j = icache ?t ! ip" using ic ok(3) by simp
  let ?u = "store_dinode (i_dev i) (i_inum i) (dinode_of ?j) ?t"
  have up: "iupdate ip ?t = Ok ?u"
    using iupdate_eq [of m h ?t ?j ip] room jc io d by (simp add: inode_ok_def)
  have ku: "keeps (i_dev i) {IBLOCK (i_inum i) (sb s)} ?t ?u"
    using keeps_store_dinode [OF io] d keeps_D(1) [OF k] by simp
  have lt: "layout_ok t (i_dev i)" by (rule keeps_layout [OF k ok(1)])
  have no: "own t g \<inter> {IBLOCK (i_inum i) (sb s)} = {}" if "file_ok t g" for g
    using inode_not_own [of t g ?j] that io d keeps_D(1) [OF k] by (simp add: inode_ok_def)
  note fu = keeps_file [OF ku, simplified, of i', OF f wrote_dev [OF w]]
  have wf: "dinode_wf (dinode_of ?j)"
    by (rule dinode_wf_file [OF _ _ ok(4) _ j]) (use f lt d(1) sz(2) in simp_all)
  have fr: "file_ok ?u g \<and> (\<forall>l < MAXFILE * BSIZE. content ?u g l = content s g l)"
    if "file_ok s g" "i_dev g = i_dev i" "own s g \<inter> own s i = {}" for g
  proof -
    note kg = keeps_file [OF k that(1,2,3)]
    show ?thesis
      using kg(4) keeps_file(1,4) [OF ku, simplified, of g, OF kg(1) that(2)] no [OF kg(1)] by simp
  qed
  have lu: "layout_ok ?u (i_dev i)" using keeps_layout [OF ku] lt by (simp add: layout_ok_def)
  have jm: "?j = i\<lparr>i_addrs := i_addrs ?j, i_indirect := i_indirect ?j, i_size := max (i_size i) (off + n)\<rparr>"
    using j sz(1) by simp
  have iu: "icache ?u = (icache s)[ip := ?j]" using ic ok(3) by (simp add: set_ino_def)
  have du: "disk_inode ?u (i_dev i) (i_inum i) = dinode_of ?j" by (simp add: disk_inode_store [OF wf])
  have "written ip src off n s i ?u ?j"
    unfolding written_def
    using fu no [OF f] c mp fr du keeps_D(1,2,4) [OF k] by (intro conjI jm lu iu) simp_all
  moreover have "txn m (Suc h) ?u" using txn_lupd [of m "Suc h" ?t] room by (simp add: store_dinode_def)
  ultimately show ?thesis using up by blast
qed

lemma writei_ok:
  assumes ok: "file_ok s i" "layout_ok s (i_dev i)" "inode_ok s i" "i = icache s ! ip" "ip < length (icache s)"
      "dinode_wf (dinode_of i)" "i_type i \<noteq> T_DEV"
    and sz: "off \<le> i_size i" "off + n \<le> MAXFILE * BSIZE"
    and room: "txn (Suc m + 6 * nblk off n) (Suc (Suc h)) s" "2 * nblk off n \<le> nfree s (i_dev i)"
  shows "\<exists>t i'. writei ip src off n s = Ok (int n, t) \<and> written ip src off n s i t i' \<and> txn m (Suc (Suc h)) t"
proof -
  from writei_loop_ok [OF ok(1,2,4,5) sz(2) room, of src 0, unfolded add_0] obtain t i' where
    t: "writei_loop ip src 0 off n s = Ok t" "wrote ip s i t i'" "txn (Suc m) (Suc (Suc h)) t"
      "\<And>j. j < MAXFILE * BSIZE \<Longrightarrow> content t i' j = (if off \<le> j \<and> j < off + n then src (j - off) else content s i j)"
      "\<And>j. j < MAXFILE * BSIZE \<Longrightarrow> mapped s i j \<or> off \<le> j \<and> j < off + n \<Longrightarrow> mapped t i' j"
    by blast
  have n: "(off + n) mod 4294967296 = off + n" "to_int32 n = int n" using sz by (simp_all add: to_int32_def)
  have i': "icache t ! ip = i'" "i_size i' = i_size i"
    using t(2) ok(5) by (cases i; cases i'; simp add: wrote_def)+
  show ?thesis
  proof (cases "i_size i < off + n")
    case True
    from iupdate_written [OF t(2) ok(2,3,5,6) True sz(2) t(3-5)] obtain u j where
      "iupdate ip (set_ino ip (\<lambda>i. i\<lparr>i_size := off + n\<rparr>) t) = Ok u" "written ip src off n s i u j" "txn m (Suc (Suc h)) u"
      by blast
    moreover have "0 < n" using True sz by simp
    ultimately show ?thesis using ok(4,7) sz n t(1) i' True by (auto simp: writei_def Let_def)
  next
    case False
    have "written ip src off n s i t i'" by (rule wrote_written [OF t(2) ok(2) _ t(4,5)]) (use False in auto)
    moreover have "txn m (Suc (Suc h)) t" by (rule txn_mono [OF t(3)]) simp_all
    moreover have "writei ip src off n s = Ok (int n, t)" using ok(4,7) sz n t(1) i' False by (simp add: writei_def Let_def)
    ultimately show ?thesis by blast
  qed
qed

section \<open>Reading\<close>

text \<open>Every byte below the size has a block: what \<^verbatim>\<open>writei\<close> keeps by never writing past the size.\<close>

definition dense :: "'z fs_state_scheme \<Rightarrow> inode \<Rightarrow> bool" where
  "dense s i \<longleftrightarrow> i_size i \<le> MAXFILE * BSIZE \<and> (\<forall>j < i_size i. mapped s i j)"

lemma readi_loop_ok:
  assumes "file_ok s i" "layout_ok s (i_dev i)" "i = icache s ! ip" "buf_free s" "off + rem \<le> MAXFILE * BSIZE"
    and "\<And>j. off \<le> j \<Longrightarrow> j < off + rem \<Longrightarrow> mapped s i j"
  shows "readi_loop ip off rem s = Ok (map (content s i) [off..<off + rem], s)"
  using assms(5,6)
proof (induction rem arbitrary: off rule: less_induct)
  case (less rem)
  show ?case
  proof (cases "rem = 0")
    case False
    define m where "m = min rem (BSIZE - off mod BSIZE)"
    have m: "0 < m" "m \<le> rem" "m \<le> BSIZE - off mod BSIZE" using False by (simp_all add: m_def)
    let ?bn = "off div BSIZE"
    have bn: "?bn < MAXFILE" using less.prems(1) False by (simp add: less_mult_imp_div_less)
    have nz: "bnum s i ?bn \<noteq> 0" using less.prems(2) [of off] False by (simp add: mapped_def)
    note bm = bmap_hit [OF assms(1-3) bn nz assms(4)]
    note rd = bread_data_free [OF file_ok_block [OF assms(1) bn nz] assms(2,4)]
    have ih: "readi_loop ip (off + m) (rem - m) s = Ok (map (content s i) [off + m..<off + m + (rem - m)], s)"
      by (rule less.IH) (use m False less.prems in auto)
    have "content s i (off + k) = blks s (i_dev i, bnum s i ?bn) (off mod BSIZE + k)" if "k < m" for k
    proof -
      have "(off + k) div BSIZE = ?bn" by (rule same_block) (use that m in linarith)+
      moreover have "(off + k) mod BSIZE = off mod BSIZE + k"
        using block_offset(3) [of "off + k" off, OF calculation] block_offset(1) [of "off + k" off, OF calculation] by simp
      ultimately show ?thesis using nz by (simp add: content_def)
    qed
    then have "map (\<lambda>k. blks s (i_dev i, bnum s i ?bn) (off mod BSIZE + k)) [0..<m] = map (content s i) [off..<off + m]"
      by (intro nth_equalityI) simp_all
    moreover have "[off..<off + rem] = [off..<off + m] @ [off + m..<off + m + (rem - m)]"
      using m by (metis le_add1 le_add_diff_inverse add.assoc upt_add_eq_append)
    ultimately show ?thesis
      using False bm rd ih assms(3) m_def by (subst readi_loop.simps) (simp add: Let_def)
  qed (simp add: readi_loop.simps)
qed

lemma readi_ok:
  assumes "file_ok s i" "layout_ok s (i_dev i)" "i = icache s ! ip" "buf_free s" "dense s i" "i_type i \<noteq> T_DEV"
    and "off \<le> i_size i" "off + n < 4294967296" "m = min n (i_size i - off)"
  shows "readi ip off n s = Ok (int m, map (content s i) [off..<off + m], s)"
proof -
  have sz: "off + m \<le> MAXFILE * BSIZE" "off + m \<le> i_size i" using assms(5,7,9) by (auto simp: dense_def)
  have "readi_loop ip off m s = Ok (map (content s i) [off..<off + m], s)"
    by (rule readi_loop_ok [OF assms(1-4) sz(1)]) (use assms(5) sz(2) in \<open>simp add: dense_def\<close>)
  moreover have "(if i_size i < (off + n) mod 4294967296 then i_size i - off else n) = m" "to_int32 m = int m"
    using assms(7-9) sz by (auto simp: to_int32_def min_def)
  ultimately show ?thesis using assms(3,6-8) by (auto simp: readi_def Let_def split: if_splits)
qed

lemma writei_dense:
  assumes "written ip src off n s i t i'" "dense s i" "off \<le> i_size i" "off + n \<le> MAXFILE * BSIZE"
  shows "dense t i'"
proof -
  have sz: "i_size i' = max (i_size i) (off + n)" using assms(1) by (cases i; cases i') (simp add: written_def)
  have "mapped t i' j" if "j < i_size i'" for j
  proof -
    have "j < MAXFILE * BSIZE" using that sz assms(2,4) by (auto simp: dense_def)
    moreover have "mapped s i j \<or> off \<le> j \<and> j < off + n"
      using that sz assms(2,3) by (cases "j < i_size i") (auto simp: dense_def)
    ultimately show ?thesis using assms(1) unfolding written_def by blast
  qed
  then show ?thesis using sz assms(2,4) by (simp add: dense_def)
qed

lemma written_same:
  assumes "written ip src off n s i t i'"
  shows "i_dev i' = i_dev i" "i_type i' = i_type i" "i_size i' = max (i_size i) (off + n)" "i_inum i' = i_inum i"
  using assms by (cases i; cases i'; simp add: written_def)+

lemma wraps:
  assumes "off < 4294967296" "n < (4294967296 :: nat)"
  shows "if off + n < 4294967296 then (off + n) mod 4294967296 = off + n else (off + n) mod 4294967296 < off"
proof (cases "off + n < 4294967296")
  case False
  then have "(off + n) mod 4294967296 = off + n - 4294967296"
    using assms by (subst mod_if) (simp add: mod_if)
  then show ?thesis using False assms by simp
qed simp

section \<open>Properties\<close>

text \<open>
  \<^bold>\<open>C7\<close>. \<^verbatim>\<open>writei\<close> on a file or directory, from an offset within the file: it returns the number of
  bytes, the contents of the file are overwritten exactly at \<^verbatim>\<open>[off, off + n)\<close>, whether the blocks existed or
  had to be allocated (directly, in the indirect block, or with a new indirect block); the size grows to
  \<open>off + n\<close> when that is larger, and then the inode on the device agrees; every file with other
  blocks keeps its contents; no hole appears. The log must have room for six blocks per block written.
\<close>

theorem writei_overwrites:
  assumes "file_ok s i" "layout_ok s (i_dev i)" "inode_ok s i" "i = icache s ! ip" "ip < length (icache s)"
      "dinode_wf (dinode_of i)" "i_type i \<noteq> T_DEV" "dense s i"
    and "off \<le> i_size i" "off + n \<le> MAXFILE * BSIZE"
    and "txn (1 + 6 * nblk off n) 2 s" "2 * nblk off n \<le> nfree s (i_dev i)"
  shows "\<exists>t i'. writei ip src off n s = Ok (int n, t) \<and> icache t = (icache s)[ip := i'] \<and>
     i_size i' = max (i_size i) (off + n) \<and> file_ok t i' \<and> dense t i' \<and>
     (\<forall>j < MAXFILE * BSIZE. content t i' j = (if off \<le> j \<and> j < off + n then src (j - off) else content s i j)) \<and>
     (\<forall>f. file_ok s f \<and> i_dev f = i_dev i \<and> own s f \<inter> own s i = {} \<longrightarrow>
        file_ok t f \<and> (\<forall>j < MAXFILE * BSIZE. content t f j = content s f j)) \<and>
     (i_size i < off + n \<longrightarrow> disk_inode t (i_dev i) (i_inum i) = dinode_of i')"
proof -
  have room: "txn (Suc 0 + 6 * nblk off n) (Suc (Suc 0)) s" using assms(11) by (simp add: numeral_2_eq_2)
  from writei_ok [OF assms(1-7,9,10) room assms(12), of src] obtain t i' where
    t: "writei ip src off n s = Ok (int n, t)" "written ip src off n s i t i'" by blast
  show ?thesis
    using t writei_dense [OF t(2) assms(8-10)] written_same [OF t(2)] unfolding written_def by blast
qed

text \<open>
  \<^bold>\<open>C8\<close>. What \<^verbatim>\<open>writei\<close> wrote, \<^verbatim>\<open>readi\<close> returns: after a write of \<open>n\<close> bytes at \<open>off\<close>, a read of
  \<open>n\<close> bytes at \<open>off\<close> returns exactly these bytes and changes nothing.
\<close>

theorem write_read_roundtrip:
  assumes "file_ok s i" "layout_ok s (i_dev i)" "inode_ok s i" "i = icache s ! ip" "ip < length (icache s)"
      "dinode_wf (dinode_of i)" "i_type i \<noteq> T_DEV" "dense s i"
    and "off \<le> i_size i" "off + n \<le> MAXFILE * BSIZE"
    and "txn (1 + 6 * nblk off n) 2 s" "2 * nblk off n \<le> nfree s (i_dev i)"
  shows "\<exists>t. writei ip src off n s = Ok (int n, t) \<and> readi ip off n t = Ok (int n, map src [0..<n], t)"
proof -
  have room: "txn (Suc 0 + 6 * nblk off n) (Suc (Suc 0)) s" using assms(11) by (simp add: numeral_2_eq_2)
  from writei_ok [OF assms(1-7,9,10) room assms(12), of src] obtain t i' where
    t: "writei ip src off n s = Ok (int n, t)" "written ip src off n s i t i'" "txn 0 (Suc (Suc 0)) t" by blast
  note sm = written_same [OF t(2)]
  have w: "file_ok t i'" "layout_ok t (i_dev i')" "i' = icache t ! ip"
    "\<And>j. j < MAXFILE * BSIZE \<Longrightarrow> content t i' j = (if off \<le> j \<and> j < off + n then src (j - off) else content s i j)"
    using t(2) sm(1) assms(5) by (simp_all add: written_def)
  have t1: "buf_free t" by (rule txn_buf_free [OF t(3)])
  have "readi ip off n t = Ok (int n, map (content t i') [off..<off + n], t)"
    by (rule readi_ok [OF w(1-3) t1 writei_dense [OF t(2) assms(8-10)]])
       (use sm assms(7,9,10) in auto)
  moreover have "map (content t i') [off..<off + n] = map src [0..<n]"
    by (rule nth_equalityI) (use w(4) assms(10) in auto)
  ultimately show ?thesis using t(1) by simp
qed

text \<open>
  \<^bold>\<open>C9\<close>. \<^verbatim>\<open>readi\<close> on a file or directory without holes, for all 32-bit arguments, inside a transaction or
  (as \<^verbatim>\<open>sys_read\<close> calls it) outside, with one buffer of the cache available: it fails exactly when the offset lies
  past the size or the sum of the arguments wraps; otherwise it returns the bytes of the file from the
  offset, cut at the size, and leaves the file system as it was.
\<close>

theorem readi_returns_content:
  assumes "file_ok s i" "layout_ok s (i_dev i)" "i = icache s ! ip" "buf_free s" "dense s i" "i_type i \<noteq> T_DEV"
    and "off < 4294967296" "n < 4294967296"
  shows "readi ip off n s =
     (if i_size i < off \<or> 4294967296 \<le> off + n then Ok (-1, [], s)
      else let m = min n (i_size i - off) in Ok (int m, map (content s i) [off..<off + m], s))"
proof (cases "i_size i < off \<or> 4294967296 \<le> off + n")
  case True
  have "(off + n) mod 4294967296 < off" if "4294967296 \<le> off + n"
    using wraps [OF assms(7,8)] that by simp
  then show ?thesis using True assms(3,6) by (auto simp: readi_def Let_def)
next
  case False
  then show ?thesis using readi_ok [OF assms(1-6) _ _ refl, of off n] by (simp add: Let_def)
qed

text \<open>
  \<^bold>\<open>C10\<close>. The error branches of \<^verbatim>\<open>writei\<close> for all 32-bit arguments: past the size, wrapping around, beyond
  the largest file, or on a device without driver it returns -1 and changes nothing.
\<close>

theorem writei_rejects:
  assumes "off < 4294967296" "n < 4294967296" "i = icache s ! ip"
    and "if i_type i = T_DEV
      then i_major i < 0 \<or> int NDEV \<le> i_major i \<or> devsw_write s ! nat (i_major i) = None
      else i_size i < off \<or> MAXFILE * BSIZE < off + n"
  shows "writei ip src off n s = Ok (-1, s)"
proof (cases "i_type i = T_DEV")
  case True
  then show ?thesis using assms(3,4) by (auto simp: writei_def Let_def)
next
  case False
  show ?thesis
    using wraps [OF assms(1,2)] False assms(3,4)
    by (cases "off + n < 4294967296") (auto simp: writei_def Let_def)
qed

section \<open>An empty file after boot\<close>

definition boot_file :: dev_state where
  "boot_file = set_ino 0 (\<lambda>i. i\<lparr>i_type := T_FILE, i_nlink := 1, i_valid := True\<rparr>) boot_dev"

lemma boot_dev_simps [simp]:
  "blks boot_dev = boot_blks" "held boot_dev = []" "dirty boot_dev = []" "sb boot_dev = boot_sb"
  "klog boot_dev = klog boot_fs" "icache boot_dev = icache boot_fs" "mypid boot_dev = 1"
  by (simp_all add: boot_dev_def fs_state.defs boot_fs_def con_state.defs boot_con_def gc_state.defs boot_gc_def)

lemma boot_dev_free: "block_free boot_dev dev b = block_free boot_fs dev b"
  by (simp add: block_free_def)

lemma boot_file_ok:
  "file_ok boot_file (icache boot_file ! 0)" "layout_ok boot_file 1" "inode_ok boot_file (icache boot_file ! 0)"
  "dense boot_file (icache boot_file ! 0)" "dinode_wf (dinode_of (icache boot_file ! 0))" "n + h \<le> 29 \<Longrightarrow> txn n h boot_file"
  "nfree boot_file 1 = 940"
proof -
  show "file_ok boot_file (icache boot_file ! 0)"
    by (simp add: file_ok_def boot_file_def bnum_def boot_inode_def)
  have "bmap_ok boot_dev 1" using boot_bmap_ok by (simp add: bmap_ok_def boot_dev_free)
  then show "layout_ok boot_file 1"
    by (simp add: layout_ok_def boot_file_def boot_sb_def data_start_def BBLOCK_def boot_dev_free boot_block_free del: One_nat_def)
  show "inode_ok boot_file (icache boot_file ! 0)"
    by (simp add: inode_ok_def boot_file_def boot_inode_def IBLOCK_def boot_sb_def)
  show "dense boot_file (icache boot_file ! 0)" by (simp add: dense_def boot_file_def boot_inode_def)
  show "dinode_wf (dinode_of (icache boot_file ! 0))"
    using dinode_wf_simple [of 2 1 0] by (simp add: dinode_of_def boot_file_def boot_inode_def is_short_def)
  show "txn n h boot_file" if "n + h \<le> 29" using that by (simp add: boot_file_def txn_def)
  have "{b. b < 1000 \<and> block_free boot_fs 1 b} = {60..<1000}" using boot_block_free by auto
  then show "nfree boot_file 1 = 940" by (simp add: nfree_def boot_file_def boot_sb_def boot_dev_free del: One_nat_def)
qed

lemma boot_file_inode [simp]:
  "length (icache boot_file) = 50" "i_dev (icache boot_file ! 0) = 1" "i_type (icache boot_file ! 0) = T_FILE"
  "i_size (icache boot_file ! 0) = 0"
  by (simp_all add: boot_file_def boot_inode_def)

definition abc :: block where
  "abc k = 97 + of_nat k"

lemma nblk_small: "nblk 0 3 = 1"
  by (simp add: nblk_def)

theorem writei_overwrites_witness:
  "\<exists>t i'. writei 0 abc 0 3 boot_file = Ok (3, t) \<and> i_size i' = 3 \<and> content t i' 1 = 98"
proof -
  have "\<exists>t i'. writei 0 abc 0 3 boot_file = Ok (int 3, t) \<and> icache t = (icache boot_file)[0 := i'] \<and>
     i_size i' = max (i_size (icache boot_file ! 0)) (0 + 3) \<and> file_ok t i' \<and> dense t i' \<and>
     (\<forall>j < MAXFILE * BSIZE. content t i' j = (if 0 \<le> j \<and> j < 0 + 3 then abc (j - 0) else content boot_file (icache boot_file ! 0) j)) \<and>
     (\<forall>f. file_ok boot_file f \<and> i_dev f = i_dev (icache boot_file ! 0) \<and> own boot_file f \<inter> own boot_file (icache boot_file ! 0) = {} \<longrightarrow>
        file_ok t f \<and> (\<forall>j < MAXFILE * BSIZE. content t f j = content boot_file f j)) \<and>
     (i_size (icache boot_file ! 0) < 0 + 3 \<longrightarrow>
        disk_inode t (i_dev (icache boot_file ! 0)) (i_inum (icache boot_file ! 0)) = dinode_of i')"
    by (rule writei_overwrites) (use boot_file_ok nblk_small in simp_all)
  then obtain t i' where "writei 0 abc 0 3 boot_file = Ok (int 3, t)" "i_size i' = 3"
    "\<forall>j < MAXFILE * BSIZE. content t i' j = (if 0 \<le> j \<and> j < 0 + 3 then abc (j - 0) else content boot_file (icache boot_file ! 0) j)"
    by auto
  then show ?thesis by (intro exI [of _ t] exI [of _ i']) (simp add: abc_def)
qed

theorem write_read_roundtrip_witness:
  "\<exists>t. writei 0 abc 0 3 boot_file = Ok (3, t) \<and> readi 0 0 3 t = Ok (3, [97, 98, 99], t)"
proof -
  have "\<exists>t. writei 0 abc 0 3 boot_file = Ok (int 3, t) \<and> readi 0 0 3 t = Ok (int 3, map abc [0..<3], t)"
    by (rule write_read_roundtrip [where i = "icache boot_file ! 0"]) (use boot_file_ok nblk_small in simp_all)
  then show ?thesis by (simp add: abc_def upt_rec)
qed

lemma closed_txn:
  "file_ok (s\<lparr>klog := l\<rparr>) i = file_ok s i" "layout_ok (s\<lparr>klog := l\<rparr>) d = layout_ok s d" "dense (s\<lparr>klog := l\<rparr>) i = dense s i"
  "buf_free (s\<lparr>klog := l\<rparr>) = buf_free s" "content (s\<lparr>klog := l\<rparr>) i = content s i"
  by (simp_all add: file_ok_def layout_ok_def dense_def mapped_def buf_free_def content_def bnum_def data_block_def
      block_free_def bmap_ok_def fun_eq_iff)

theorem readi_returns_content_witness:
  "\<exists>t u. writei 0 abc 0 3 boot_file = Ok (3, t) \<and> u = t\<lparr>klog := (klog t)\<lparr>outstanding := 0\<rparr>\<rparr> \<and>
     readi 0 1 16 u = Ok (2, [98, 99], u) \<and> readi 0 4 1 u = Ok (-1, [], u)"
proof -
  let ?i = "icache boot_file ! 0"
  have "\<exists>t i'. writei 0 abc 0 3 boot_file = Ok (int 3, t) \<and> written 0 abc 0 3 boot_file ?i t i' \<and> txn 0 (Suc (Suc 0)) t"
    by (rule writei_ok) (use boot_file_ok nblk_small in simp_all)
  then obtain t i' where t: "writei 0 abc 0 3 boot_file = Ok (int 3, t)" "written 0 abc 0 3 boot_file ?i t i'"
    "txn 0 (Suc (Suc 0)) t" by blast
  define u where "u = t\<lparr>klog := (klog t)\<lparr>outstanding := 0\<rparr>\<rparr>"
  note sm = written_same [OF t(2)]
  have "dense t i'" by (rule writei_dense [OF t(2)]) (use boot_file_ok in simp_all)
  moreover have w: "file_ok t i'" "layout_ok t (i_dev i')" "i' = icache t ! 0"
    "\<And>j. j < 3 \<Longrightarrow> content t i' j = abc j"
    using t(2) sm(1) by (simp_all add: written_def)
  moreover have "buf_free t" by (rule txn_buf_free [OF t(3)])
  ultimately have u: "file_ok u i'" "layout_ok u (i_dev i')" "i' = icache u ! 0" "buf_free u" "dense u i'" "i_type i' \<noteq> T_DEV"
    "content u i' = content t i'"
    using sm by (simp_all add: u_def closed_txn)
  have "readi 0 1 16 u = Ok (2, [98, 99], u)" "readi 0 4 1 u = Ok (-1, [], u)"
    using readi_returns_content [OF u(1-6), of 1 16] readi_returns_content [OF u(1-6), of 4 1] sm(3) w(4) u(7)
    by (simp_all add: Let_def upt_rec abc_def)
  then show ?thesis using t(1) u_def by auto
qed

theorem writei_rejects_witness: "writei 0 abc 1 3 boot_file = Ok (-1, boot_file)"
  by (rule writei_rejects [of _ _ "icache boot_file ! 0"]) simp_all

end
