(* ===== verification/Dir.thy ===== *)
theory Dir
  imports Content
begin

text \<open>
  Directories and path names: \<^verbatim>\<open>namecmp\<close>, \<^verbatim>\<open>dirlookup\<close>, \<^verbatim>\<open>dirlink\<close>, \<^verbatim>\<open>skipelem\<close>, \<^verbatim>\<open>namex\<close>,
  \<^verbatim>\<open>namei\<close> and \<^verbatim>\<open>nameiparent\<close> of fs.c. A directory refines a map from names to inode numbers
  (\<open>dir_map\<close>). A name is the array of \<^verbatim>\<open>DIRSIZ\<close> bytes a pointer leads to; a path is the list of its
  bytes before the terminating zero, so that a pointer into it is a suffix of the list.
\<close>

abbreviation DIRSIZ :: nat where "DIRSIZ \<equiv> 14"

section \<open>Directories\<close>

record dirent =
  de_inum :: nat
  de_name :: block

definition get_dirent :: "byte list \<Rightarrow> dirent" where
  "get_dirent bs = \<lparr>de_inum = get16 (\<lambda>k. bs ! k) 0, de_name = (\<lambda>k. bs ! (2 + k))\<rparr>"

definition put_dirent :: "dirent \<Rightarrow> block" where
  "put_dirent de = blit (put16 (\<lambda>_. 0) 0 (de_inum de)) 2 (de_name de) DIRSIZ"

definition namecmp :: "block \<Rightarrow> block \<Rightarrow> int" where
  "namecmp p q = strncmp p q DIRSIZ"

text \<open>\<^verbatim>\<open>off\<close> is a 32-bit number, so the second guard of the loops always holds.\<close>

function dirlookup_loop :: "nat \<Rightarrow> block \<Rightarrow> nat \<Rightarrow> 'z dev_state_scheme \<Rightarrow> ((nat \<times> nat) option \<times> 'z dev_state_scheme) res" where
  "dirlookup_loop dp name off s =
     (if off < i_size (icache s ! dp) \<and> off < 4294967296 then
        rbind (readi dp off 16 s) (\<lambda>(n, bs, s).
        if n \<noteq> 16 then Panic ''dirlookup read''
        else
          let de = get_dirent bs in
          if de_inum de = 0 then dirlookup_loop dp name (off + 16) s
          else if namecmp name (de_name de) = 0 then
            rbind (iget (i_dev (icache s ! dp)) (de_inum de) s) (\<lambda>(ip, s). Ok (Some (ip, off), s))
          else dirlookup_loop dp name (off + 16) s)
      else Ok (None, s))"
  by auto
termination
  by (relation "measure (\<lambda>(dp, name, off, s). 4294967296 - off)") auto

declare dirlookup_loop.simps [simp del]

text \<open>The inode and the offset of the entry (\<^verbatim>\<open>*poff\<close>).\<close>

definition dirlookup :: "nat \<Rightarrow> block \<Rightarrow> 'z dev_state_scheme \<Rightarrow> ((nat \<times> nat) option \<times> 'z dev_state_scheme) res" where
  "dirlookup dp name s =
     (if i_type (icache s ! dp) \<noteq> T_DIR then Panic ''dirlookup not DIR'' else dirlookup_loop dp name 0 s)"

text \<open>The search for an empty entry: the offset and the entry read last.\<close>

function dirlink_loop :: "nat \<Rightarrow> nat \<Rightarrow> dirent \<Rightarrow> 'z dev_state_scheme \<Rightarrow> ((nat \<times> dirent) \<times> 'z dev_state_scheme) res" where
  "dirlink_loop dp off de s =
     (if off < i_size (icache s ! dp) \<and> off < 4294967296 then
        rbind (readi dp off 16 s) (\<lambda>(n, bs, s).
        if n \<noteq> 16 then Panic ''dirlink read''
        else
          let de = get_dirent bs in
          if de_inum de = 0 then Ok ((off, de), s) else dirlink_loop dp (off + 16) de s)
      else Ok ((off, de), s))"
  by auto
termination
  by (relation "measure (\<lambda>(dp, off, de, s). 4294967296 - off)") auto

declare dirlink_loop.simps [simp del]

definition dirlink :: "nat \<Rightarrow> block \<Rightarrow> nat \<Rightarrow> 'z dev_state_scheme \<Rightarrow> (int \<times> 'z dev_state_scheme) res" where
  "dirlink dp name inum s =
     rbind (dirlookup dp name s) (\<lambda>(r, s).
     case r of
       Some (ip, off) \<Rightarrow> rbind (iput ip s) (\<lambda>s. Ok (-1, s))
     | None \<Rightarrow>
         rbind (dirlink_loop dp 0 \<lparr>de_inum = 0, de_name = (\<lambda>_. 0)\<rparr> s) (\<lambda>((off, de), s).
         let de = de\<lparr>de_name := strncpy (de_name de) name (int DIRSIZ), de_inum := inum mod 65536\<rparr> in
         rbind (writei dp (put_dirent de) off 16 s) (\<lambda>(n, s).
         if n \<noteq> 16 then Panic ''dirlink'' else Ok (0, s))))"

section \<open>Paths\<close>

fun skip_slashes :: "byte list \<Rightarrow> byte list" where
  "skip_slashes [] = []"
| "skip_slashes (c # p) = (if c = 47 then skip_slashes p else c # p)"

fun elem_len :: "byte list \<Rightarrow> nat" where
  "elem_len [] = 0"
| "elem_len (c # p) = (if c \<noteq> 47 then Suc (elem_len p) else 0)"

definition skipelem :: "byte list \<Rightarrow> block \<Rightarrow> byte list option \<times> block" where
  "skipelem path name =
     (let s = skip_slashes path in
      if s = [] then (None, name)
      else
        let len = elem_len s; path = drop len s;
            name = (if DIRSIZ \<le> len then blit name 0 (\<lambda>k. s ! k) DIRSIZ
                    else (blit name 0 (\<lambda>k. s ! k) len)(len := 0)) in
        (Some (skip_slashes path), name))"

lemma skip_slashes_length [simp]: "length (skip_slashes p) \<le> length p"
  by (induction p) auto

lemma skip_slashes_hd: "skip_slashes p \<noteq> [] \<Longrightarrow> hd (skip_slashes p) \<noteq> 47"
  by (induction p) auto

lemma skipelem_shorter: "skipelem path name = (Some p, name') \<Longrightarrow> length p < length path"
proof -
  assume a: "skipelem path name = (Some p, name')"
  let ?s = "skip_slashes path"
  have ne: "?s \<noteq> []" and p: "p = skip_slashes (drop (elem_len ?s) ?s)"
    using a by (auto simp: skipelem_def Let_def split: if_splits)
  have "0 < elem_len ?s" using ne skip_slashes_hd [OF ne] by (cases ?s) auto
  then have "length (drop (elem_len ?s) ?s) < length ?s" using ne by simp
  then have "length p < length ?s" unfolding p by (rule le_less_trans [OF skip_slashes_length])
  then show ?thesis by (rule less_le_trans [OF _ skip_slashes_length])
qed

text \<open>The loop of \<^verbatim>\<open>namex\<close>; the name left in the caller's array is part of the result.\<close>

function namex_loop :: "byte list \<Rightarrow> bool \<Rightarrow> block \<Rightarrow> nat \<Rightarrow> 'z dev_state_scheme \<Rightarrow> (nat option \<times> block \<times> 'z dev_state_scheme) res" where
  "namex_loop path parent name ip s =
     (case skipelem path name of
        (None, name) \<Rightarrow>
          if parent then rbind (iput ip s) (\<lambda>s. Ok (None, name, s)) else Ok (Some ip, name, s)
      | (Some path, name) \<Rightarrow>
          rbind (ilock ip s) (\<lambda>s.
          if i_type (icache s ! ip) \<noteq> T_DIR then rbind (iunlockput ip s) (\<lambda>s. Ok (None, name, s))
          else if parent \<and> path = [] then rbind (iunlock ip s) (\<lambda>s. Ok (Some ip, name, s))
          else
            rbind (dirlookup ip name s) (\<lambda>(r, s).
            case r of
              None \<Rightarrow> rbind (iunlockput ip s) (\<lambda>s. Ok (None, name, s))
            | Some (next_ip, off) \<Rightarrow>
                rbind (iunlockput ip s) (\<lambda>s. namex_loop path parent name next_ip s))))"
  by pat_completeness auto
termination
  by (relation "measure (\<lambda>(path, parent, name, ip, s). length path)") (auto dest: skipelem_shorter [OF sym])

declare namex_loop.simps [simp del]

definition namex :: "byte list \<Rightarrow> bool \<Rightarrow> block \<Rightarrow> 'z dev_state_scheme \<Rightarrow> (nat option \<times> block \<times> 'z dev_state_scheme) res" where
  "namex path parent name s =
     (if path \<noteq> [] \<and> hd path = 47
      then rbind (iget 1 1 s) (\<lambda>(ip, s). namex_loop path parent name ip s)
      else (case idup (cwd s) s of (ip, s) \<Rightarrow> namex_loop path parent name ip s))"

definition namei :: "byte list \<Rightarrow> 'z dev_state_scheme \<Rightarrow> (nat option \<times> 'z dev_state_scheme) res" where
  "namei path s = rbind (namex path False (\<lambda>_. 0) s) (\<lambda>(ip, name, s). Ok (ip, s))"

definition nameiparent :: "byte list \<Rightarrow> block \<Rightarrow> 'z dev_state_scheme \<Rightarrow> (nat option \<times> block \<times> 'z dev_state_scheme) res" where
  "nameiparent path name s = namex path True name s"

section \<open>A directory as a map\<close>

definition dent :: "'z fs_state_scheme \<Rightarrow> inode \<Rightarrow> nat \<Rightarrow> nat \<times> byte list" where
  "dent s i k = (get16 (\<lambda>j. content s i (16 * k + j)) 0, cstrn DIRSIZ (\<lambda>j. content s i (16 * k + 2 + j)))"

definition dir_entries :: "'z fs_state_scheme \<Rightarrow> inode \<Rightarrow> (nat \<times> byte list) list" where
  "dir_entries s i = map (dent s i) [0..<i_size i div 16]"

definition entry_map :: "(nat \<times> byte list) list \<Rightarrow> byte list \<Rightarrow> nat option" where
  "entry_map es = map_of (map (\<lambda>(n, nm). (nm, n)) (filter (\<lambda>(n, nm). n \<noteq> 0) es))"

definition dir_map :: "'z fs_state_scheme \<Rightarrow> inode \<Rightarrow> byte list \<Rightarrow> nat option" where
  "dir_map s i = entry_map (dir_entries s i)"

definition dir_ok :: "'z fs_state_scheme \<Rightarrow> inode \<Rightarrow> bool" where
  "dir_ok s i \<longleftrightarrow> file_ok s i \<and> layout_ok s (i_dev i) \<and> dense s i \<and> i_type i = T_DIR \<and> i_size i mod 16 = 0"

lemma get16_cong: "p off = q off' \<Longrightarrow> p (Suc off) = q (Suc off') \<Longrightarrow> get16 p off = get16 q off'"
  by (simp add: get16_def)

lemma entry_map_simps [simp]:
  "entry_map [] nm = None"
  "entry_map ((n, x) # es) nm = (if n \<noteq> 0 \<and> x = nm then Some n else entry_map es nm)"
  by (auto simp: entry_map_def)

lemma entry_map_first:
  "entry_map es nm = map_option (\<lambda>k. fst (es ! k)) (first_idx (\<lambda>(n, x). n \<noteq> 0 \<and> x = nm) es)"
proof (induction es)
  case (Cons e es)
  show ?case
  proof (cases "fst e \<noteq> 0 \<and> snd e = nm")
    case False
    then show ?thesis using Cons.IH by (cases e) (auto simp: option.map_comp comp_def)
  qed (cases e; simp)
qed simp

lemma entry_map_append: "entry_map (es @ fs) nm = (case entry_map es nm of None \<Rightarrow> entry_map fs nm | r \<Rightarrow> r)"
  by (induction es) auto

lemma entry_map_update:
  assumes "k < length es" "fst (es ! k) = 0" "n \<noteq> 0" "entry_map es nm = None"
  shows "entry_map (es[k := (n, nm)]) = (entry_map es)(nm \<mapsto> n)"
  using assms
proof (induction es arbitrary: k)
  case (Cons e es)
  then show ?case
    by (cases k; cases e) (auto simp: fun_eq_iff split: if_splits)
qed simp

lemma dir_read:
  assumes "dir_ok s i" "i = icache s ! dp" "txn 0 1 s" "16 * k < i_size i"
  obtains bs where "readi dp (16 * k) 16 s = Ok (16, bs, s)"
    "de_inum (get_dirent bs) = fst (dent s i k)" "cstrn DIRSIZ (de_name (get_dirent bs)) = snd (dent s i k)"
proof -
  have ok: "file_ok s i" "layout_ok s (i_dev i)" "dense s i" "i_type i \<noteq> T_DEV" "i_size i mod 16 = 0" "i_size i \<le> MAXFILE * BSIZE"
    using assms(1) by (simp_all add: dir_ok_def dense_def)
  have le: "16 * k + 16 \<le> i_size i"
  proof -
    obtain q where "i_size i = 16 * q" using ok(5) by blast
    then show ?thesis using assms(4) by simp
  qed
  have "min 16 (i_size i - 16 * k) = 16" using le by simp
  then have "readi dp (16 * k) 16 s = Ok (16, map (content s i) [16 * k..<16 * k + 16], s)"
    using readi_ok [OF ok(1,2) assms(2) txn_buf_free [of 0 0] ok(3,4) _ _ refl, of "16 * k" 16] assms(3) le ok(6) by simp
  moreover have nth: "map (content s i) [16 * k..<16 * k + 16] ! j = content s i (16 * k + j)" if "j < 16" for j
    using that by simp
  have "de_inum (get_dirent (map (content s i) [16 * k..<16 * k + 16])) = fst (dent s i k)"
    by (simp add: get_dirent_def dent_def del: upt_Suc) (rule get16_cong; simp)
  moreover have "cstrn DIRSIZ (de_name (get_dirent (map (content s i) [16 * k..<16 * k + 16]))) = snd (dent s i k)"
    by (simp add: get_dirent_def dent_def) (rule cstrn_cong; simp)
  ultimately show thesis by (rule that)
qed

lemma dir_entry_bound:
  assumes "dir_ok s i" shows "16 * k < i_size i \<longleftrightarrow> k < length (dir_entries s i)"
proof -
  obtain q where "i_size i = 16 * q" using assms by (auto simp: dir_ok_def)
  then show ?thesis by (simp add: dir_entries_def)
qed

lemma dir_entries_nth: "k < length (dir_entries s i) \<Longrightarrow> dir_entries s i ! k = dent s i k"
  by (simp add: dir_entries_def)

lemma dir_size_less: "dir_ok s i \<Longrightarrow> i_size i < 4294967296"
  by (simp add: dir_ok_def dense_def)

lemma dirlookup_loop_ok:
  assumes "dir_ok s i" "i = icache s ! dp" "txn 0 1 s"
  shows "dirlookup_loop dp name (16 * k) s =
     (case first_idx (\<lambda>(n, x). n \<noteq> 0 \<and> x = cstrn DIRSIZ name) (drop k (dir_entries s i)) of
        None \<Rightarrow> Ok (None, s)
      | Some j \<Rightarrow> rbind (iget (i_dev i) (fst (dent s i (k + j))) s) (\<lambda>(ip, s). Ok (Some (ip, 16 * (k + j)), s)))"
proof (induction "length (dir_entries s i) - k" arbitrary: k)
  case 0
  then have "\<not> 16 * k < i_size i" using dir_entry_bound [OF assms(1)] by simp
  then show ?case using 0 assms(2) by (simp add: dirlookup_loop.simps [of dp])
next
  case (Suc m)
  then have k: "k < length (dir_entries s i)" by simp
  then have lt: "16 * k < i_size i" using dir_entry_bound [OF assms(1)] by simp
  from dir_read [OF assms lt] obtain bs where bs: "readi dp (16 * k) 16 s = Ok (16, bs, s)"
    "de_inum (get_dirent bs) = fst (dent s i k)" "cstrn DIRSIZ (de_name (get_dirent bs)) = snd (dent s i k)" .
  have cmp: "namecmp name (de_name (get_dirent bs)) = 0 \<longleftrightarrow> snd (dent s i k) = cstrn DIRSIZ name"
    using strncmp_0 [of name "de_name (get_dirent bs)" DIRSIZ] bs(3) by (auto simp: namecmp_def)
  have d: "drop k (dir_entries s i) = dent s i k # drop (Suc k) (dir_entries s i)"
    using k dir_entries_nth [OF k] by (simp add: Cons_nth_drop_Suc [symmetric])
  have step: "dirlookup_loop dp name (16 * k) s =
      (if fst (dent s i k) \<noteq> 0 \<and> snd (dent s i k) = cstrn DIRSIZ name
       then rbind (iget (i_dev i) (fst (dent s i k)) s) (\<lambda>(ip, s). Ok (Some (ip, 16 * k), s))
       else dirlookup_loop dp name (16 * Suc k) s)"
    using bs(1,2) cmp lt dir_size_less [OF assms(1)] assms(2)
    by (subst dirlookup_loop.simps) (auto simp: Let_def add.commute)
  have ih: "dirlookup_loop dp name (16 * Suc k) s =
     (case first_idx (\<lambda>(n, x). n \<noteq> 0 \<and> x = cstrn DIRSIZ name) (drop (Suc k) (dir_entries s i)) of
        None \<Rightarrow> Ok (None, s)
      | Some j \<Rightarrow> rbind (iget (i_dev i) (fst (dent s i (Suc k + j))) s) (\<lambda>(ip, s). Ok (Some (ip, 16 * (Suc k + j)), s)))"
    by (rule Suc.hyps(1)) (use Suc.hyps(2) in simp)
  show ?case
  proof (cases "fst (dent s i k) \<noteq> 0 \<and> snd (dent s i k) = cstrn DIRSIZ name")
    case True
    then show ?thesis using step d by (simp add: case_prod_beta)
  next
    case False
    then have "first_idx (\<lambda>(n, x). n \<noteq> 0 \<and> x = cstrn DIRSIZ name) (drop k (dir_entries s i)) =
       map_option Suc (first_idx (\<lambda>(n, x). n \<noteq> 0 \<and> x = cstrn DIRSIZ name) (drop (Suc k) (dir_entries s i)))"
      unfolding d by (auto simp: case_prod_beta)
    then show ?thesis unfolding step ih using False
      by (cases "first_idx (\<lambda>(n, x). n \<noteq> 0 \<and> x = cstrn DIRSIZ name) (drop (Suc k) (dir_entries s i))")
         (auto simp del: first_idx_None)
  qed
qed

lemma dirlookup_ok:
  assumes "dir_ok s i" "i = icache s ! dp" "txn 0 1 s"
  shows "dirlookup dp name s =
     (case first_idx (\<lambda>(n, x). n \<noteq> 0 \<and> x = cstrn DIRSIZ name) (dir_entries s i) of
        None \<Rightarrow> Ok (None, s)
      | Some j \<Rightarrow> rbind (iget (i_dev i) (fst (dent s i j)) s) (\<lambda>(ip, s). Ok (Some (ip, 16 * j), s)))"
  using dirlookup_loop_ok [OF assms, of name 0, unfolded add_0 drop_0 mult_0_right] assms(1,2) by (simp add: dirlookup_def dir_ok_def)

text \<open>The first entry that is free, or the end of the directory.\<close>

definition free_slot :: "'z fs_state_scheme \<Rightarrow> inode \<Rightarrow> nat" where
  "free_slot s i = length (takeWhile (\<lambda>(n, x). n \<noteq> 0) (dir_entries s i))"

lemma dirlink_loop_ok:
  assumes "dir_ok s i" "i = icache s ! dp" "txn 0 1 s" "k \<le> length (dir_entries s i)"
  shows "\<exists>de'. dirlink_loop dp (16 * k) de s =
     Ok ((16 * (k + length (takeWhile (\<lambda>(n, x). n \<noteq> 0) (drop k (dir_entries s i)))), de'), s)"
  using assms(4)
proof (induction "length (dir_entries s i) - k" arbitrary: k de)
  case 0
  then have "\<not> 16 * k < i_size i" using dir_entry_bound [OF assms(1)] by simp
  then show ?case using 0 assms(2) by (simp add: dirlink_loop.simps [of dp])
next
  case (Suc m)
  then have k: "k < length (dir_entries s i)" by simp
  then have lt: "16 * k < i_size i" using dir_entry_bound [OF assms(1)] by simp
  from dir_read [OF assms(1-3) lt] obtain bs where bs: "readi dp (16 * k) 16 s = Ok (16, bs, s)"
    "de_inum (get_dirent bs) = fst (dent s i k)" .
  have d: "drop k (dir_entries s i) = dent s i k # drop (Suc k) (dir_entries s i)"
    using k dir_entries_nth [OF k] by (simp add: Cons_nth_drop_Suc [symmetric])
  have step: "dirlink_loop dp (16 * k) de s =
      (if fst (dent s i k) = 0 then Ok ((16 * k, get_dirent bs), s) else dirlink_loop dp (16 * Suc k) (get_dirent bs) s)"
    using bs lt dir_size_less [OF assms(1)] assms(2)
    by (subst dirlink_loop.simps) (auto simp: Let_def add.commute)
  show ?case
  proof (cases "fst (dent s i k) = 0")
    case True
    then show ?thesis unfolding step d by (simp add: case_prod_beta)
  next
    case False
    from Suc.hyps(1) [of "Suc k" "get_dirent bs"] Suc.hyps(2) k show ?thesis
      unfolding step d using False by (auto simp: case_prod_beta)
  qed
qed

lemma put_dirent_fields:
  assumes "n < 65536"
  shows "get16 (\<lambda>j. put_dirent \<lparr>de_inum = n, de_name = nm\<rparr> j) 0 = n"
    "j < DIRSIZ \<Longrightarrow> put_dirent \<lparr>de_inum = n, de_name = nm\<rparr> (2 + j) = nm j"
proof -
  have "get16 (\<lambda>j. put_dirent \<lparr>de_inum = n, de_name = nm\<rparr> j) 0 = get16 (put16 (\<lambda>_. 0) 0 n) 0"
    by (rule get16_cong) (simp_all add: put_dirent_def blit_def)
  then show "get16 (\<lambda>j. put_dirent \<lparr>de_inum = n, de_name = nm\<rparr> j) 0 = n" using assms by simp
  show "put_dirent \<lparr>de_inum = n, de_name = nm\<rparr> (2 + j) = nm j" if "j < DIRSIZ"
    using that by (simp add: put_dirent_def)
qed

lemma nblk_entry: "nblk (16 * k) 16 = 1"
proof -
  have "(16 * k + 16 - 1) div BSIZE = 16 * k div BSIZE"
    using div_mult2_eq [of "16 * k + 15" 16 32] div_mult2_eq [of "16 * k" 16 32] by simp
  then show ?thesis by (simp add: nblk_def)
qed

text \<open>Writing entry \<open>k\<close>.\<close>

lemma dir_write_entry:
  assumes ok: "dir_ok s i" and w: "written dp (put_dirent \<lparr>de_inum = n, de_name = nm\<rparr>) (16 * k) 16 s i t i'"
    and k: "k \<le> length (dir_entries s i)" "16 * k + 16 \<le> MAXFILE * BSIZE" "n < 65536"
  shows "dir_ok t i'" "dir_entries t i' = (if k < length (dir_entries s i) then (dir_entries s i)[k := (n, cstrn DIRSIZ nm)]
      else dir_entries s i @ [(n, cstrn DIRSIZ nm)])"
proof -
  note sm = written_same [OF w]
  obtain q where q: "i_size i = 16 * q" using ok by (auto simp: dir_ok_def)
  then have len: "length (dir_entries s i) = q" by (simp add: dir_entries_def)
  have sz: "i_size i' = 16 * (if k < q then q else Suc q)" using sm(3) q k(1) len by auto
  have b: "16 * q \<le> MAXFILE * BSIZE" using ok q by (simp add: dir_ok_def dense_def)
  have "dense t i'" by (rule writei_dense [OF w]) (use ok q k len in \<open>auto simp: dir_ok_def\<close>)
  moreover have "file_ok t i'" "layout_ok t (i_dev i')" using w sm(1) by (simp_all add: written_def)
  moreover have "i_size i' mod 16 = 0" unfolding sz by (rule mod_mult_self1_is_0)
  ultimately show "dir_ok t i'" using sm(2) ok by (simp add: dir_ok_def)
  have c: "content t i' j = (if 16 * k \<le> j \<and> j < 16 * k + 16
      then put_dirent \<lparr>de_inum = n, de_name = nm\<rparr> (j - 16 * k) else content s i j)" if "j < MAXFILE * BSIZE" for j
    using w that by (simp add: written_def)
  have new: "dent t i' k = (n, cstrn DIRSIZ nm)"
  proof -
    have "get16 (\<lambda>j. content t i' (16 * k + j)) 0 = get16 (put_dirent \<lparr>de_inum = n, de_name = nm\<rparr>) 0"
      by (rule get16_cong) (use c k(2) in simp_all)
    moreover have "cstrn DIRSIZ (\<lambda>j. content t i' (16 * k + 2 + j)) = cstrn DIRSIZ nm"
    proof (rule cstrn_cong)
      fix j :: nat assume "j < DIRSIZ"
      then show "content t i' (16 * k + 2 + j) = nm j"
        using c [of "16 * k + 2 + j"] k(2) put_dirent_fields(2) [OF k(3), of j nm] by simp
    qed
    ultimately show ?thesis using put_dirent_fields(1) [OF k(3)] by (simp add: dent_def)
  qed
  have old: "dent t i' l = dent s i l" if "l \<noteq> k" "16 * l + 16 \<le> MAXFILE * BSIZE" for l
  proof -
    have e: "content t i' (16 * l + j) = content s i (16 * l + j)" if "j < 16" for j
      using c [of "16 * l + j"] that \<open>l \<noteq> k\<close> \<open>16 * l + 16 \<le> _\<close> by auto
    show ?thesis unfolding dent_def
      using e [of 0] e [of 1] e [of "2 + j" for j] by (auto intro!: get16_cong cstrn_cong simp: add.assoc)
  qed
  show "dir_entries t i' = (if k < length (dir_entries s i) then (dir_entries s i)[k := (n, cstrn DIRSIZ nm)]
      else dir_entries s i @ [(n, cstrn DIRSIZ nm)])"
  proof (cases "k < q")
    case True
    show ?thesis unfolding len using True new old b
      by (auto simp: dir_entries_def sz q nth_list_update intro!: nth_equalityI)
  next
    case False
    then have "k = q" using k(1) len by simp
    then show ?thesis unfolding len using new old b
      by (auto simp: dir_entries_def sz q)
  qed
qed

lemma free_slot_le: "free_slot s i \<le> length (dir_entries s i)"
  unfolding free_slot_def by (rule length_takeWhile_le)

lemma free_slot_free: "free_slot s i < length (dir_entries s i) \<Longrightarrow> fst (dir_entries s i ! free_slot s i) = 0"
  using nth_length_takeWhile [of "\<lambda>(n, x). n \<noteq> 0" "dir_entries s i"] by (simp add: free_slot_def case_prod_beta)

lemma takeWhile_first:
  "length (takeWhile (\<lambda>x. \<not> P x) xs) = (case first_idx P xs of Some k \<Rightarrow> k | None \<Rightarrow> length xs)"
  by (induction xs) (auto split: option.splits simp del: first_idx_None)

lemma free_slot_first:
  "free_slot s i = (case first_idx (\<lambda>(n, x). n = 0) (dir_entries s i) of Some k \<Rightarrow> k | None \<Rightarrow> length (dir_entries s i))"
proof -
  have "(\<lambda>(n :: nat, x :: byte list). n \<noteq> 0) = (\<lambda>e. \<not> (case e of (n, x) \<Rightarrow> n = 0))" by auto
  then show ?thesis
    using takeWhile_first [of "\<lambda>(n, x). n = 0" "dir_entries s i"] by (simp only: free_slot_def)
qed

lemma entry_map_None: "entry_map es nm = None \<longleftrightarrow> first_idx (\<lambda>(n, x). n \<noteq> 0 \<and> x = nm) es = None"
  unfolding entry_map_first by (cases "first_idx (\<lambda>(n, x). n \<noteq> 0 \<and> x = nm) es") (simp_all del: first_idx_None)

lemma dirlink_eq:
  assumes "dir_ok s i" "i = icache s ! dp" "txn 0 1 s" "dir_map s i (cstrn DIRSIZ name) = None" "n < 65536"
  shows "\<exists>nm. cstrn DIRSIZ nm = cstrn DIRSIZ name \<and>
     dirlink dp name n s = rbind (writei dp (put_dirent \<lparr>de_inum = n, de_name = nm\<rparr>) (16 * free_slot s i) 16 s)
       (\<lambda>(m, s). if m \<noteq> 16 then Panic ''dirlink'' else Ok (0, s))"
proof -
  have none: "first_idx (\<lambda>(n, x). n \<noteq> 0 \<and> x = cstrn DIRSIZ name) (dir_entries s i) = None"
    using assms(4) by (simp only: dir_map_def entry_map_None)
  have look: "dirlookup dp name s = Ok (None, s)"
    unfolding dirlookup_ok [OF assms(1-3)] none by simp
  from dirlink_loop_ok [OF assms(1-3), of 0 "\<lparr>de_inum = 0, de_name = (\<lambda>_. 0)\<rparr>", unfolded add_0 drop_0 mult_0_right]
  obtain de where loop: "dirlink_loop dp 0 \<lparr>de_inum = 0, de_name = (\<lambda>_. 0)\<rparr> s = Ok ((16 * free_slot s i, de), s)"
    by (auto simp: free_slot_def)
  let ?nm = "strncpy (de_name de) name (int DIRSIZ)"
  have "de\<lparr>de_name := ?nm, de_inum := n mod 65536\<rparr> = \<lparr>de_inum = n, de_name = ?nm\<rparr>" using assms(5) by (cases de) simp
  then show ?thesis
    using look loop cstrn_strncpy [of 14 "de_name de" name] by (intro exI [of _ ?nm]) (simp add: dirlink_def)
qed

section \<open>Properties of directories\<close>

text \<open>
  \<^bold>\<open>C12\<close>. \<^verbatim>\<open>dirlookup\<close> implements the lookup in the map a directory represents: a name
  that is not bound gives 0, and a bound name gives the inode of its number and the offset of the entry. The directory
  is not changed.
\<close>

theorem dirlookup_finds:
  assumes "dir_ok s i" "i = icache s ! dp" "txn 0 1 s"
  shows "case dir_map s i (cstrn DIRSIZ name) of
       None \<Rightarrow> dirlookup dp name s = Ok (None, s)
     | Some n \<Rightarrow> \<exists>k. 16 * k < i_size i \<and> dent s i k = (n, cstrn DIRSIZ name) \<and>
         dirlookup dp name s = rbind (iget (i_dev i) n s) (\<lambda>(ip, t). Ok (Some (ip, 16 * k), t))"
proof (cases "first_idx (\<lambda>(n, x). n \<noteq> 0 \<and> x = cstrn DIRSIZ name) (dir_entries s i)")
  case None
  then have "dir_map s i (cstrn DIRSIZ name) = None" by (simp only: dir_map_def entry_map_None)
  then show ?thesis unfolding dirlookup_ok [OF assms] None by simp
next
  case (Some k)
  from this [unfolded first_idx_Some] have k: "k < length (dir_entries s i)" "snd (dir_entries s i ! k) = cstrn DIRSIZ name"
    by (auto simp: case_prod_beta)
  have "dir_map s i (cstrn DIRSIZ name) = Some (fst (dent s i k))"
    unfolding dir_map_def entry_map_first Some using dir_entries_nth [OF k(1)] by simp
  moreover have "dent s i k = (fst (dent s i k), cstrn DIRSIZ name)"
    using k(2) dir_entries_nth [OF k(1)] by (metis prod.collapse)
  moreover have "16 * k < i_size i" using dir_entry_bound [OF assms(1)] k(1) by simp
  ultimately show ?thesis unfolding dirlookup_ok [OF assms] Some by auto
qed

text \<open>
  \<^bold>\<open>C11\<close>. \<^verbatim>\<open>dirlink\<close> implements the update of that map: linking a name that is not bound
  returns 0 and yields a well-formed directory whose first free entry (inode number 0) holds the number and the name,
  cut to \<^verbatim>\<open>DIRSIZ\<close> bytes; without a free entry the new one is appended at the end. Every other entry stays, so the
  directory binds the name to the number and all other names as before, and files and directories with other
  blocks keep their contents.
\<close>

theorem dirlink_binds:
  assumes "dir_ok s i" "i = icache s ! dp" "dp < length (icache s)" "inode_ok s i" "dinode_wf (dinode_of i)"
    and "dir_map s i (cstrn DIRSIZ name) = None" "0 < n" "n < 65536" "i_size i + 16 \<le> MAXFILE * BSIZE"
    and "txn 7 2 s" "2 \<le> nfree s (i_dev i)"
  shows "\<exists>t i'. dirlink dp name n s = Ok (0, t) \<and> icache t = (icache s)[dp := i'] \<and> dir_ok t i' \<and>
     dir_entries t i' = (case first_idx (\<lambda>(n, x). n = 0) (dir_entries s i) of
         Some k \<Rightarrow> (dir_entries s i)[k := (n, cstrn DIRSIZ name)]
       | None \<Rightarrow> dir_entries s i @ [(n, cstrn DIRSIZ name)]) \<and>
     dir_map t i' = (dir_map s i)(cstrn DIRSIZ name \<mapsto> n) \<and>
     (\<forall>f. file_ok s f \<and> i_dev f = i_dev i \<and> own s f \<inter> own s i = {} \<longrightarrow>
        file_ok t f \<and> (\<forall>j < MAXFILE * BSIZE. content t f j = content s f j))"
proof -
  have d: "file_ok s i" "layout_ok s (i_dev i)" "i_type i \<noteq> T_DEV" "dense s i" using assms(1) by (auto simp: dir_ok_def)
  have t1: "txn 0 1 s" by (rule txn_mono [OF assms(10)]) simp_all
  from dirlink_eq [OF assms(1,2) t1 assms(6,8)] obtain nm where nm: "cstrn DIRSIZ nm = cstrn DIRSIZ name"
    "dirlink dp name n s = rbind (writei dp (put_dirent \<lparr>de_inum = n, de_name = nm\<rparr>) (16 * free_slot s i) 16 s)
       (\<lambda>(m, s). if m \<noteq> 16 then Panic ''dirlink'' else Ok (0, s))" by blast
  let ?k = "free_slot s i"
  have sz: "16 * ?k \<le> i_size i" using free_slot_le [of s i] by (auto simp: dir_entries_def)
  have b: "16 * ?k + 16 \<le> MAXFILE * BSIZE" using sz assms(9) by simp
  have room: "txn (Suc 0 + 6 * nblk (16 * ?k) 16) (Suc (Suc 0)) s" "2 * nblk (16 * ?k) 16 \<le> nfree s (i_dev i)"
    using assms(10,11) by (simp_all add: nblk_entry numeral_2_eq_2)
  from writei_ok [OF d(1,2) assms(4,2,3,5) d(3) sz b room, of "put_dirent \<lparr>de_inum = n, de_name = nm\<rparr>"]
  obtain t i' where t: "writei dp (put_dirent \<lparr>de_inum = n, de_name = nm\<rparr>) (16 * ?k) 16 s = Ok (int 16, t)"
    "written dp (put_dirent \<lparr>de_inum = n, de_name = nm\<rparr>) (16 * ?k) 16 s i t i'" by blast
  note e = dir_write_entry [OF assms(1) t(2) free_slot_le b assms(8)]
  have "dir_map t i' = (dir_map s i)(cstrn DIRSIZ name \<mapsto> n)"
  proof (cases "?k < length (dir_entries s i)")
    case True
    then show ?thesis
      using entry_map_update [OF True free_slot_free [OF True]] assms(6,7) e(2) nm(1) by (simp add: dir_map_def)
  next
    case False
    then show ?thesis
      using assms(6,7) e(2) nm(1) by (auto simp: dir_map_def entry_map_append fun_eq_iff split: option.splits)
  qed
  moreover have "dirlink dp name n s = Ok (0, t)" using nm(2) t(1) by simp
  moreover have "dir_entries t i' = (case first_idx (\<lambda>(n, x). n = 0) (dir_entries s i) of
         Some k \<Rightarrow> (dir_entries s i)[k := (n, cstrn DIRSIZ name)]
       | None \<Rightarrow> dir_entries s i @ [(n, cstrn DIRSIZ name)])"
  proof (cases "first_idx (\<lambda>(n, x). n = 0) (dir_entries s i)")
    case None
    then have "?k = length (dir_entries s i)" by (simp only: free_slot_first option.case)
    then show ?thesis unfolding None using e(2) nm(1) by simp
  next
    case (Some k)
    then have "?k = k" by (simp only: free_slot_first option.case)
    moreover have "k < length (dir_entries s i)" using Some by (simp only: first_idx_Some)
    ultimately show ?thesis unfolding Some using e(2) nm(1) by simp
  qed
  ultimately show ?thesis using e(1) t(2) unfolding written_def by blast
qed

text \<open>The path elements that repeated \<^verbatim>\<open>skipelem\<close> yields, against splitting at the slashes.\<close>

function path_elems :: "byte list \<Rightarrow> block \<Rightarrow> byte list list" where
  "path_elems path name =
     (case skipelem path name of
        (None, _) \<Rightarrow> []
      | (Some p, nm) \<Rightarrow> cstrn DIRSIZ nm # path_elems p nm)"
  by pat_completeness auto
termination
  by (relation "measure (\<lambda>(path, name). length path)") (auto dest: skipelem_shorter [OF sym])

declare path_elems.simps [simp del]

fun split_slash :: "byte list \<Rightarrow> byte list list" where
  "split_slash [] = [[]]"
| "split_slash (c # p) =
     (if c = 47 then [] # split_slash p else (c # hd (split_slash p)) # tl (split_slash p))"

lemma split_slash_ne [simp]: "split_slash p \<noteq> []"
  by (cases p) auto

lemma split_skip: "filter (\<lambda>x. x \<noteq> []) (split_slash (skip_slashes p)) = filter (\<lambda>x. x \<noteq> []) (split_slash p)"
  by (induction p) auto

lemma elem_len_le [simp]: "elem_len p \<le> length p"
  by (induction p) auto

lemma split_elem:
  "split_slash p = take (elem_len p) p # (if elem_len p = length p then [] else split_slash (drop (Suc (elem_len p)) p))"
  by (induction p) auto

lemma drop_elem: "elem_len p < length p \<Longrightarrow> drop (elem_len p) p = 47 # drop (Suc (elem_len p)) p"
  by (induction p) (auto split: if_splits)

lemma skipelem_Some:
  assumes "skip_slashes path = s" "s \<noteq> []" "0 \<notin> set path"
  shows "\<exists>nm. skipelem path name = (Some (skip_slashes (drop (elem_len s) s)), nm) \<and>
    cstrn DIRSIZ nm = take DIRSIZ (take (elem_len s) s)"
proof -
  let ?n = "elem_len s"
  have nz: "0 \<notin> set s" using assms(1,3) by (induction path arbitrary: s) (auto split: if_splits)
  let ?nm = "if DIRSIZ \<le> ?n then blit name 0 (\<lambda>k. s ! k) DIRSIZ else (blit name 0 (\<lambda>k. s ! k) ?n)(?n := 0)"
  have "cstrn DIRSIZ ?nm = take DIRSIZ (take ?n s)"
  proof (cases "DIRSIZ \<le> ?n")
    case True
    have "DIRSIZ \<le> length s" using True elem_len_le [of s] by linarith
    then have "map ?nm [0..<DIRSIZ] = take DIRSIZ s"
      by (intro nth_equalityI) (use True in \<open>auto simp: blit_def\<close>)
    moreover have "takeWhile (\<lambda>c. c \<noteq> 0) (take DIRSIZ s) = take DIRSIZ s"
      using nz by (intro takeWhile_eq_all_conv [THEN iffD2]) (auto dest: in_set_takeD)
    ultimately show ?thesis unfolding cstrn_def using True by simp
  next
    case False
    have "map ?nm [0..<DIRSIZ] = take ?n s @ 0 # map ?nm [Suc ?n..<DIRSIZ]"
      by (rule nth_equalityI) (use False elem_len_le [of s] in \<open>auto simp: blit_def nth_append nth_Cons'\<close>)
    moreover have "takeWhile (\<lambda>c. c \<noteq> 0) (take ?n s @ 0 # map ?nm [Suc ?n..<DIRSIZ]) = take ?n s"
      using nz by (subst takeWhile_append2) (auto dest: in_set_takeD)
    ultimately show ?thesis unfolding cstrn_def using False by simp
  qed
  moreover have "skipelem path name = (Some (skip_slashes (drop ?n s)), ?nm)"
    using assms(1,2) by (simp add: skipelem_def Let_def)
  ultimately show ?thesis by blast
qed

text \<open>
  \<^bold>\<open>C18\<close>. Repeated \<^verbatim>\<open>skipelem\<close>, as \<^verbatim>\<open>namex\<close> uses it, yields exactly the non-empty
  parts of the path between slashes, in order, each cut to \<^verbatim>\<open>DIRSIZ\<close> bytes; leading, trailing and repeated
  slashes do not matter, and neither does what the name array held before.
\<close>

theorem skipelem_splits:
  assumes "0 \<notin> set path"
  shows "path_elems path name = map (take DIRSIZ) (filter (\<lambda>x. x \<noteq> []) (split_slash path))"
  using assms
proof (induction "length path" arbitrary: path name rule: less_induct)
  case less
  define s where "s = skip_slashes path"
  show ?case
  proof (cases "s = []")
    case True
    then have "path_elems path name = []" by (subst path_elems.simps) (simp add: skipelem_def s_def)
    moreover have "filter (\<lambda>x. x \<noteq> []) (split_slash path) = []" using split_skip [of path] True by (simp add: s_def)
    ultimately show ?thesis by simp
  next
    case False
    let ?n = "elem_len s"
    from skipelem_Some [OF s_def [symmetric] False less.prems] obtain nm where
      nm: "skipelem path name = (Some (skip_slashes (drop ?n s)), nm)" "cstrn DIRSIZ nm = take DIRSIZ (take ?n s)" by blast
    have nz: "0 \<notin> set (skip_slashes p)" if "0 \<notin> set p" for p :: "byte list"
      using that by (induction p) auto
    have "0 \<notin> set (drop ?n s)" using nz [OF less.prems] by (auto simp: s_def dest: in_set_dropD)
    then have ih: "path_elems (skip_slashes (drop ?n s)) nm =
        map (take DIRSIZ) (filter (\<lambda>x. x \<noteq> []) (split_slash (skip_slashes (drop ?n s))))"
      by (intro less.hyps nz) (use skipelem_shorter [OF nm(1)] in simp_all)
    have ne: "take ?n s \<noteq> []" using False skip_slashes_hd [of path] by (cases s) (auto simp: s_def)
    have "filter (\<lambda>x. x \<noteq> []) (split_slash s) = take ?n s # filter (\<lambda>x. x \<noteq> []) (split_slash (drop ?n s))"
      using split_elem [of s] ne drop_elem [of s] elem_len_le [of s] by (cases "?n < length s") auto
    then show ?thesis
      using nm ih split_skip [of path] split_skip [of "drop ?n s"]
      by (subst path_elems.simps) (simp add: s_def)
  qed
qed

section \<open>The root directory after boot\<close>

definition boot_root :: inode where
  "boot_root = boot_inode\<lparr>i_dev := 1, i_inum := 1, i_ref := 1, i_valid := True, i_type := T_DIR, i_nlink := 1, i_size := 32,
     i_addrs := 59 # replicate 9 0\<rparr>"

definition boot_dir :: dev_state where
  "boot_dir = set_ino 0 (\<lambda>i. boot_root) boot_dev"

lemma boot_dir_inode [simp]: "icache boot_dir ! 0 = boot_root" "length (icache boot_dir) = 50"
  by (simp_all add: boot_dir_def)

lemma boot_root_bnum: "bn < MAXFILE \<Longrightarrow> bnum boot_dir boot_root bn = (if bn = 0 then 59 else 0)"
  by (simp add: bnum_def boot_root_def boot_inode_def nth_Cons')

lemma boot_root_simps [simp]:
  "i_dev boot_root = 1" "i_indirect boot_root = 0" "i_size boot_root = 32" "i_type boot_root = T_DIR" "i_inum boot_root = 1"
  by (simp_all add: boot_root_def boot_inode_def)

lemma boot_root_content: "off < 512 \<Longrightarrow> content boot_dir boot_root off = boot_blks (1, 59) off"
  using boot_root_bnum [of 0] by (simp add: content_def boot_dir_def)

lemma boot_dir_ok: "dir_ok boot_dir boot_root" "n + h \<le> 29 \<Longrightarrow> txn n h boot_dir" "nfree boot_dir 1 = 940"
proof -
  have bf: "block_free boot_dir 1 b = block_free boot_fs 1 b" for b
    by (simp add: boot_dir_def boot_dev_free)
  have h: "held boot_dir = []" "sb boot_dir = boot_sb" by (simp_all add: boot_dir_def)
  have d: "data_block boot_dir 1 59"
    using boot_block_free [of 59] by (simp add: data_block_def h bf boot_sb_def data_start_def BBLOCK_def del: One_nat_def)
  have "file_ok boot_dir boot_root"
    using d by (simp add: file_ok_def boot_root_bnum) (simp add: boot_root_def)
  moreover have "layout_ok boot_dir 1" using boot_file_ok(2) by (simp add: boot_file_def boot_dir_def layout_ok_def)
  moreover have "dense boot_dir boot_root" by (simp add: dense_def mapped_def boot_root_bnum)
  ultimately show "dir_ok boot_dir boot_root" by (simp add: dir_ok_def)
  show "txn n h boot_dir" if "n + h \<le> 29" using that by (simp add: boot_dir_def txn_def)
  show "nfree boot_dir 1 = 940" using boot_file_ok(7) by (simp add: nfree_def boot_file_def boot_dir_def)
qed

lemma boot_dir_entries: "dir_entries boot_dir boot_root = [(1, lit ''.''), (1, lit ''..'')]"
proof -
  have "cstrn DIRSIZ (\<lambda>j. content boot_dir boot_root (2 + j)) = lit ''.''"
    "cstrn DIRSIZ (\<lambda>j. content boot_dir boot_root (18 + j)) = lit ''..''"
    by (simp_all add: cstrn_def upt_rec boot_root_content boot_blks_def lit_def)
  then show ?thesis
    by (simp add: dir_entries_def dent_def upt_rec get16_def boot_root_content boot_blks_def)
qed

theorem dirlookup_finds_witness:
  "dirlookup 0 (cstr (lit ''x'')) boot_dir = Ok (None, boot_dir) \<and> dir_map boot_dir boot_root (lit ''..'') = Some 1"
proof -
  have "cstrn DIRSIZ (cstr (lit ''x'')) = lit ''x''" by (simp add: cstrn_def cstr_def upt_rec lit_def)
  moreover have "dir_map boot_dir boot_root (lit ''x'') = None" "dir_map boot_dir boot_root (lit ''..'') = Some 1"
    by (simp_all add: dir_map_def boot_dir_entries lit_def)
  ultimately show ?thesis
    using dirlookup_finds [of boot_dir boot_root 0 "cstr (lit ''x'')"] boot_dir_ok by simp
qed

theorem dirlink_binds_witness:
  "\<exists>t i'. dirlink 0 (cstr (lit ''x'')) 7 boot_dir = Ok (0, t) \<and>
     dir_map t i' (lit ''x'') = Some 7 \<and> dir_map t i' (lit ''.'') = Some 1"
proof -
  have n: "cstrn DIRSIZ (cstr (lit ''x'')) = lit ''x''" by (simp add: cstrn_def cstr_def upt_rec lit_def)
  have m: "dir_map boot_dir boot_root (lit ''x'') = None" "dir_map boot_dir boot_root (lit ''.'') = Some 1"
    by (simp_all add: dir_map_def boot_dir_entries lit_def)
  have wf: "dinode_wf (dinode_of boot_root)" "inode_ok boot_dir boot_root"
    by (simp_all add: dinode_wf_def dinode_of_def is_short_def inode_ok_def IBLOCK_def boot_sb_def boot_dir_def)
       (simp_all add: boot_root_def boot_inode_def)
  obtain t i' where "dirlink 0 (cstr (lit ''x'')) 7 boot_dir = Ok (0, t)"
    "dir_map t i' = (dir_map boot_dir boot_root)(lit ''x'' \<mapsto> 7)"
    using dirlink_binds [of boot_dir boot_root 0 "cstr (lit ''x'')" 7] boot_dir_ok wf n m by auto
  then show ?thesis using m by (intro exI [of _ t] exI [of _ i']) (simp add: lit_def)
qed

theorem skipelem_splits_witness:
  "path_elems (lit ''//usr/a/'') (\<lambda>_. 0) = [lit ''usr'', lit ''a'']"
  using skipelem_splits [of "lit ''//usr/a/''" "\<lambda>_. 0"] by (simp add: lit_def)

end
