(* ===== verification/Version.thy ===== *)
theory Version
  imports Dir
begin

text \<open>
  Version management, snapshots and the list of deleted files of fs.c: \<^verbatim>\<open>version_create\<close>,
  \<^verbatim>\<open>version_get\<close>, \<^verbatim>\<open>version_list\<close>, \<^verbatim>\<open>version_free\<close>, \<^verbatim>\<open>snapshot_create\<close>, \<^verbatim>\<open>snapshot_restore\<close>,
  \<^verbatim>\<open>add_deleted_file\<close>, \<^verbatim>\<open>find_deleted_file\<close>, \<^verbatim>\<open>recover_deleted_file\<close>. A version node is one
  block; its fields are at the offsets of the C struct. \<^verbatim>\<open>version_get\<close> returns the contents of its static
  buffer, a copy of the block.
\<close>

section \<open>Version nodes\<close>

record version_node =
  vn_timestamp :: nat
  vn_prev :: nat
  vn_data :: "nat list"
  vn_nblocks :: nat
  vn_file_size :: nat
  vn_refcount :: nat
  vn_description :: "byte list"
  vn_checksum :: nat
  vn_snapshot_id :: nat

abbreviation VNODE_DATA_BLOCKS :: nat where "VNODE_DATA_BLOCKS \<equiv> 10"

definition get_vnode :: "block \<Rightarrow> version_node" where
  "get_vnode b = \<lparr>vn_timestamp = get32 b 0, vn_prev = get32 b 4, vn_data = get_words b 8 VNODE_DATA_BLOCKS,
     vn_nblocks = get32 b 48, vn_file_size = get32 b 52, vn_refcount = get32 b 56,
     vn_description = map (\<lambda>k. b (60 + k)) [0..<32], vn_checksum = get32 b 92, vn_snapshot_id = get32 b 96\<rparr>"

definition put_vnode :: "block \<Rightarrow> version_node \<Rightarrow> block" where
  "put_vnode b v =
     (let b = put32 b 0 (vn_timestamp v);
          b = put32 b 4 (vn_prev v);
          b = put_words b 8 (vn_data v);
          b = put32 b 48 (vn_nblocks v);
          b = put32 b 52 (vn_file_size v);
          b = put32 b 56 (vn_refcount v);
          b = blit b 60 (\<lambda>k. vn_description v ! k) 32;
          b = put32 b 92 (vn_checksum v) in
      put32 b 96 (vn_snapshot_id v))"

text \<open>One round of the copy loop of \<^verbatim>\<open>version_create\<close>, for the direct block \<open>k\<close> of the file.\<close>

definition version_copy :: "nat \<Rightarrow> nat \<Rightarrow> version_node \<times> 'z fs_state_scheme \<Rightarrow> (version_node \<times> 'z fs_state_scheme) res" where
  "version_copy ip k = (\<lambda>(v, s).
     let i = icache s ! ip in
     if i_addrs i ! k = 0 then Ok (v, s)
     else
       rbind (balloc (i_dev i) s) (\<lambda>(newblock, s).
       if newblock = 0 then Ok (v, s)
       else
         rbind (bread (i_dev i) (i_addrs i ! k) s) (\<lambda>(src, s).
         rbind (bread (i_dev i) newblock s) (\<lambda>(dst, s).
         rbind (log_write (dst\<lparr>b_data := blit (b_data dst) 0 (b_data src) BSIZE\<rparr>) s) (\<lambda>s.
         rbind (brelse src s) (\<lambda>s.
         rbind (brelse dst s) (\<lambda>s.
         Ok (v\<lparr>vn_data := (vn_data v)[vn_nblocks v := newblock], vn_nblocks := Suc (vn_nblocks v)\<rparr>,
             snd (bref_inc newblock s))))))))) "

definition version_create :: "nat \<Rightarrow> block option \<Rightarrow> nat \<Rightarrow> nat \<Rightarrow> 'z fs_state_scheme \<Rightarrow> (nat \<times> 'z fs_state_scheme) res" where
  "version_create ip description desc_len snapshot_id s =
     (let i = icache s ! ip in
      rbind (balloc (i_dev i) s) (\<lambda>(vblock, s).
      if vblock = 0 then Ok (0, s)
      else
        rbind (bread (i_dev i) vblock s) (\<lambda>(bp, s).
        let v = \<lparr>vn_timestamp = get_timestamp s, vn_prev = i_version_head i, vn_data = replicate VNODE_DATA_BLOCKS 0,
                 vn_nblocks = 0, vn_file_size = i_size i, vn_refcount = 1, vn_description = replicate 32 0,
                 vn_checksum = 0, vn_snapshot_id = snapshot_id\<rparr> in
        rbind (each_res (version_copy ip) [0..<min NDIRECT VNODE_DATA_BLOCKS] (v, s)) (\<lambda>(v, s).
        let v = (case description of
                   Some d \<Rightarrow>
                     if 0 < desc_len then
                       let len = (if desc_len < 32 then desc_len else 31) in
                       v\<lparr>vn_description := map (\<lambda>k. if k < len then d k else if k = len then 0 else vn_description v ! k) [0..<32]\<rparr>
                     else v
                 | None \<Rightarrow> v);
            v = v\<lparr>vn_checksum := (vn_timestamp v + vn_file_size v + vn_nblocks v) mod 4294967296\<rparr>;
            bp = bp\<lparr>b_data := put_vnode (b_data bp) v\<rparr> in
        rbind (log_write bp s) (\<lambda>s.
        rbind (brelse bp s) (\<lambda>s.
        rbind (iupdate ip (set_ino ip (\<lambda>i. i\<lparr>i_version_head := vblock\<rparr>) s)) (\<lambda>s.
        Ok (vblock, s))))))))"

definition version_get :: "nat \<Rightarrow> 'z fs_state_scheme \<Rightarrow> (version_node option \<times> 'z fs_state_scheme) res" where
  "version_get vblock s =
     (if vblock = 0 then Ok (None, s)
      else
        rbind (bread 1 vblock s) (\<lambda>(bp, s).
        rbind (brelse bp s) (\<lambda>s.
        Ok (Some (get_vnode (b_data bp)), s))))"

record version_info =
  vi_version_num :: nat
  vi_timestamp :: nat
  vi_file_size :: nat
  vi_block_count :: nat
  vi_description :: "byte list"

text \<open>
  The loop of \<^verbatim>\<open>version_list\<close>: \<open>left\<close> is the part of the caller's array still free
  (\<^verbatim>\<open>max - count\<close>); the result is what it stores there.
\<close>

fun version_list_loop :: "nat \<Rightarrow> nat \<Rightarrow> nat \<Rightarrow> 'z fs_state_scheme \<Rightarrow> (version_info list \<times> 'z fs_state_scheme) res" where
  "version_list_loop vblock count 0 s = Ok ([], s)"
| "version_list_loop vblock count (Suc left) s =
     (if vblock = 0 then Ok ([], s)
      else
        rbind (version_get vblock s) (\<lambda>(v, s).
        case v of
          None \<Rightarrow> Ok ([], s)
        | Some v \<Rightarrow>
            rbind (version_list_loop (vn_prev v) (Suc count) left s) (\<lambda>(buf, s).
            Ok (\<lparr>vi_version_num = count, vi_timestamp = vn_timestamp v, vi_file_size = vn_file_size v,
                 vi_block_count = vn_nblocks v, vi_description = vn_description v\<rparr> # buf, s))))"

definition version_list :: "nat \<Rightarrow> int \<Rightarrow> 'z fs_state_scheme \<Rightarrow> (int \<times> version_info list \<times> 'z fs_state_scheme) res" where
  "version_list ip max_count s =
     rbind (version_list_loop (i_version_head (icache s ! ip)) 0 (nat max_count) s) (\<lambda>(buf, s).
     Ok (int (length buf), buf, s))"

definition version_free_block :: "nat \<Rightarrow> 'z fs_state_scheme \<Rightarrow> 'z fs_state_scheme res" where
  "version_free_block b s =
     (if b = 0 then Ok s
      else case bref_dec b s of (refcount, s) \<Rightarrow> if refcount = 0 then bfree 1 b s else Ok s)"

text \<open>A node whose \<^verbatim>\<open>nblocks\<close> exceeds its array would make the code read past the array.\<close>

definition version_free :: "nat \<Rightarrow> 'z fs_state_scheme \<Rightarrow> 'z fs_state_scheme res" where
  "version_free vblock s =
     (if vblock = 0 then Ok s
      else
        rbind (version_get vblock s) (\<lambda>(v, s).
        case v of
          None \<Rightarrow> Ok s
        | Some v \<Rightarrow>
            if VNODE_DATA_BLOCKS < vn_nblocks v then Undef ''version_free: data_blocks''
            else
              rbind (each_res version_free_block (take (vn_nblocks v) (vn_data v)) s) (\<lambda>s.
              bfree 1 vblock s)))"

section \<open>Snapshots and deleted files\<close>

abbreviation MAX_SNAPSHOTS :: nat where "MAX_SNAPSHOTS \<equiv> 100"

abbreviation MAX_DELETED_FILES :: nat where "MAX_DELETED_FILES \<equiv> 32"

record snapshot_metadata =
  sn_valid :: bool
  sn_timestamp :: nat
  sn_name :: "byte list"
  sn_id :: nat
  sn_root_inum :: nat
  sn_file_count :: nat
  sn_total_blocks :: nat
  sn_creator_pid :: nat
  sn_reserved :: "byte list"

record deleted_entry =
  del_name :: block
  del_inum :: nat
  del_version_head :: nat
  del_time :: nat
  del_valid :: bool

record ver_state = dev_state +
  snapshots :: "snapshot_metadata list"
  deleted_files :: "deleted_entry list"

definition init_snapshot_list :: "'z ver_state_scheme \<Rightarrow> 'z ver_state_scheme" where
  "init_snapshot_list s = s\<lparr>snapshots := replicate MAX_SNAPSHOTS \<lparr>sn_valid = False, sn_timestamp = 0, sn_name = replicate 32 0, sn_id = 0,
     sn_root_inum = 0, sn_file_count = 0, sn_total_blocks = 0, sn_creator_pid = 0, sn_reserved = replicate 32 0\<rparr>\<rparr>"

text \<open>
  The message names the snapshot with \<^verbatim>\<open>%s\<close>, so the string of the name is needed besides its 32 bytes.
\<close>

definition snapshot_create :: "block \<Rightarrow> byte list \<Rightarrow> 'z ver_state_scheme \<Rightarrow> (int \<times> 'z ver_state_scheme) res" where
  "snapshot_create name name_str s =
     (case first_idx (\<lambda>e. \<not> sn_valid e) (snapshots s) of
        None \<Rightarrow> Ok (-1, s)
      | Some i \<Rightarrow>
          let s = s\<lparr>snapshots := (snapshots s)[i :=
                (snapshots s ! i)\<lparr>sn_name := map name [0..<32], sn_timestamp := get_timestamp s, sn_id := Suc i, sn_valid := True\<rparr>]\<rparr> in
          rbind (cprintf (lit (''Snapshot '' @ [CHR 0x27] @ ''%s'' @ [CHR 0x27] @ '' created successfully (ID: %d)'' @ [CHR 0x0A]))
                   [CStr (Some name_str), CInt (word_of_nat (Suc i))] s) (\<lambda>s.
          Ok (int (Suc i), s)))"

definition snapshot_restore :: "block \<Rightarrow> int" where
  "snapshot_restore name = -1"

definition init_deleted_list :: "'z ver_state_scheme \<Rightarrow> 'z ver_state_scheme" where
  "init_deleted_list s = s\<lparr>deleted_files := replicate MAX_DELETED_FILES
     \<lparr>del_name = (\<lambda>_. 0), del_inum = 0, del_version_head = 0, del_time = 0, del_valid = False\<rparr>\<rparr>"

definition add_deleted_file :: "block \<Rightarrow> nat \<Rightarrow> nat \<Rightarrow> 'z ver_state_scheme \<Rightarrow> 'z ver_state_scheme" where
  "add_deleted_file name inum version_head s =
     (case first_idx (\<lambda>e. \<not> del_valid e) (deleted_files s) of
        None \<Rightarrow> s
      | Some i \<Rightarrow>
          s\<lparr>deleted_files := (deleted_files s)[i :=
            \<lparr>del_name = blit (del_name (deleted_files s ! i)) 0 name DIRSIZ, del_inum = inum,
             del_version_head = version_head, del_time = get_timestamp s, del_valid = True\<rparr>]\<rparr>)"

definition find_deleted_file :: "block \<Rightarrow> 'z ver_state_scheme \<Rightarrow> nat option" where
  "find_deleted_file name s =
     first_idx (\<lambda>e. del_valid e \<and> strncmp (del_name e) name DIRSIZ = 0) (deleted_files s)"

definition recover_deleted_file :: "block \<Rightarrow> 'z ver_state_scheme \<Rightarrow> nat \<times> 'z ver_state_scheme" where
  "recover_deleted_file name s =
     (case find_deleted_file name s of
        None \<Rightarrow> (0, s)
      | Some i \<Rightarrow>
          let e = deleted_files s ! i in
          (del_version_head e, s\<lparr>deleted_files := (deleted_files s)[i := e\<lparr>del_valid := False\<rparr>]\<rparr>))"

section \<open>The list of deleted files\<close>

text \<open>The entry a name leads to: inode number and version chain.\<close>

definition deleted_map :: "'z ver_state_scheme \<Rightarrow> byte list \<Rightarrow> (nat \<times> nat) option" where
  "deleted_map s nm =
     map_option (\<lambda>i. (del_inum (deleted_files s ! i), del_version_head (deleted_files s ! i)))
       (first_idx (\<lambda>e. del_valid e \<and> cstrn DIRSIZ (del_name e) = nm) (deleted_files s))"

lemma find_deleted_eq:
  "find_deleted_file name s = first_idx (\<lambda>e. del_valid e \<and> cstrn DIRSIZ (del_name e) = cstrn DIRSIZ name) (deleted_files s)"
  by (simp add: find_deleted_file_def strncmp_0)

text \<open>An entry in place of an invalid one, for a name without entry.\<close>

lemma first_idx_update_new:
  assumes "k < length xs" "\<not> P (xs ! k)" "P y" "first_idx P xs = None"
  shows "first_idx P (xs[k := y]) = Some k"
  using assms
  by (auto simp: first_idx_Some nth_list_update simp del: first_idx_None
      dest: first_idx_None [THEN iffD1] intro: nth_mem)

lemma first_idx_update_other:
  assumes "k < length xs" "\<not> P (xs ! k)" "\<not> P y"
  shows "first_idx P (xs[k := y]) = first_idx P xs"
  using assms
proof (induction xs arbitrary: k)
  case (Cons x xs)
  then show ?case by (cases k) auto
qed simp


definition boot_ver :: ver_state where
  "boot_ver = init_deleted_list (init_snapshot_list (dev_state.extend boot_dir \<lparr>snapshots = [], deleted_files = []\<rparr>))"


end
