(* ===== verification/Pipe.thy ===== *)
theory Pipe
  imports Ring
begin

text \<open>
  Pipes (pipe.c): a ring of \<^verbatim>\<open>PIPESIZE\<close> bytes with two free-running 32-bit indices. The loops of
  \<^verbatim>\<open>pipewrite\<close> and \<^verbatim>\<open>piperead\<close> are functions of the pipe that run to the point where the code returns
  (\<open>Done\<close>) or sleeps (\<open>Wait\<close>, with the channel and the index the loop goes on with after the
  wakeup); the second component of the result are the channels \<^verbatim>\<open>wakeup\<close> was called on. \<open>pipe_step\<close>
  interleaves one writer with readers: a process that sleeps runs again only after a wakeup of its channel.
  \<^verbatim>\<open>pipealloc\<close> and \<^verbatim>\<open>pipeclose\<close>, which need the file table, are in the theory of files.
\<close>

record pipe =
  p_data :: block
  nread :: uint
  nwrite :: uint
  readopen :: bool
  writeopen :: bool

text \<open>The channels: the addresses of the two indices.\<close>

datatype pchan = Ch_nread | Ch_nwrite

datatype 'a run = Done 'a | Wait pchan nat

function pipewrite_from :: "bool \<Rightarrow> block \<Rightarrow> nat \<Rightarrow> nat \<Rightarrow> pipe \<Rightarrow> int run \<times> pchan list \<times> pipe" where
  "pipewrite_from killed addr n i p =
     (if i < n then
        if nwrite p = nread p + of_nat PIPESIZE then
          if \<not> readopen p \<or> killed then (Done (-1), [], p) else (Wait Ch_nwrite i, [Ch_nread], p)
        else
          pipewrite_from killed addr n (Suc i)
            (p\<lparr>p_data := (p_data p)(ring_slot PIPESIZE (nwrite p) := addr i), nwrite := nwrite p + 1\<rparr>)
      else (Done (int n), [Ch_nread], p))"
  by auto
termination
  by (relation "measure (\<lambda>(killed, addr, n, i, p). n - i)") auto

declare pipewrite_from.simps [simp del]

text \<open>The copy loop of \<^verbatim>\<open>piperead\<close>: the bytes stored at \<^verbatim>\<open>addr\<close>.\<close>

fun pipe_take :: "nat \<Rightarrow> pipe \<Rightarrow> byte list \<times> pipe" where
  "pipe_take 0 p = ([], p)"
| "pipe_take (Suc n) p =
     (if nread p = nwrite p then ([], p)
      else
        let c = p_data p (ring_slot PIPESIZE (nread p)) in
        (case pipe_take n (p\<lparr>nread := nread p + 1\<rparr>) of (cs, p) \<Rightarrow> (c # cs, p)))"

definition piperead_run :: "bool \<Rightarrow> nat \<Rightarrow> pipe \<Rightarrow> (int \<times> byte list) run \<times> pchan list \<times> pipe" where
  "piperead_run killed n p =
     (if nread p = nwrite p \<and> writeopen p then
        if killed then (Done (-1, []), [], p) else (Wait Ch_nread 0, [], p)
      else (case pipe_take n p of (cs, p) \<Rightarrow> (Done (int (length cs), cs), [Ch_nwrite], p)))"

section \<open>A pipe as a queue\<close>

definition pipe_list :: "pipe \<Rightarrow> byte list" where
  "pipe_list p = ring_list PIPESIZE (p_data p) (nread p) (nwrite p)"

definition pipe_ok :: "pipe \<Rightarrow> bool" where
  "pipe_ok p \<longleftrightarrow> length (pipe_list p) \<le> PIPESIZE"

lemma pipe_full_iff: "nwrite p = nread p + of_nat PIPESIZE \<longleftrightarrow> length (pipe_list p) = PIPESIZE"
proof -
  have "length (pipe_list p) = PIPESIZE \<longleftrightarrow> unat (nwrite p - nread p) = unat (512 :: uint)"
    by (simp add: pipe_list_def)
  also have "\<dots> \<longleftrightarrow> nwrite p - nread p = 512" by (simp only: word_unat_eq_iff)
  also have "\<dots> \<longleftrightarrow> nwrite p = nread p + 512" by (simp add: diff_eq_eq add.commute)
  finally show ?thesis by simp
qed

lemma pipe_empty_iff: "nread p = nwrite p \<longleftrightarrow> pipe_list p = []"
  by (simp add: pipe_list_def ring_empty_iff)

lemma pipe_push:
  fixes c :: byte
  assumes "pipe_ok p" "length (pipe_list p) < PIPESIZE"
  defines "q \<equiv> p\<lparr>p_data := (p_data p)(ring_slot PIPESIZE (nwrite p) := c), nwrite := nwrite p + 1\<rparr>"
  shows "pipe_list q = pipe_list p @ [c]" "pipe_ok q" "readopen q = readopen p" "writeopen q = writeopen p"
  using assms pipe_ring.push [of "nwrite p" "nread p" "p_data p" c]
  by (simp_all add: pipe_ok_def pipe_list_def q_def)

lemma pipewrite_from_ok:
  assumes "pipe_ok p" "i \<le> n"
  shows "\<exists>k q r ws. pipewrite_from killed addr n i p = (r, ws, q) \<and> i \<le> k \<and> k \<le> n \<and> pipe_ok q \<and>
     readopen q = readopen p \<and> writeopen q = writeopen p \<and>
     pipe_list q = pipe_list p @ map addr [i..<k] \<and>
     (if k = n then r = Done (int n) \<and> ws = [Ch_nread]
      else length (pipe_list q) = PIPESIZE \<and>
        (if \<not> readopen p \<or> killed then r = Done (-1) \<and> ws = [] else r = Wait Ch_nwrite k \<and> ws = [Ch_nread]))"
  using assms
proof (induction killed addr n i p rule: pipewrite_from.induct)
  case (1 killed addr n i p)
  show ?case
  proof (cases "i < n \<and> nwrite p \<noteq> nread p + of_nat PIPESIZE")
    case True
    let ?q = "p\<lparr>p_data := (p_data p)(ring_slot PIPESIZE (nwrite p) := addr i), nwrite := nwrite p + 1\<rparr>"
    have lt: "length (pipe_list p) < PIPESIZE"
      using pipe_full_iff [of p] True "1.prems"(1) by (simp add: pipe_ok_def)
    note q = pipe_push [OF "1.prems"(1) lt, of "addr i"]
    have "\<exists>k q r ws. pipewrite_from killed addr n (Suc i) ?q = (r, ws, q) \<and> Suc i \<le> k \<and> k \<le> n \<and> pipe_ok q \<and>
       readopen q = readopen ?q \<and> writeopen q = writeopen ?q \<and>
       pipe_list q = pipe_list ?q @ map addr [Suc i..<k] \<and>
       (if k = n then r = Done (int n) \<and> ws = [Ch_nread]
        else length (pipe_list q) = PIPESIZE \<and>
          (if \<not> readopen ?q \<or> killed then r = Done (-1) \<and> ws = [] else r = Wait Ch_nwrite k \<and> ws = [Ch_nread]))"
      by (rule "1.IH") (use True q(2) in simp_all)
    from this [unfolded q(3,4)] obtain k u r ws where
      k: "pipewrite_from killed addr n (Suc i) ?q = (r, ws, u)" "Suc i \<le> k" "k \<le> n" "pipe_ok u"
       "readopen u = readopen p" "writeopen u = writeopen p"
       "pipe_list u = pipe_list ?q @ map addr [Suc i..<k]"
       "if k = n then r = Done (int n) \<and> ws = [Ch_nread]
        else length (pipe_list u) = PIPESIZE \<and>
          (if \<not> readopen p \<or> killed then r = Done (-1) \<and> ws = [] else r = Wait Ch_nwrite k \<and> ws = [Ch_nread])"
      by blast
    have "map addr [i..<k] = addr i # map addr [Suc i..<k]" using k(2) by (simp add: upt_conv_Cons)
    then have "pipe_list u = pipe_list p @ map addr [i..<k]" using k(7) q(1) by simp
    moreover have "pipewrite_from killed addr n i p = (r, ws, u)"
      using True k(1) by (subst pipewrite_from.simps) simp
    ultimately show ?thesis using k by (intro exI [of _ k] exI [of _ u] exI [of _ r] exI [of _ ws]) simp
  next
    case False
    then have "pipewrite_from killed addr n i p =
        (if i < n then if \<not> readopen p \<or> killed then (Done (-1), [], p) else (Wait Ch_nwrite i, [Ch_nread], p)
         else (Done (int n), [Ch_nread], p))"
      by (subst pipewrite_from.simps) simp
    then show ?thesis
      using "1.prems" pipe_full_iff [of p] False by (intro exI [of _ i] exI [of _ p]) auto
  qed
qed

lemma pipe_take_ok:
  assumes "pipe_ok p"
  shows "\<exists>q. pipe_take n p = (take n (pipe_list p), q) \<and> pipe_list q = drop n (pipe_list p) \<and> pipe_ok q \<and>
     readopen q = readopen p \<and> writeopen q = writeopen p"
  using assms
proof (induction n arbitrary: p)
  case (Suc n)
  show ?case
  proof (cases "nread p = nwrite p")
    case True
    then show ?thesis using Suc.prems pipe_empty_iff [of p] by simp
  next
    case False
    let ?q = "p\<lparr>nread := nread p + 1\<rparr>"
    have l: "pipe_list p = p_data p (ring_slot PIPESIZE (nread p)) # pipe_list ?q"
      using pipe_ring.pop [OF False, of "p_data p"] by (simp add: pipe_list_def)
    then have "pipe_ok ?q" using Suc.prems by (simp add: pipe_ok_def)
    from Suc.IH [OF this] obtain u where "pipe_take n ?q = (take n (pipe_list ?q), u)" "pipe_list u = drop n (pipe_list ?q)"
      "pipe_ok u" "readopen u = readopen p" "writeopen u = writeopen p" by auto
    then show ?thesis using False l by (simp add: Let_def)
  qed
qed simp

lemma piperead_run_ok:
  assumes "pipe_ok p" "writeopen p"
  shows "\<exists>q. piperead_run False m p =
     (if pipe_list p = [] then (Wait Ch_nread 0, [], p)
      else (Done (int (length (take m (pipe_list p))), take m (pipe_list p)), [Ch_nwrite], q)) \<and>
     pipe_list q = drop m (pipe_list p) \<and> pipe_ok q \<and> readopen q = readopen p \<and> writeopen q = writeopen p"
proof -
  from pipe_take_ok [OF assms(1), of m] obtain q where q: "pipe_take m p = (take m (pipe_list p), q)"
    "pipe_list q = drop m (pipe_list p)" "pipe_ok q" "readopen q = readopen p" "writeopen q = writeopen p" by blast
  show ?thesis using q assms(2) pipe_empty_iff [of p]
    by (intro exI [of _ q]) (simp add: piperead_run_def)
qed

section \<open>One writer and its readers\<close>

text \<open>
  A call of \<^verbatim>\<open>pipewrite\<close> with \<open>n\<close> bytes by process 0, and calls of \<^verbatim>\<open>piperead\<close> by the processes 1 to
  \<open>N\<close>, with sizes from \<open>M\<close>, none of them killed: the index the writer has reached (\<open>n\<close> once it has returned), the
  channel each process sleeps on, the pipe, and the bytes read so far. A step is a stretch of one process, which
  must not be asleep, between two points where it sleeps or returns; in between it holds the lock of the pipe.
\<close>

type_synonym pipe_conf = "nat \<times> (nat \<Rightarrow> pchan option) \<times> pipe \<times> byte list"

definition wakeups :: "pchan list \<Rightarrow> (nat \<Rightarrow> pchan option) \<Rightarrow> nat \<Rightarrow> pchan option" where
  "wakeups ws slp r = (case slp r of None \<Rightarrow> None | Some c \<Rightarrow> if c \<in> set ws then None else Some c)"

inductive pipe_step :: "block \<Rightarrow> nat \<Rightarrow> nat \<Rightarrow> nat set \<Rightarrow> pipe_conf \<Rightarrow> pipe_conf \<Rightarrow> bool" for addr n N M where
  write_waits: "i < n \<Longrightarrow> slp 0 = None \<Longrightarrow> pipewrite_from False addr n i p = (Wait c k, ws, q) \<Longrightarrow>
    pipe_step addr n N M (i, slp, p, out) (k, (wakeups ws slp)(0 := Some c), q, out)"
| write_returns: "i < n \<Longrightarrow> slp 0 = None \<Longrightarrow> pipewrite_from False addr n i p = (Done x, ws, q) \<Longrightarrow>
    pipe_step addr n N M (i, slp, p, out) (n, wakeups ws slp, q, out)"
| read_waits: "1 \<le> r \<Longrightarrow> r \<le> N \<Longrightarrow> m \<in> M \<Longrightarrow> slp r = None \<Longrightarrow> piperead_run False m p = (Wait c k, ws, q) \<Longrightarrow>
    pipe_step addr n N M (i, slp, p, out) (i, (wakeups ws slp)(r := Some c), q, out)"
| read_returns: "1 \<le> r \<Longrightarrow> r \<le> N \<Longrightarrow> m \<in> M \<Longrightarrow> slp r = None \<Longrightarrow> piperead_run False m p = (Done (x, cs), ws, q) \<Longrightarrow>
    pipe_step addr n N M (i, slp, p, out) (i, wakeups ws slp, q, out @ cs)"

text \<open>
  What was read and what the pipe holds is what was written, in order. The writer sleeps only on
  a full pipe, a reader only on an empty one: every change of that wakes the sleepers.
\<close>

definition pipe_inv :: "block \<Rightarrow> nat \<Rightarrow> pipe_conf \<Rightarrow> bool" where
  "pipe_inv addr n = (\<lambda>(i, slp, p, out). i \<le> n \<and> pipe_ok p \<and> readopen p \<and> writeopen p \<and>
     out @ pipe_list p = map addr [0..<i] \<and>
     (slp 0 = None \<or> slp 0 = Some Ch_nwrite \<and> length (pipe_list p) = PIPESIZE) \<and>
     (\<forall>r \<ge> 1. slp r = None \<or> slp r = Some Ch_nread \<and> pipe_list p = []))"

text \<open>Bytes still to be written and to be read, then processes that are awake.\<close>

definition pipe_rank :: "nat \<Rightarrow> nat \<Rightarrow> pipe_conf \<Rightarrow> nat" where
  "pipe_rank n N = (\<lambda>(i, slp, p, out).
     ((n - i) + (n - length out)) * (N + 2) + card {r. r \<le> N \<and> slp r = None})"

lemma awake_le: "card {r. r \<le> N \<and> slp r = None} \<le> N + 1"
proof -
  have "{r. r \<le> N \<and> slp r = None} \<subseteq> {..N}" by auto
  then show ?thesis using card_mono [of "{..N}"] by fastforce
qed

lemma rank_progress:
  assumes "(n - k) + (n - length out') < (n - i) + (n - length out)"
  shows "pipe_rank n N (k, slp', q, out') < pipe_rank n N (i, slp, p, out)"
proof -
  have "((n - k) + (n - length out')) * (N + 2) + (N + 2) \<le> ((n - i) + (n - length out)) * (N + 2)"
    using mult_le_mono1 [OF assms [unfolded Suc_le_eq [symmetric]], of "N + 2"] by simp
  then show ?thesis using awake_le [of N slp'] unfolding pipe_rank_def prod.case by linarith
qed

lemma rank_sleeps:
  assumes "slp r = None" "r \<le> N" "\<And>x. slp' x = (if x = r then Some c else slp x)"
  shows "pipe_rank n N (i, slp', q, out) < pipe_rank n N (i, slp, p, out)"
proof -
  have "{x. x \<le> N \<and> slp' x = None} \<subset> {x. x \<le> N \<and> slp x = None}" using assms by (auto split: if_splits)
  then have "card {x. x \<le> N \<and> slp' x = None} < card {x. x \<le> N \<and> slp x = None}"
    by (rule psubset_card_mono [rotated]) simp
  then show ?thesis by (simp add: pipe_rank_def)
qed

lemma writer_step:
  assumes "pipe_inv addr n (i, slp, p, out)" "i < n"
  obtains k q ws where "i \<le> k" "k \<le> n" "ws = [Ch_nread]" "pipe_ok q" "readopen q" "writeopen q"
    "out @ pipe_list q = map addr [0..<k]" "k \<noteq> n \<longrightarrow> length (pipe_list q) = PIPESIZE"
    "pipewrite_from False addr n i p = (if k = n then Done (int n) else Wait Ch_nwrite k, ws, q)"
    "k = i \<longrightarrow> length (pipe_list p) = PIPESIZE \<and> pipe_list q = pipe_list p"
proof -
  have ok: "pipe_ok p" "i \<le> n" "readopen p" "writeopen p" "out @ pipe_list p = map addr [0..<i]"
    using assms(1) by (auto simp: pipe_inv_def)
  from pipewrite_from_ok [OF ok(1,2), of False addr] obtain k q r ws where
    k: "pipewrite_from False addr n i p = (r, ws, q)" "i \<le> k" "k \<le> n" "pipe_ok q" "readopen q = readopen p" "writeopen q = writeopen p"
     "pipe_list q = pipe_list p @ map addr [i..<k]"
     and r: "if k = n then r = Done (int n) \<and> ws = [Ch_nread]
      else length (pipe_list q) = PIPESIZE \<and>
        (if \<not> readopen p \<or> False then r = Done (-1) \<and> ws = [] else r = Wait Ch_nwrite k \<and> ws = [Ch_nread])"
    by blast
  have r': "r = (if k = n then Done (int n) else Wait Ch_nwrite k)" "ws = [Ch_nread]" "k \<noteq> n \<longrightarrow> length (pipe_list q) = PIPESIZE"
    using r ok(3) by (simp_all split: if_splits)
  have "map addr [0..<i] @ map addr [i..<k] = map addr [0..<k]"
    using upt_add_eq_append [of 0 i "k - i"] k(2) by (simp flip: map_append)
  then have "out @ pipe_list q = map addr [0..<k]" using ok(5) k(7) by (metis append_assoc)
  moreover have "k = i \<longrightarrow> length (pipe_list p) = PIPESIZE \<and> pipe_list q = pipe_list p"
    using k(7) r'(3) assms(2) by auto
  ultimately show thesis
    using k(1-6) ok(3,4) r' by (intro that [of k ws q]) simp_all
qed

lemma write_step_inv:
  assumes "pipe_inv addr n (i, slp, p, out)" "i < n" "slp 0 = None"
  obtains k slp' q where "pipe_inv addr n (k, slp', q, out)"
    "pipe_rank n N (k, slp', q, out) < pipe_rank n N (i, slp, p, out)"
    "pipe_step addr n N M (i, slp, p, out) (k, slp', q, out)"
    "\<And>c l ws u. pipewrite_from False addr n i p = (Wait c l, ws, u) \<Longrightarrow> (l, (wakeups ws slp)(0 := Some c), u) = (k, slp', q)"
    "\<And>x ws u. pipewrite_from False addr n i p = (Done x, ws, u) \<Longrightarrow> (n, wakeups ws slp, u) = (k, slp', q)"
proof -
  from writer_step [OF assms(1,2)] obtain k q ws where
    k: "i \<le> k" "k \<le> n" "ws = [Ch_nread]" "pipe_ok q" "readopen q" "writeopen q" "out @ pipe_list q = map addr [0..<k]"
      "k \<noteq> n \<longrightarrow> length (pipe_list q) = PIPESIZE"
      "pipewrite_from False addr n i p = (if k = n then Done (int n) else Wait Ch_nwrite k, ws, q)"
      "k = i \<longrightarrow> length (pipe_list p) = PIPESIZE \<and> pipe_list q = pipe_list p" .
  have rd: "slp r = None \<or> slp r = Some Ch_nread \<and> pipe_list p = []" if "1 \<le> r" for r
    using assms(1) that by (simp add: pipe_inv_def)
  have aw: "wakeups ws slp r = None" for r
    using rd [of r] assms(3) k(3) by (cases "r = 0") (auto simp: wakeups_def)
  let ?slp = "if k = n then wakeups ws slp else (wakeups ws slp)(0 := Some Ch_nwrite)"
  have "pipe_inv addr n (k, ?slp, q, out)" using k aw by (simp add: pipe_inv_def)
  moreover have "pipe_rank n N (k, ?slp, q, out) < pipe_rank n N (i, slp, p, out)"
  proof (cases "k = i")
    case True
    then have "pipe_list p \<noteq> []" "k \<noteq> n" using k(10) assms(2) by auto
    then have "?slp x = (if x = 0 then Some Ch_nwrite else slp x)" for x
      using rd [of x] aw [of x] by (cases "x = 0") auto
    then show ?thesis unfolding True using assms(3) by (intro rank_sleeps [where r = 0 and c = Ch_nwrite]) simp_all
  next
    case False
    then show ?thesis using k(1,2) by (intro rank_progress) simp
  qed
  moreover have "pipe_step addr n N M (i, slp, p, out) (k, ?slp, q, out)"
    using pipe_step.write_waits [of i n slp addr p Ch_nwrite k ws q N M out]
      pipe_step.write_returns [of i n slp addr p "int n" ws q N M out] assms(2,3) k(9)
    by (cases "k = n") simp_all
  ultimately show thesis by (rule that) (use k(9) in \<open>auto split: if_splits\<close>)
qed

lemma read_step_inv:
  assumes "pipe_inv addr n (i, slp, p, out)" "1 \<le> r" "r \<le> N" "m \<in> M" "0 < m" "slp r = None"
  obtains slp' q cs where "pipe_inv addr n (i, slp', q, out @ cs)"
    "pipe_rank n N (i, slp', q, out @ cs) < pipe_rank n N (i, slp, p, out)"
    "pipe_step addr n N M (i, slp, p, out) (i, slp', q, out @ cs)"
    "\<And>c l ws u. piperead_run False m p = (Wait c l, ws, u) \<Longrightarrow> ((wakeups ws slp)(r := Some c), u, []) = (slp', q, cs)"
    "\<And>x ds ws u. piperead_run False m p = (Done (x, ds), ws, u) \<Longrightarrow> (wakeups ws slp, u, ds) = (slp', q, cs)"
proof -
  have ok: "i \<le> n" "pipe_ok p" "readopen p" "writeopen p" "out @ pipe_list p = map addr [0..<i]"
    "slp 0 = None \<or> slp 0 = Some Ch_nwrite \<and> length (pipe_list p) = PIPESIZE"
    "\<And>r. 1 \<le> r \<Longrightarrow> slp r = None \<or> slp r = Some Ch_nread \<and> pipe_list p = []"
    using assms(1) by (auto simp: pipe_inv_def)
  from piperead_run_ok [OF ok(2,4), of m] obtain q where q: "piperead_run False m p =
     (if pipe_list p = [] then (Wait Ch_nread 0, [], p)
      else (Done (int (length (take m (pipe_list p))), take m (pipe_list p)), [Ch_nwrite], q))"
     "pipe_list q = drop m (pipe_list p)" "pipe_ok q" "readopen q = readopen p" "writeopen q = writeopen p" by blast
  show thesis
  proof (cases "pipe_list p = []")
    case True
    let ?slp = "(wakeups [] slp)(r := Some Ch_nread)"
    have w: "wakeups [] slp = slp" by (auto simp: wakeups_def fun_eq_iff split: option.splits)
    have "pipe_inv addr n (i, ?slp, p, out @ [])" using assms(1,2) True w by (auto simp: pipe_inv_def)
    moreover have "pipe_rank n N (i, ?slp, p, out) < pipe_rank n N (i, slp, p, out)"
      using assms(3,6) by (intro rank_sleeps [where r = r and c = Ch_nread]) (simp_all add: w)
    moreover have "pipe_step addr n N M (i, slp, p, out) (i, ?slp, p, out)"
      using assms(2-4,6) q(1) True by (intro pipe_step.read_waits [where r = r and m = m and k = 0]) simp_all
    ultimately show thesis by (intro that [of ?slp p "[]"]) (use q(1) True in auto)
  next
    case False
    let ?cs = "take m (pipe_list p)" and ?slp = "wakeups [Ch_nwrite] slp"
    have w: "?slp x = None" for x
      using ok(6) ok(7) [of x] False by (cases "x = 0") (auto simp: wakeups_def)
    have e: "(out @ ?cs) @ pipe_list q = map addr [0..<i]" using ok(5) q(2) by simp
    have "pipe_inv addr n (i, ?slp, q, out @ ?cs)" using ok(1,3,4) q e w by (simp add: pipe_inv_def)
    moreover have "pipe_rank n N (i, ?slp, q, out @ ?cs) < pipe_rank n N (i, slp, p, out)"
    proof (rule rank_progress)
      have "length out + length ?cs \<le> i" using arg_cong [OF e, of length] by simp
      moreover have "0 < length ?cs" using False assms(5) by simp
      ultimately show "(n - i) + (n - length (out @ ?cs)) < (n - i) + (n - length out)"
        using ok(1) unfolding length_append by arith
    qed
    moreover have "pipe_step addr n N M (i, slp, p, out) (i, ?slp, q, out @ ?cs)"
      using assms(2-4,6) q(1) False
      by (intro pipe_step.read_returns [where r = r and m = m and x = "int (length (take m (pipe_list p)))"]) simp_all
    ultimately show thesis by (intro that [of ?slp q ?cs]) (use q(1) False in auto)
  qed
qed

lemma pipe_step_inv:
  assumes "pipe_step addr n N M c d" "pipe_inv addr n c" "0 \<notin> M"
  shows "pipe_inv addr n d \<and> pipe_rank n N d < pipe_rank n N c"
  using assms
proof (induction rule: pipe_step.induct)
  case (write_waits i slp p c k ws q out)
  show ?case
  proof (rule write_step_inv [of addr n i slp p out N M, OF write_waits(4,1,2)])
    fix k' slp' q'
    assume a: "pipe_inv addr n (k', slp', q', out)" "pipe_rank n N (k', slp', q', out) < pipe_rank n N (i, slp, p, out)"
      and "\<And>c l ws u. pipewrite_from False addr n i p = (Wait c l, ws, u) \<Longrightarrow> (l, (wakeups ws slp)(0 := Some c), u) = (k', slp', q')"
    from this(3) [OF write_waits(3)] have "k' = k" "slp' = (wakeups ws slp)(0 := Some c)" "q' = q" by simp_all
    with a show ?thesis by simp
  qed
next
  case (write_returns i slp p x ws q out)
  show ?case
  proof (rule write_step_inv [of addr n i slp p out N M, OF write_returns(4,1,2)])
    fix k' slp' q'
    assume a: "pipe_inv addr n (k', slp', q', out)" "pipe_rank n N (k', slp', q', out) < pipe_rank n N (i, slp, p, out)"
      and "\<And>x ws u. pipewrite_from False addr n i p = (Done x, ws, u) \<Longrightarrow> (n, wakeups ws slp, u) = (k', slp', q')"
    from this(3) [OF write_returns(3)] have "k' = n" "slp' = wakeups ws slp" "q' = q" by simp_all
    with a show ?thesis by simp
  qed
next
  case (read_waits r m slp p c k ws q i out)
  have m: "0 < m" using read_waits(3,7) by (cases m) auto
  show ?case
  proof (rule read_step_inv [of addr n i slp p out r N m M, OF read_waits(6,1-3) m read_waits(4)])
    fix slp' q' cs'
    assume a: "pipe_inv addr n (i, slp', q', out @ cs')" "pipe_rank n N (i, slp', q', out @ cs') < pipe_rank n N (i, slp, p, out)"
      and "\<And>c l ws u. piperead_run False m p = (Wait c l, ws, u) \<Longrightarrow> ((wakeups ws slp)(r := Some c), u, []) = (slp', q', cs')"
    from this(3) [OF read_waits(5)] have "slp' = (wakeups ws slp)(r := Some c)" "q' = q" "cs' = []" by simp_all
    with a show ?thesis by simp
  qed
next
  case (read_returns r m slp p x cs ws q i out)
  have m: "0 < m" using read_returns(3,7) by (cases m) auto
  show ?case
  proof (rule read_step_inv [of addr n i slp p out r N m M, OF read_returns(6,1-3) m read_returns(4)])
    fix slp' q' cs'
    assume a: "pipe_inv addr n (i, slp', q', out @ cs')" "pipe_rank n N (i, slp', q', out @ cs') < pipe_rank n N (i, slp, p, out)"
      and "\<And>x ds ws u. piperead_run False m p = (Done (x, ds), ws, u) \<Longrightarrow> (wakeups ws slp, u, ds) = (slp', q', cs')"
    from this(3) [OF read_returns(5)] have "slp' = wakeups ws slp" "q' = q" "cs' = cs" by simp_all
    with a show ?thesis by simp
  qed
qed

lemma pipe_steps_inv:
  assumes "(pipe_step addr n N M ^^ t) c d" "pipe_inv addr n c" "0 \<notin> M"
  shows "pipe_inv addr n d \<and> pipe_rank n N d + t \<le> pipe_rank n N c"
  using assms(1)
proof (induction t arbitrary: d)
  case (Suc t)
  then obtain e where e: "(pipe_step addr n N M ^^ t) c e" "pipe_step addr n N M e d" by auto
  then have i: "pipe_inv addr n e \<and> pipe_rank n N e + t \<le> pipe_rank n N c" using Suc.IH by blast
  then show ?case using pipe_step_inv [OF e(2) _ assms(3)] by auto
qed (use assms(2) in simp)

lemma pipe_not_stuck:
  assumes "pipe_inv addr n (i, slp, p, out)" "length out < n" "1 \<le> N" "m \<in> M" "0 < m"
  shows "\<exists>d. pipe_step addr n N M (i, slp, p, out) d"
proof (cases "pipe_list p = []")
  case True
  then have i: "length out = i" "slp 0 = None"
    using assms(1) arg_cong [of out "map addr [0..<i]" length] by (auto simp: pipe_inv_def)
  have "i < n" using i(1) assms(2) by simp
  from write_step_inv [of addr n i slp p out N M, OF assms(1) this i(2)] show ?thesis by metis
next
  case False
  then have "slp 1 = None" using assms(1) by (auto simp: pipe_inv_def)
  from read_step_inv [of addr n i slp p out 1 N m M, OF assms(1) order_refl assms(3-5) this] show ?thesis by metis
qed

text \<open>
  \<^bold>\<open>C19\<close>. A pipe delivers. A \<^verbatim>\<open>pipewrite\<close> of \<open>n\<close> bytes (however large, and from any position of the
  32-bit indices) runs together with any number of processes that call \<^verbatim>\<open>piperead\<close> for at least one byte at a
  time, all awake at first, none killed and both ends open. In every interleaving, in which a process that has gone
  to sleep runs again only when another calls \<^verbatim>\<open>wakeup\<close> on its channel: what has been read is a prefix of what was
  written, and the pipe holds exactly the bytes in between, at most 512; the number of steps is bounded; and
  when no process can run any more, because each sleeps or has returned, all bytes have been read. So no
  wakeup is lost and every run delivers everything.
\<close>

theorem pipe_delivers:
  assumes "pipe_list p0 = []" "readopen p0" "writeopen p0" "1 \<le> N" "M \<noteq> {}" "0 \<notin> M"
    and "(pipe_step addr n N M ^^ t) (0, \<lambda>_. None, p0, []) (i, slp, p, out)"
  shows "out @ pipe_list p = map addr [0..<i] \<and> length (pipe_list p) \<le> PIPESIZE \<and> i \<le> n \<and>
     t \<le> 2 * n * (N + 2) + (N + 1) \<and>
     ((\<nexists>d. pipe_step addr n N M (i, slp, p, out) d) \<longrightarrow> out = map addr [0..<n])"
proof -
  have "pipe_inv addr n (0, \<lambda>_. None, p0, [])" using assms(1-3) by (simp add: pipe_inv_def pipe_ok_def)
  from pipe_steps_inv [OF assms(7) this assms(6)] have inv: "pipe_inv addr n (i, slp, p, out)"
    and t: "t \<le> pipe_rank n N (0, \<lambda>_. None, p0, [])" by simp_all
  have "pipe_rank n N (0, \<lambda>_. None, p0, []) \<le> 2 * n * (N + 2) + (N + 1)"
    using awake_le [of N "\<lambda>_. None"] by (simp add: pipe_rank_def)
  moreover have "out = map addr [0..<n]" if "\<nexists>d. pipe_step addr n N M (i, slp, p, out) d"
  proof -
    obtain m where m: "m \<in> M" using assms(5) by blast
    have m0: "0 < m" using m assms(6) by (cases m) auto
    have "\<not> length out < n" using pipe_not_stuck [OF inv _ assms(4) m m0] that by blast
    moreover have eq: "out @ pipe_list p = map addr [0..<i]" "i \<le> n" using inv by (simp_all add: pipe_inv_def)
    moreover have "length out + length (pipe_list p) = i" using arg_cong [OF eq(1), of length] by simp
    ultimately have "i = n" "length (pipe_list p) = 0" by linarith+
    then show ?thesis using eq(1) by simp
  qed
  moreover have "out @ pipe_list p = map addr [0..<i]" "length (pipe_list p) \<le> PIPESIZE" "i \<le> n"
    using inv by (simp_all add: pipe_inv_def pipe_ok_def)
  ultimately show ?thesis using t by (intro conjI impI) linarith+
qed

definition pipe0 :: pipe where
  "pipe0 = \<lparr>p_data = (\<lambda>_. 0), nread = 4294967295, nwrite = 4294967295, readopen = True, writeopen = True\<rparr>"

text \<open>
  The reader goes first and falls asleep; the writer, whose indices wrap around with the first byte, wakes it.
\<close>

theorem pipe_delivers_witness:
  "\<exists>p. (pipe_step (\<lambda>k. of_nat k) 3 1 {8} ^^ 2) (0, \<lambda>_. None, pipe0, []) (3, \<lambda>_. None, p, []) \<and> pipe_list p = [0, 1, 2]"
proof -
  let ?a = "\<lambda>k. of_nat k :: byte" and ?s = "(\<lambda>_. None)(1 := Some Ch_nread) :: nat \<Rightarrow> pchan option"
  have z: "pipe_list pipe0 = []" by (simp add: pipe_list_def pipe0_def)
  have rd: "piperead_run False 8 pipe0 = (Wait Ch_nread 0, [], pipe0)" by (simp add: piperead_run_def pipe0_def)
  have w: "wakeups [] (\<lambda>_. None) = (\<lambda>_. None)" "wakeups [Ch_nread] ?s = (\<lambda>_. None)"
    by (auto simp: wakeups_def fun_eq_iff)
  have st1: "pipe_step ?a 3 1 {8} (0, \<lambda>_. None, pipe0, []) (0, ?s, pipe0, [])"
    using pipe_step.read_waits [OF order_refl order_refl _ _ rd, of "{8}" "\<lambda>_. None" ?a 3 0 "[]"] unfolding w(1) by simp
  have "pipe_ok pipe0" "(0 :: nat) \<le> 3" using z by (simp_all add: pipe_ok_def)
  from pipewrite_from_ok [OF this, of False ?a] obtain k q r ws where
    k: "pipewrite_from False ?a 3 0 pipe0 = (r, ws, q)" "k \<le> 3" "pipe_list q = pipe_list pipe0 @ map ?a [0..<k]"
    "if k = 3 then r = Done (int 3) \<and> ws = [Ch_nread] else length (pipe_list q) = PIPESIZE \<and>
       (if \<not> readopen pipe0 \<or> False then r = Done (-1) \<and> ws = [] else r = Wait Ch_nwrite k \<and> ws = [Ch_nread])"
    by blast
  have "k = 3"
  proof (rule ccontr)
    assume "k \<noteq> 3"
    then show False using k(2-4) z by simp
  qed
  then have wr: "pipewrite_from False ?a 3 0 pipe0 = (Done (int 3), [Ch_nread], q)" using k(1,4) by simp
  have st2: "pipe_step ?a 3 1 {8} (0, ?s, pipe0, []) (3, \<lambda>_. None, q, [])"
    using pipe_step.write_returns [OF _ _ wr, of ?s 1 "{8}" "[]"] unfolding w(2) by simp
  have st: "(pipe_step ?a 3 1 {8} ^^ 2) (0, \<lambda>_. None, pipe0, []) (3, \<lambda>_. None, q, [])"
    unfolding numeral_2_eq_2 using st1 st2 by (intro relpowp_Suc_I [OF relpowp_Suc_I [OF relpowp_0_I]])
  have "readopen pipe0" "writeopen pipe0" "(1 :: nat) \<le> 1" "{8 :: nat} \<noteq> {}" "0 \<notin> {8 :: nat}" by (simp_all add: pipe0_def)
  from pipe_delivers [OF z this st] have "pipe_list q = map ?a [0..<3]" by simp
  then show ?thesis using st by (intro exI [of _ q] conjI) (simp_all add: upt_rec)
qed

end
