(* ===== verification/Kalloc.thy ===== *)
theory Kalloc
  imports Strings
begin

text \<open>
  The physical page allocator (kalloc.c): a list of free pages that is linked through the first word of each free
  page. Addresses are kernel virtual addresses; the memory is one byte array. The end of the kernel image
  (\<^verbatim>\<open>end\<close>, from the linker) is a field of the state. The lemmas show that the linked list represents
  a stack of distinct pages, whatever sequence of allocations and releases, and that a page is never
  free and allocated at once. The lock around the list is modelled in the theory of spinlocks.
\<close>

abbreviation PGSIZE :: nat where "PGSIZE \<equiv> 4096"
abbreviation KERNBASE :: nat where "KERNBASE \<equiv> 2147483648"
abbreviation PHYSTOP :: nat where "PHYSTOP \<equiv> 234881024"

definition PGROUNDUP :: "nat \<Rightarrow> nat" where
  "PGROUNDUP sz = ((sz + PGSIZE - 1) mod 4294967296) div PGSIZE * PGSIZE"

definition PGROUNDDOWN :: "nat \<Rightarrow> nat" where
  "PGROUNDDOWN a = a div PGSIZE * PGSIZE"

text \<open>The physical address of a kernel address, modulo \<open>2 ^ 32\<close>.\<close>

definition V2P :: "nat \<Rightarrow> nat" where
  "V2P a = (a + 4294967296 - KERNBASE) mod 4294967296"

definition P2V :: "nat \<Rightarrow> nat" where
  "P2V a = (a + KERNBASE) mod 4294967296"

record kmem_state =
  kmem_use_lock :: bool
  kmem_freelist :: nat
  kmem_mem :: block
  kmem_end :: nat

definition kfree :: "nat \<Rightarrow> 'z kmem_state_scheme \<Rightarrow> 'z kmem_state_scheme res" where
  "kfree v s =
     (if v mod PGSIZE \<noteq> 0 \<or> v < kmem_end s \<or> PHYSTOP \<le> V2P v then Panic ''kfree''
      else
        let m = memset (kmem_mem s) v 1 PGSIZE in
        Ok (s\<lparr>kmem_mem := put32 m v (kmem_freelist s), kmem_freelist := v\<rparr>))"

definition kalloc :: "'z kmem_state_scheme \<Rightarrow> nat \<times> 'z kmem_state_scheme" where
  "kalloc s =
     (let r = kmem_freelist s in
      (r, if r \<noteq> 0 then s\<lparr>kmem_freelist := get32 (kmem_mem s) r\<rparr> else s))"

text \<open>The loop of \<^verbatim>\<open>freerange\<close>; the pointer does not wrap around below \<open>vend\<close>.\<close>

function freerange_loop :: "nat \<Rightarrow> nat \<Rightarrow> 'z kmem_state_scheme \<Rightarrow> 'z kmem_state_scheme res" where
  "freerange_loop p vend s =
     (if p + PGSIZE \<le> vend then rbind (kfree p s) (freerange_loop (p + PGSIZE) vend) else Ok s)"
  by auto
termination
  by (relation "measure (\<lambda>(p, vend, s). vend - p)") auto

declare freerange_loop.simps [simp del]

definition freerange :: "nat \<Rightarrow> nat \<Rightarrow> 'z kmem_state_scheme \<Rightarrow> 'z kmem_state_scheme res" where
  "freerange vstart vend s = freerange_loop (PGROUNDUP vstart) vend s"

definition kinit1 :: "nat \<Rightarrow> nat \<Rightarrow> 'z kmem_state_scheme \<Rightarrow> 'z kmem_state_scheme res" where
  "kinit1 vstart vend s = freerange vstart vend (s\<lparr>kmem_use_lock := False\<rparr>)"

definition kinit2 :: "nat \<Rightarrow> nat \<Rightarrow> 'z kmem_state_scheme \<Rightarrow> 'z kmem_state_scheme res" where
  "kinit2 vstart vend s = rbind (freerange vstart vend s) (\<lambda>s. Ok (s\<lparr>kmem_use_lock := True\<rparr>))"

section \<open>The free list as a list of pages\<close>

primrec flist :: "block \<Rightarrow> nat \<Rightarrow> nat list \<Rightarrow> bool" where
  "flist m p [] \<longleftrightarrow> p = 0"
| "flist m p (q # qs) \<longleftrightarrow> p = q \<and> flist m (get32 m q) qs"

definition page_ok :: "nat \<Rightarrow> nat \<Rightarrow> bool" where
  "page_ok e v \<longleftrightarrow> v mod PGSIZE = 0 \<and> e \<le> v \<and> KERNBASE \<le> v \<and> v < KERNBASE + PHYSTOP"

definition kmem_ok :: "'z kmem_state_scheme \<Rightarrow> nat list \<Rightarrow> bool" where
  "kmem_ok s ps \<longleftrightarrow> flist (kmem_mem s) (kmem_freelist s) ps \<and> distinct ps \<and> (\<forall>p \<in> set ps. page_ok (kmem_end s) p)"

lemma V2P_kernel: "KERNBASE \<le> v \<Longrightarrow> v < 4294967296 \<Longrightarrow> V2P v = v - KERNBASE"
proof -
  assume a: "KERNBASE \<le> v" "v < 4294967296"
  then have "v + 4294967296 - KERNBASE = (v - KERNBASE) + 4294967296" by linarith
  moreover have "(v - KERNBASE) mod 4294967296 = v - KERNBASE" using a by simp
  ultimately show ?thesis unfolding V2P_def by (simp only: mod_add_self2)
qed

lemma kfree_guard:
  assumes "v < 4294967296"
  shows "(v mod PGSIZE \<noteq> 0 \<or> v < e \<or> PHYSTOP \<le> V2P v) \<longleftrightarrow> \<not> page_ok e v"
proof (cases "KERNBASE \<le> v")
  case True
  then show ?thesis using V2P_kernel [OF True assms] by (auto simp: page_ok_def)
next
  case False
  then have "V2P v = v + KERNBASE" by (simp add: V2P_def)
  then show ?thesis using False by (simp add: page_ok_def)
qed

lemma flist_cong:
  "(\<And>q j. q \<in> set ps \<Longrightarrow> j < 4 \<Longrightarrow> m' (q + j) = m (q + j)) \<Longrightarrow> flist m' p ps = flist m p ps"
proof (induction ps arbitrary: p)
  case (Cons q qs)
  have "get32 m' q = get32 m q"
    using Cons.prems [of q 0] Cons.prems [of q 1] Cons.prems [of q 2] Cons.prems [of q 3]
    by (simp add: get32_def get16_def numeral_2_eq_2 numeral_3_eq_3)
  then show ?case using Cons by simp
qed simp

lemma kalloc_ok:
  assumes "kmem_ok s ps"
  shows "case ps of [] \<Rightarrow> kalloc s = (0, s)
     | p # qs \<Rightarrow> p \<noteq> 0 \<and> kalloc s = (p, s\<lparr>kmem_freelist := get32 (kmem_mem s) p\<rparr>) \<and> kmem_ok (snd (kalloc s)) qs"
proof (cases ps)
  case Nil
  then show ?thesis using assms by (simp add: kmem_ok_def kalloc_def)
next
  case (Cons p qs)
  then have "p \<noteq> 0" using assms by (auto simp: kmem_ok_def page_ok_def)
  then show ?thesis using Cons assms by (simp add: kmem_ok_def kalloc_def)
qed

lemma pages_apart:
  assumes "p mod PGSIZE = 0" "q mod PGSIZE = 0" "p \<noteq> q"
  shows "p + PGSIZE \<le> q \<or> q + PGSIZE \<le> p"
proof -
  obtain a b where "p = PGSIZE * a" "q = PGSIZE * b" using assms(1,2) by blast
  then show ?thesis using assms(3) by (cases "a < b") auto
qed

lemma kfree_ok:
  assumes "kmem_ok s ps" "page_ok (kmem_end s) v" "v \<notin> set ps"
  obtains t where "kfree v s = Ok t" "kmem_ok t (v # ps)" "kmem_end t = kmem_end s"
    "\<And>a. a < v \<or> v + PGSIZE \<le> a \<Longrightarrow> kmem_mem t a = kmem_mem s a"
    "\<And>a. v + 4 \<le> a \<Longrightarrow> a < v + PGSIZE \<Longrightarrow> kmem_mem t a = 1"
proof -
  have v: "v < 4294967296" "v mod PGSIZE = 0" using assms(2) by (simp_all add: page_ok_def)
  let ?m = "memset (kmem_mem s) v 1 PGSIZE"
  have m: "?m a = (if v \<le> a \<and> a < v + PGSIZE then 1 else kmem_mem s a)" for a
    by (simp add: memset_eq)
  let ?m' = "put32 ?m v (kmem_freelist s)" and ?t = "s\<lparr>kmem_mem := put32 ?m v (kmem_freelist s), kmem_freelist := v\<rparr>"
  have m': "?m' a = ?m a" if "a < v \<or> v + 4 \<le> a" for a
    using that by (auto simp: put32_def put16_def)
  have ok: "kfree v s = Ok ?t" using kfree_guard [OF v(1), of "kmem_end s"] assms(2) by (simp add: kfree_def Let_def)
  have fl: "kmem_freelist s < 4294967296" using assms(1) by (cases ps) (auto simp: kmem_ok_def page_ok_def)
  have "?m' (q + j) = kmem_mem s (q + j)" if "q \<in> set ps" "j < 4" for q j
  proof -
    have "q mod PGSIZE = 0" "q \<noteq> v" using that assms(1,3) by (auto simp: kmem_ok_def page_ok_def)
    then have "q + PGSIZE \<le> v \<or> v + PGSIZE \<le> q" by (intro pages_apart v(2))
    then show ?thesis using m' [of "q + j"] m [of "q + j"] that(2) by auto
  qed
  then have "flist ?m' (kmem_freelist s) ps" using assms(1) flist_cong [of ps ?m' "kmem_mem s"] by (simp add: kmem_ok_def)
  then have "kmem_ok ?t (v # ps)" using assms fl by (simp add: kmem_ok_def)
  then show thesis using ok m m' by (intro that [of ?t]) auto
qed

lemma kfree_ex:
  assumes "kmem_ok s ps" "page_ok (kmem_end s) v" "v \<notin> set ps"
  shows "\<exists>t. kfree v s = Ok t \<and> kmem_ok t (v # ps) \<and> kmem_end t = kmem_end s"
  using kfree_ok [OF assms] by metis

section \<open>Sequences of allocations and releases\<close>

text \<open>The allocator together with the set of pages that are handed out.\<close>

inductive kmem_step :: "kmem_state \<times> nat set \<Rightarrow> kmem_state \<times> nat set \<Rightarrow> bool" where
  alloc: "kalloc s = (p, t) \<Longrightarrow> p \<noteq> 0 \<Longrightarrow> kmem_step (s, A) (t, insert p A)"
| alloc_fails: "kalloc s = (0, t) \<Longrightarrow> kmem_step (s, A) (t, A)"
| free: "p \<in> A \<Longrightarrow> kfree p s = Ok t \<Longrightarrow> kmem_step (s, A) (t, A - {p})"

text \<open>The pages \<open>P\<close> of the machine are partitioned into free and allocated ones.\<close>

definition kmem_inv :: "nat set \<Rightarrow> kmem_state \<times> nat set \<Rightarrow> bool" where
  "kmem_inv P c \<longleftrightarrow> (\<exists>ps. kmem_ok (fst c) ps \<and> set ps \<inter> snd c = {} \<and> set ps \<union> snd c = P) \<and>
     (\<forall>p \<in> P. page_ok (kmem_end (fst c)) p)"

lemma kmem_inv_step: "kmem_step c d \<Longrightarrow> kmem_inv P c \<Longrightarrow> kmem_inv P d"
proof (induction rule: kmem_step.induct)
  case (alloc s p t A)
  note c = alloc(3,1,2)
  from c obtain ps where ps: "kmem_ok s ps" "set ps \<inter> A = {}" "set ps \<union> A = P" by (auto simp: kmem_inv_def)
  obtain qs where q: "ps = p # qs" "kmem_ok t qs" using kalloc_ok [OF ps(1)] c(2,3) by (cases ps) auto
  have "kmem_end t = kmem_end s" using c(2) by (auto simp: kalloc_def Let_def split: if_splits)
  moreover have "distinct ps" using ps(1) by (simp add: kmem_ok_def)
  ultimately show ?case using c ps q by (auto simp: kmem_inv_def intro!: exI [of _ qs])
next
  case (alloc_fails s t A)
  then have "t = s" by (auto simp: kalloc_def Let_def split: if_splits)
  then show ?case using alloc_fails by simp
next
  case (free p A s t)
  note c = free(3,1,2)
  from c obtain ps where ps: "kmem_ok s ps" "set ps \<inter> A = {}" "set ps \<union> A = P" by (auto simp: kmem_inv_def)
  have "page_ok (kmem_end s) p" "p \<notin> set ps" using c ps by (auto simp: kmem_inv_def)
  from kfree_ex [OF ps(1) this] c(3) have "kmem_ok t (p # ps)" "kmem_end t = kmem_end s" by auto
  then show ?case using c ps by (auto simp: kmem_inv_def intro!: exI [of _ "p # ps"])
qed

lemma kmem_inv_steps: "kmem_step\<^sup>*\<^sup>* c d \<Longrightarrow> kmem_inv P c \<Longrightarrow> kmem_inv P d"
  by (induction rule: rtranclp_induct) (simp, rule kmem_inv_step)

text \<open>
  \<^bold>\<open>C20\<close>. Whatever sequence of \<^verbatim>\<open>kalloc\<close> and \<^verbatim>\<open>kfree\<close> calls (each release of a page that is handed
  out), the linked list in the free pages represents distinct pages; the pages of the machine are at every moment partitioned
  into the free list and the pages handed out, so no page is handed out twice; releasing a page that is
  handed out never panics; and \<^verbatim>\<open>kalloc\<close> returns 0 exactly when every page is handed out.
\<close>

theorem kalloc_partition:
  assumes "kmem_inv P c" "kmem_step\<^sup>*\<^sup>* c (s, A)"
  shows "\<exists>ps. flist (kmem_mem s) (kmem_freelist s) ps \<and> distinct ps \<and> set ps \<inter> A = {} \<and> set ps \<union> A = P \<and>
     (\<forall>p \<in> A. \<exists>t. kfree p s = Ok t) \<and> (fst (kalloc s) = 0 \<longleftrightarrow> A = P)"
proof -
  have "kmem_inv P (s, A)" by (rule kmem_inv_steps [OF assms(2,1)])
  then obtain ps where ps: "kmem_ok s ps" "set ps \<inter> A = {}" "set ps \<union> A = P" "\<forall>p \<in> P. page_ok (kmem_end s) p"
    by (auto simp: kmem_inv_def)
  have "\<exists>t. kfree p s = Ok t" if "p \<in> A" for p
  proof -
    have "page_ok (kmem_end s) p" "p \<notin> set ps" using that ps(2-4) by auto
    from kfree_ex [OF ps(1) this] show ?thesis by blast
  qed
  moreover have "fst (kalloc s) = 0 \<longleftrightarrow> A = P"
    using kalloc_ok [OF ps(1)] ps(2,3) by (cases ps) auto
  ultimately show ?thesis using ps by (auto simp: kmem_ok_def intro!: exI [of _ ps])
qed

text \<open>Two pages, put on the free list by \<^verbatim>\<open>kinit1\<close>.\<close>

definition kmem0 :: kmem_state where
  "kmem0 = \<lparr>kmem_use_lock = True, kmem_freelist = 0, kmem_mem = (\<lambda>_. 0), kmem_end = KERNBASE\<rparr>"

theorem kalloc_partition_witness:
  "\<exists>s ps. kinit1 KERNBASE (KERNBASE + 8192) kmem0 = Ok s \<and> flist (kmem_mem s) (kmem_freelist s) ps \<and>
     set ps = {KERNBASE, KERNBASE + 4096}"
proof -
  let ?p = "KERNBASE" let ?q = "KERNBASE + 4096" let ?s = "kmem0\<lparr>kmem_use_lock := False\<rparr>"
  have ok0: "kmem_ok ?s []" by (simp add: kmem_ok_def kmem0_def)
  have pg: "page_ok (kmem_end ?s) ?p" "page_ok (kmem_end ?s) ?q" by (simp_all add: page_ok_def kmem0_def)
  obtain t where t: "kfree ?p ?s = Ok t" "kmem_ok t [?p]" "kmem_end t = kmem_end ?s"
    using kfree_ex [OF ok0 pg(1)] by auto
  obtain u where u: "kfree ?q t = Ok u" "kmem_ok u [?q, ?p]" "kmem_end u = kmem_end ?s"
    using kfree_ex [OF t(2), of ?q] t(3) pg(2) by auto
  have "PGROUNDUP KERNBASE = KERNBASE" by (simp add: PGROUNDUP_def)
  then have init: "kinit1 ?p (?p + 8192) kmem0 = Ok u"
    using t(1) u(1) by (simp add: kinit1_def freerange_def freerange_loop.simps)
  have "kmem_inv {?p, ?q} (u, {})" using u(2,3) pg by (auto simp: kmem_inv_def intro!: exI [of _ "[?q, ?p]"])
  from kalloc_partition [OF this rtranclp.rtrancl_refl] init show ?thesis by auto
qed

end
