(* ===== verification/File.thy ===== *)
theory File
  imports Version Pipe Kalloc
begin

text \<open>
  Open files: the file table of file.c (\<^verbatim>\<open>filealloc\<close>, \<^verbatim>\<open>filedup\<close>, \<^verbatim>\<open>fileclose\<close>, \<^verbatim>\<open>filestat\<close>,
  \<^verbatim>\<open>fileread\<close>, \<^verbatim>\<open>filewrite\<close>) and the part of pipe.c that uses it (\<^verbatim>\<open>pipealloc\<close>, \<^verbatim>\<open>pipeclose\<close>,
  \<^verbatim>\<open>pipewrite\<close>, \<^verbatim>\<open>piperead\<close>). A \<^verbatim>\<open>struct file *\<close> is an index of the table; a \<^verbatim>\<open>struct pipe *\<close> is
  the address of its page. The state is that of the process in the kernel; a call that has to wait for another process
  is \<open>Sleeps\<close>.
\<close>

datatype fd_type = FD_NONE | FD_PIPE | FD_INODE

record fstruct =
  f_type :: fd_type
  f_ref :: int
  f_readable :: bool
  f_writable :: bool
  f_pipe :: nat
  f_ip :: nat
  f_off :: nat

record file_state = ver_state +
  ftable :: "fstruct list"
  pipes :: "nat \<Rightarrow> pipe"
  kmem :: kmem_state
  ofile :: "nat option list"
  proc_sz :: nat
  umem :: block
  tf_esp :: nat

abbreviation (input) NFILE :: nat where "NFILE \<equiv> 100"
abbreviation (input) NOFILE :: nat where "NOFILE \<equiv> 16"

definition set_file :: "nat \<Rightarrow> (fstruct \<Rightarrow> fstruct) \<Rightarrow> 'z file_state_scheme \<Rightarrow> 'z file_state_scheme" where
  "set_file f g s = s\<lparr>ftable := (ftable s)[f := g (ftable s ! f)]\<rparr>"

section \<open>The file table\<close>

definition filealloc :: "'z file_state_scheme \<Rightarrow> nat option \<times> 'z file_state_scheme" where
  "filealloc s =
     (case first_idx (\<lambda>f. f_ref f = 0) (ftable s) of
        None \<Rightarrow> (None, s)
      | Some i \<Rightarrow> (Some i, set_file i (\<lambda>f. f\<lparr>f_ref := 1\<rparr>) s))"

definition filedup :: "nat \<Rightarrow> 'z file_state_scheme \<Rightarrow> 'z file_state_scheme res" where
  "filedup f s =
     (if f_ref (ftable s ! f) < 1 then Panic ''filedup''
      else Ok (set_file f (\<lambda>x. x\<lparr>f_ref := f_ref x + 1\<rparr>) s))"

definition pipeclose :: "nat \<Rightarrow> bool \<Rightarrow> 'z file_state_scheme \<Rightarrow> 'z file_state_scheme res" where
  "pipeclose p writable s =
     (let q = pipes s p; q = (if writable then q\<lparr>writeopen := False\<rparr> else q\<lparr>readopen := False\<rparr>);
          s = s\<lparr>pipes := (pipes s)(p := q)\<rparr> in
      if \<not> readopen q \<and> \<not> writeopen q
      then rbind (kfree p (kmem s)) (\<lambda>k. Ok (s\<lparr>kmem := k\<rparr>))
      else Ok s)"

definition fileclose :: "nat \<Rightarrow> 'z file_state_scheme \<Rightarrow> 'z file_state_scheme res" where
  "fileclose f s =
     (if f_ref (ftable s ! f) < 1 then Panic ''fileclose''
      else
        let s = set_file f (\<lambda>x. x\<lparr>f_ref := f_ref x - 1\<rparr>) s in
        if 0 < f_ref (ftable s ! f) then Ok s
        else
          let ff = ftable s ! f;
              s = set_file f (\<lambda>x. x\<lparr>f_ref := 0, f_type := FD_NONE\<rparr>) s in
          if f_type ff = FD_PIPE then pipeclose (f_pipe ff) (f_writable ff) s
          else if f_type ff = FD_INODE then
            rbind (begin_op s) (\<lambda>s.
            rbind (iput (f_ip ff) s) (\<lambda>s.
            end_op s))
          else Ok s)"

definition filestat :: "nat \<Rightarrow> 'z file_state_scheme \<Rightarrow> (stat option \<times> 'z file_state_scheme) res" where
  "filestat f s =
     (let x = ftable s ! f in
      if f_type x = FD_INODE then
        rbind (ilock (f_ip x) s) (\<lambda>s.
        let st = stati (f_ip x) s in
        rbind (iunlock (f_ip x) s) (\<lambda>s. Ok (Some st, s)))
      else Ok (None, s))"

section \<open>Pipes\<close>

text \<open>
  One call seen from its process: it returns or sleeps. The wakeups it makes matter to the others, and are
  followed by the step relation of the theory Pipe.
\<close>

definition pipewrite :: "nat \<Rightarrow> block \<Rightarrow> int \<Rightarrow> 'z file_state_scheme \<Rightarrow> (int \<times> 'z file_state_scheme) res" where
  "pipewrite p addr n s =
     (case pipewrite_from (killed s) addr (nat n) 0 (pipes s p) of
        (Wait c i, ws, q) \<Rightarrow> Sleeps ''pipewrite''
      | (Done r, ws, q) \<Rightarrow> Ok (if r < 0 then r else n, s\<lparr>pipes := (pipes s)(p := q)\<rparr>))"

definition piperead :: "nat \<Rightarrow> int \<Rightarrow> 'z file_state_scheme \<Rightarrow> (int \<times> byte list \<times> 'z file_state_scheme) res" where
  "piperead p n s =
     (case piperead_run (killed s) (nat n) (pipes s p) of
        (Wait c i, ws, q) \<Rightarrow> Sleeps ''piperead''
      | (Done (r, cs), ws, q) \<Rightarrow> Ok (r, cs, s\<lparr>pipes := (pipes s)(p := q)\<rparr>))"

text \<open>The label \<^verbatim>\<open>bad\<close> of \<^verbatim>\<open>pipealloc\<close>, before a page has been allocated.\<close>

definition pipealloc_bad :: "nat option \<Rightarrow> nat option \<Rightarrow> 'z file_state_scheme \<Rightarrow> ((nat \<times> nat) option \<times> 'z file_state_scheme) res" where
  "pipealloc_bad f0 f1 s =
     rbind (case f0 of None \<Rightarrow> Ok s | Some f \<Rightarrow> fileclose f s) (\<lambda>s.
     rbind (case f1 of None \<Rightarrow> Ok s | Some f \<Rightarrow> fileclose f s) (\<lambda>s.
     Ok (None, s)))"

definition pipealloc :: "'z file_state_scheme \<Rightarrow> ((nat \<times> nat) option \<times> 'z file_state_scheme) res" where
  "pipealloc s =
     (case filealloc s of
        (None, s) \<Rightarrow> pipealloc_bad None None s
      | (Some f0, s) \<Rightarrow>
          (case filealloc s of
             (None, s) \<Rightarrow> pipealloc_bad (Some f0) None s
           | (Some f1, s) \<Rightarrow>
               (case kalloc (kmem s) of (p, k) \<Rightarrow>
                  let s = s\<lparr>kmem := k\<rparr> in
                  if p = 0 then pipealloc_bad (Some f0) (Some f1) s
                  else
                    let s = s\<lparr>pipes := (pipes s)(p := (pipes s p)\<lparr>readopen := True, writeopen := True, nwrite := 0, nread := 0\<rparr>)\<rparr>;
                        s = set_file f0 (\<lambda>f. f\<lparr>f_type := FD_PIPE, f_readable := True, f_writable := False, f_pipe := p\<rparr>) s;
                        s = set_file f1 (\<lambda>f. f\<lparr>f_type := FD_PIPE, f_readable := False, f_writable := True, f_pipe := p\<rparr>) s in
                    Ok (Some (f0, f1), s))))"

section \<open>Reading and writing\<close>

definition fileread :: "nat \<Rightarrow> int \<Rightarrow> 'z file_state_scheme \<Rightarrow> (int \<times> byte list \<times> 'z file_state_scheme) res" where
  "fileread f n s =
     (let x = ftable s ! f in
      if \<not> f_readable x then Ok (-1, [], s)
      else if f_type x = FD_PIPE then piperead (f_pipe x) n s
      else if f_type x = FD_INODE then
        rbind (ilock (f_ip x) s) (\<lambda>s.
        rbind (readi (f_ip x) (f_off x) (nat (n mod 4294967296)) s) (\<lambda>(r, bs, s).
        let s = (if 0 < r then set_file f (\<lambda>x. x\<lparr>f_off := (f_off x + nat r) mod 4294967296\<rparr>) s else s) in
        rbind (iunlock (f_ip x) s) (\<lambda>s.
        Ok (r, bs, s))))
      else Panic ''fileread'')"

text \<open>
  The largest number of bytes \<^verbatim>\<open>filewrite\<close> passes to one call of \<^verbatim>\<open>writei\<close>, so that a call stays
  within its share of the log.
\<close>

definition filewrite_max :: int where
  "filewrite_max = ((int MAXOPBLOCKS - 1 - 1 - 2) div 2) * 512"

function filewrite_loop :: "nat \<Rightarrow> block \<Rightarrow> int \<Rightarrow> int \<Rightarrow> 'z file_state_scheme \<Rightarrow> (int \<times> 'z file_state_scheme) res" where
  "filewrite_loop f addr i n s =
     (if i < n then
        let n1 = n - i; n1 = (if n1 > filewrite_max then filewrite_max else n1) in
        rbind (begin_op s) (\<lambda>s.
        let ip = f_ip (ftable s ! f) in
        rbind (ilock ip s) (\<lambda>s.
        rbind (writei ip (\<lambda>k. addr (nat i + k)) (f_off (ftable s ! f)) (nat n1) s) (\<lambda>(r, s).
        let s = (if 0 < r then set_file f (\<lambda>x. x\<lparr>f_off := (f_off x + nat r) mod 4294967296\<rparr>) s else s) in
        rbind (iunlock ip s) (\<lambda>s.
        rbind (end_op s) (\<lambda>s.
        if r < 0 then Ok (i, s)
        else if r \<noteq> n1 then Panic ''short filewrite''
        else filewrite_loop f addr (i + r) n s)))))
      else Ok (i, s))"
  by auto
termination
  by (relation "measure (\<lambda>(f, addr, i, n, s). nat (n - i))") (auto simp: filewrite_max_def)

declare filewrite_loop.simps [simp del]

definition filewrite :: "nat \<Rightarrow> block \<Rightarrow> int \<Rightarrow> 'z file_state_scheme \<Rightarrow> (int \<times> 'z file_state_scheme) res" where
  "filewrite f addr n s =
     (let x = ftable s ! f in
      if \<not> f_writable x then Ok (-1, s)
      else if f_type x = FD_PIPE then pipewrite (f_pipe x) addr n s
      else if f_type x = FD_INODE then
        rbind (filewrite_loop f addr 0 n s) (\<lambda>(i, s). Ok (if i = n then n else -1, s))
      else Panic ''filewrite'')"

end
