(* ===== verification/Args.thy ===== *)
theory Args
  imports File
begin

text \<open>
  Fetching the arguments of a system call from the memory of the process (syscall.c). An \<open>option\<close> is the
  error return: None is -1. The user memory is a byte array indexed by virtual addresses, of which the process
  owns those below \<^verbatim>\<open>sz\<close>; all address arithmetic is modulo \<open>2 ^ 32\<close>.
\<close>

definition fetchint :: "nat \<Rightarrow> 'z file_state_scheme \<Rightarrow> int option" where
  "fetchint addr s =
     (if proc_sz s \<le> addr \<or> proc_sz s < (addr + 4) mod 4294967296 then None
      else Some (to_int32 (get32 (umem s) addr)))"

text \<open>The scan for the zero byte: the length of the string.\<close>

function fetchstr_loop :: "nat \<Rightarrow> nat \<Rightarrow> nat \<Rightarrow> block \<Rightarrow> nat option" where
  "fetchstr_loop p start ep m =
     (if p < ep then if m p = 0 then Some (p - start) else fetchstr_loop (Suc p) start ep m else None)"
  by auto
termination
  by (relation "measure (\<lambda>(p, start, ep, m). ep - p)") auto

declare fetchstr_loop.simps [simp del]

text \<open>The pointer stored in \<^verbatim>\<open>*pp\<close> and the length that is returned.\<close>

definition fetchstr :: "nat \<Rightarrow> 'z file_state_scheme \<Rightarrow> (nat \<times> nat) option" where
  "fetchstr addr s =
     (if proc_sz s \<le> addr then None
      else map_option (\<lambda>n. (addr, n)) (fetchstr_loop addr addr (proc_sz s) (umem s)))"

definition argint :: "nat \<Rightarrow> 'z file_state_scheme \<Rightarrow> int option" where
  "argint n s = fetchint ((tf_esp s + 4 + 4 * n) mod 4294967296) s"

definition argptr :: "nat \<Rightarrow> int \<Rightarrow> 'z file_state_scheme \<Rightarrow> nat option" where
  "argptr n siz s =
     (case argint n s of
        None \<Rightarrow> None
      | Some i \<Rightarrow>
          let a = nat (i mod 4294967296) in
          if siz < 0 \<or> proc_sz s \<le> a \<or> proc_sz s < (a + nat siz) mod 4294967296 then None else Some a)"

definition argstr :: "nat \<Rightarrow> 'z file_state_scheme \<Rightarrow> (nat \<times> nat) option" where
  "argstr n s =
     (case argint n s of None \<Rightarrow> None | Some addr \<Rightarrow> fetchstr (nat (addr mod 4294967296)) s)"

text \<open>The bytes of a string in user memory.\<close>

definition ustr :: "nat \<times> nat \<Rightarrow> 'z file_state_scheme \<Rightarrow> byte list" where
  "ustr p s = map (\<lambda>k. umem s (fst p + k)) [0..<snd p]"

definition uptr :: "nat \<Rightarrow> 'z file_state_scheme \<Rightarrow> block" where
  "uptr a s = (\<lambda>k. umem s (a + k))"

definition argfd :: "nat \<Rightarrow> 'z file_state_scheme \<Rightarrow> (nat \<times> nat) option" where
  "argfd n s =
     (case argint n s of
        None \<Rightarrow> None
      | Some fd \<Rightarrow>
          if fd < 0 \<or> int NOFILE \<le> fd then None
          else map_option (\<lambda>f. (nat fd, f)) (ofile s ! nat fd))"

definition fdalloc :: "nat \<Rightarrow> 'z file_state_scheme \<Rightarrow> nat option \<times> 'z file_state_scheme" where
  "fdalloc f s =
     (case first_idx (\<lambda>x. x = None) (ofile s) of
        None \<Rightarrow> (None, s)
      | Some fd \<Rightarrow> (Some fd, s\<lparr>ofile := (ofile s)[fd := Some f]\<rparr>))"

section \<open>No access outside the memory of the process\<close>

lemma fetchstr_loop_Some:
  "fetchstr_loop p start ep m = Some n \<Longrightarrow> start \<le> p \<Longrightarrow>
   p \<le> start + n \<and> start + n < ep \<and> m (start + n) = 0 \<and> (\<forall>q. p \<le> q \<and> q < start + n \<longrightarrow> m q \<noteq> 0)"
proof (induction p start ep m rule: fetchstr_loop.induct)
  case (1 p start ep m)
  show ?case
  proof (cases "p < ep \<and> m p \<noteq> 0")
    case True
    then have "fetchstr_loop (Suc p) start ep m = Some n" using "1.prems"(1) by (subst (asm) fetchstr_loop.simps) simp
    with "1.IH" True "1.prems"(2) show ?thesis by (auto simp: le_eq_less_or_eq [of p] Suc_le_eq)
  next
    case False
    then show ?thesis
      using "1.prems" fetchstr_loop.simps [of p start ep m] by (cases "p < ep") auto
  qed
qed

lemma fetchstr_loop_None:
  "fetchstr_loop p start ep m = None \<longleftrightarrow> (\<forall>q. p \<le> q \<and> q < ep \<longrightarrow> m q \<noteq> 0)"
proof (induction p start ep m rule: fetchstr_loop.induct)
  case (1 p start ep m)
  show ?case
  proof (cases "p < ep \<and> m p \<noteq> 0")
    case True
    then show ?thesis using 1 by (subst fetchstr_loop.simps) (auto simp: le_eq_less_or_eq [of p] Suc_le_eq)
  next
    case False
    then show ?thesis by (subst fetchstr_loop.simps) auto
  qed
qed

lemma to_int32_mod: "x < 4294967296 \<Longrightarrow> nat (to_int32 x mod 4294967296) = x"
proof -
  assume "x < 4294967296"
  then show ?thesis
    by (cases "x < 2147483648") (simp_all add: to_int32_def mod_diff_eq [symmetric])
qed

text \<open>
  \<^bold>\<open>C21\<close>. What the kernel fetches lies within the process: with \<^verbatim>\<open>sz\<close> at most \<^verbatim>\<open>KERNBASE\<close> and any stack
  pointer and argument values, an integer argument is read from four bytes below \<^verbatim>\<open>sz\<close>; a pointer argument that is
  accepted for \<open>siz\<close> bytes has all of them below \<^verbatim>\<open>sz\<close> (no wrap-around passes the check), and it is accepted
  whenever they are; a string argument ends with its first zero byte below \<^verbatim>\<open>sz\<close>, and is rejected only
  if there is none.
\<close>

theorem args_in_bounds:
  assumes "proc_sz s \<le> KERNBASE"
  shows "(fetchint a s = None \<longleftrightarrow> \<not> a + 4 \<le> proc_sz s) \<and>
     (0 \<le> siz \<and> siz < 2147483648 \<longrightarrow>
        argptr n siz s = (case argint n s of None \<Rightarrow> None
          | Some v \<Rightarrow> let p = nat (v mod 4294967296) in if p < proc_sz s \<and> p + nat siz \<le> proc_sz s then Some p else None)) \<and>
     (case fetchstr a s of
        None \<Rightarrow> (\<forall>q. a \<le> q \<and> q < proc_sz s \<longrightarrow> umem s q \<noteq> 0)
      | Some (p, len) \<Rightarrow> p = a \<and> a + len < proc_sz s \<and> umem s (a + len) = 0 \<and> 0 \<notin> set (ustr (p, len) s))"
proof (intro conjI impI)
  show "fetchint a s = None \<longleftrightarrow> \<not> a + 4 \<le> proc_sz s"
  proof (cases "a < proc_sz s")
    case True
    then have "(a + 4) mod 4294967296 = a + 4" using assms by simp
    then show ?thesis using True by (auto simp: fetchint_def)
  qed (simp add: fetchint_def)
next
  assume siz: "0 \<le> siz \<and> siz < 2147483648"
  have "(p + nat siz) mod 4294967296 = p + nat siz" if "p < proc_sz s" for p
  proof -
    have "nat siz < 2147483648" using siz by linarith
    then have "p + nat siz < 4294967296" using that assms by linarith
    then show ?thesis by simp
  qed
  then show "argptr n siz s = (case argint n s of None \<Rightarrow> None
      | Some v \<Rightarrow> let p = nat (v mod 4294967296) in if p < proc_sz s \<and> p + nat siz \<le> proc_sz s then Some p else None)"
    using siz by (auto simp: argptr_def Let_def not_le not_less split: option.splits)
next
  show "case fetchstr a s of
        None \<Rightarrow> (\<forall>q. a \<le> q \<and> q < proc_sz s \<longrightarrow> umem s q \<noteq> 0)
      | Some (p, len) \<Rightarrow> p = a \<and> a + len < proc_sz s \<and> umem s (a + len) = 0 \<and> 0 \<notin> set (ustr (p, len) s)"
  proof (cases "fetchstr_loop a a (proc_sz s) (umem s)")
    case None
    then show ?thesis using fetchstr_loop_None [of a a "proc_sz s" "umem s"] by (simp add: fetchstr_def)
  next
    case (Some len)
    from fetchstr_loop_Some [OF this order_refl] show ?thesis
      using Some by (auto simp: fetchstr_def ustr_def)
  qed
qed

definition boot_file_state :: file_state where
  "boot_file_state = ver_state.extend boot_ver
     \<lparr>ftable = replicate NFILE \<lparr>f_type = FD_NONE, f_ref = 0, f_readable = False, f_writable = False, f_pipe = 0, f_ip = 0, f_off = 0\<rparr>,
      pipes = (\<lambda>_. pipe0), kmem = kmem0, ofile = replicate NOFILE None, proc_sz = 4096, umem = (\<lambda>_. 0), tf_esp = 4000\<rparr>"

theorem args_in_bounds_witness: "proc_sz boot_file_state \<le> KERNBASE \<and> fetchint 4093 boot_file_state = None"
  using args_in_bounds [of boot_file_state 4093] by (simp add: boot_file_state_def ver_state.defs)

end
