(* ===== verification/SysFile.thy ===== *)
theory SysFile
  imports Args
begin

unbundle bit_operations_syntax

text \<open>
  The file system calls (sysfile.c). Each \<^verbatim>\<open>sys_\<close> function returns the value it leaves in \<^verbatim>\<open>eax\<close> and the
  new state. Bytes that a call stores through a user pointer go to the user memory. A local array
  \<^verbatim>\<open>name[DIRSIZ]\<close> starts as zeros.
\<close>

definition ustore :: "nat \<Rightarrow> byte list \<Rightarrow> 'z file_state_scheme \<Rightarrow> 'z file_state_scheme" where
  "ustore a bs s = s\<lparr>umem := blit (umem s) a (\<lambda>k. bs ! k) (length bs)\<rparr>"

section \<open>Descriptors\<close>

definition sys_dup :: "'z file_state_scheme \<Rightarrow> (int \<times> 'z file_state_scheme) res" where
  "sys_dup s =
     (case argfd 0 s of
        None \<Rightarrow> Ok (-1, s)
      | Some (_, f) \<Rightarrow>
          (case fdalloc f s of
             (None, s) \<Rightarrow> Ok (-1, s)
           | (Some fd, s) \<Rightarrow> rbind (filedup f s) (\<lambda>s. Ok (int fd, s))))"

definition sys_read :: "'z file_state_scheme \<Rightarrow> (int \<times> 'z file_state_scheme) res" where
  "sys_read s =
     (case argfd 0 s of
        None \<Rightarrow> Ok (-1, s)
      | Some (_, f) \<Rightarrow>
          (case argint 2 s of
             None \<Rightarrow> Ok (-1, s)
           | Some n \<Rightarrow>
               (case argptr 1 n s of
                  None \<Rightarrow> Ok (-1, s)
                | Some p \<Rightarrow> rbind (fileread f n s) (\<lambda>(r, bs, s). Ok (r, ustore p bs s)))))"

definition sys_write :: "'z file_state_scheme \<Rightarrow> (int \<times> 'z file_state_scheme) res" where
  "sys_write s =
     (case argfd 0 s of
        None \<Rightarrow> Ok (-1, s)
      | Some (_, f) \<Rightarrow>
          (case argint 2 s of
             None \<Rightarrow> Ok (-1, s)
           | Some n \<Rightarrow>
               (case argptr 1 n s of
                  None \<Rightarrow> Ok (-1, s)
                | Some p \<Rightarrow> filewrite f (uptr p s) n s)))"

definition sys_close :: "'z file_state_scheme \<Rightarrow> (int \<times> 'z file_state_scheme) res" where
  "sys_close s =
     (case argfd 0 s of
        None \<Rightarrow> Ok (-1, s)
      | Some (fd, f) \<Rightarrow> rbind (fileclose f (s\<lparr>ofile := (ofile s)[fd := None]\<rparr>)) (\<lambda>s. Ok (0, s)))"

text \<open>The layout of \<^verbatim>\<open>struct stat\<close>: type, dev, ino, nlink, size.\<close>

definition put_stat :: "block \<Rightarrow> nat \<Rightarrow> stat \<Rightarrow> block" where
  "put_stat m p st =
     (let m = put16 m p (of_short (st_type st));
          m = put32 m (p + 4) (st_dev st);
          m = put32 m (p + 8) (st_ino st);
          m = put16 m (p + 12) (of_short (st_nlink st)) in
      put32 m (p + 16) (st_size st))"

definition sys_fstat :: "'z file_state_scheme \<Rightarrow> (int \<times> 'z file_state_scheme) res" where
  "sys_fstat s =
     (case argfd 0 s of
        None \<Rightarrow> Ok (-1, s)
      | Some (_, f) \<Rightarrow>
          (case argptr 1 20 s of
             None \<Rightarrow> Ok (-1, s)
           | Some p \<Rightarrow>
               rbind (filestat f s) (\<lambda>(st, s).
               case st of None \<Rightarrow> Ok (-1, s) | Some st \<Rightarrow> Ok (0, s\<lparr>umem := put_stat (umem s) p st\<rparr>))))"

section \<open>Links\<close>

text \<open>Link counts are 16-bit numbers.\<close>

definition short_add :: "int \<Rightarrow> int \<Rightarrow> int" where
  "short_add x d = to_short (nat ((x + d) mod 65536))"

definition sys_link_bad :: "nat \<Rightarrow> 'z file_state_scheme \<Rightarrow> (int \<times> 'z file_state_scheme) res" where
  "sys_link_bad ip s =
     rbind (ilock ip s) (\<lambda>s.
     rbind (iupdate ip (set_ino ip (\<lambda>i. i\<lparr>i_nlink := short_add (i_nlink i) (-1)\<rparr>) s)) (\<lambda>s.
     rbind (iunlockput ip s) (\<lambda>s.
     rbind (end_op s) (\<lambda>s.
     Ok (-1, s)))))"

definition sys_link :: "'z file_state_scheme \<Rightarrow> (int \<times> 'z file_state_scheme) res" where
  "sys_link s =
     (case (argstr 0 s, argstr 1 s) of
        (Some old, Some new) \<Rightarrow>
          rbind (begin_op s) (\<lambda>s.
          rbind (namei (ustr old s) s) (\<lambda>(r, s).
          case r of
            None \<Rightarrow> rbind (end_op s) (\<lambda>s. Ok (-1, s))
          | Some ip \<Rightarrow>
              rbind (ilock ip s) (\<lambda>s.
              if i_type (icache s ! ip) = T_DIR then
                rbind (iunlockput ip s) (\<lambda>s. rbind (end_op s) (\<lambda>s. Ok (-1, s)))
              else
                rbind (iupdate ip (set_ino ip (\<lambda>i. i\<lparr>i_nlink := short_add (i_nlink i) 1\<rparr>) s)) (\<lambda>s.
                rbind (iunlock ip s) (\<lambda>s.
                rbind (nameiparent (ustr new s) (\<lambda>_. 0) s) (\<lambda>(r, name, s).
                case r of
                  None \<Rightarrow> sys_link_bad ip s
                | Some dp \<Rightarrow>
                    rbind (ilock dp s) (\<lambda>s.
                    rbind (if i_dev (icache s ! dp) \<noteq> i_dev (icache s ! ip) then Ok (-1, s)
                           else dirlink dp name (i_inum (icache s ! ip)) s) (\<lambda>(r, s).
                    if r < 0 then rbind (iunlockput dp s) (sys_link_bad ip)
                    else
                      rbind (iunlockput dp s) (\<lambda>s.
                      rbind (iput ip s) (\<lambda>s.
                      rbind (end_op s) (\<lambda>s.
                      Ok (0, s))))))))))))
      | _ \<Rightarrow> Ok (-1, s))"

function isdirempty_loop :: "nat \<Rightarrow> nat \<Rightarrow> 'z dev_state_scheme \<Rightarrow> (bool \<times> 'z dev_state_scheme) res" where
  "isdirempty_loop dp off s =
     (if off < i_size (icache s ! dp) \<and> off < 4294967296 then
        rbind (readi dp off 16 s) (\<lambda>(n, bs, s).
        if n \<noteq> 16 then Panic ''isdirempty: readi''
        else if de_inum (get_dirent bs) \<noteq> 0 then Ok (False, s)
        else isdirempty_loop dp (off + 16) s)
      else Ok (True, s))"
  by auto
termination
  by (relation "measure (\<lambda>(dp, off, s). 4294967296 - off)") auto

declare isdirempty_loop.simps [simp del]

definition isdirempty :: "nat \<Rightarrow> 'z dev_state_scheme \<Rightarrow> (bool \<times> 'z dev_state_scheme) res" where
  "isdirempty dp s = isdirempty_loop dp 32 s"

definition sys_unlink_bad :: "nat \<Rightarrow> 'z file_state_scheme \<Rightarrow> (int \<times> 'z file_state_scheme) res" where
  "sys_unlink_bad dp s =
     rbind (iunlockput dp s) (\<lambda>s.
     rbind (end_op s) (\<lambda>s.
     Ok (-1, s)))"

text \<open>From \<^verbatim>\<open>memset(&de, ...)\<close> on: the entry at \<open>off\<close> is cleared and the link count reduced.\<close>

definition sys_unlink_entry :: "nat \<Rightarrow> nat \<Rightarrow> nat \<Rightarrow> 'z file_state_scheme \<Rightarrow> (int \<times> 'z file_state_scheme) res" where
  "sys_unlink_entry dp ip off s =
     rbind (writei dp (\<lambda>_. 0) off 16 s) (\<lambda>(n, s).
     if n \<noteq> 16 then Panic ''unlink: writei''
     else
       rbind (if i_type (icache s ! ip) = T_DIR
              then iupdate dp (set_ino dp (\<lambda>i. i\<lparr>i_nlink := short_add (i_nlink i) (-1)\<rparr>) s)
              else Ok s) (\<lambda>s.
       rbind (iunlockput dp s) (\<lambda>s.
       rbind (iupdate ip (set_ino ip (\<lambda>i. i\<lparr>i_nlink := short_add (i_nlink i) (-1)\<rparr>) s)) (\<lambda>s.
       rbind (iunlockput ip s) (\<lambda>s.
       rbind (end_op s) (\<lambda>s.
       Ok (0, s)))))))"

definition sys_unlink :: "'z file_state_scheme \<Rightarrow> (int \<times> 'z file_state_scheme) res" where
  "sys_unlink s =
     (case argstr 0 s of
        None \<Rightarrow> Ok (-1, s)
      | Some path \<Rightarrow>
          rbind (begin_op s) (\<lambda>s.
          rbind (nameiparent (ustr path s) (\<lambda>_. 0) s) (\<lambda>(r, name, s).
          case r of
            None \<Rightarrow> rbind (end_op s) (\<lambda>s. Ok (-1, s))
          | Some dp \<Rightarrow>
              rbind (ilock dp s) (\<lambda>s.
              if namecmp name (cstr (lit ''.'')) = 0 \<or> namecmp name (cstr (lit ''..'')) = 0 then sys_unlink_bad dp s
              else
                rbind (dirlookup dp name s) (\<lambda>(r, s).
                case r of
                  None \<Rightarrow> sys_unlink_bad dp s
                | Some (ip, off) \<Rightarrow>
                    rbind (ilock ip s) (\<lambda>s.
                    if i_nlink (icache s ! ip) < 1 then Panic ''unlink: nlink < 1''
                    else
                      rbind (if i_type (icache s ! ip) = T_DIR then isdirempty ip s else Ok (True, s)) (\<lambda>(e, s).
                      if \<not> e then rbind (iunlockput ip s) (sys_unlink_bad dp)
                      else
                        let i = icache s ! ip;
                            s = (if i_type i = T_FILE \<and> i_version_head i \<noteq> 0
                                 then add_deleted_file name (i_inum i) (i_version_head i) s else s) in
                        sys_unlink_entry dp ip off s)))))))"

section \<open>Creating and opening\<close>

definition create :: "byte list \<Rightarrow> int \<Rightarrow> int \<Rightarrow> int \<Rightarrow> 'z file_state_scheme \<Rightarrow> (nat option \<times> 'z file_state_scheme) res" where
  "create path type major minor s =
     rbind (nameiparent path (\<lambda>_. 0) s) (\<lambda>(r, name, s).
     case r of
       None \<Rightarrow> Ok (None, s)
     | Some dp \<Rightarrow>
         rbind (ilock dp s) (\<lambda>s.
         rbind (dirlookup dp name s) (\<lambda>(r, s).
         case r of
           Some (ip, _) \<Rightarrow>
             rbind (iunlockput dp s) (\<lambda>s.
             rbind (ilock ip s) (\<lambda>s.
             if type = T_FILE \<and> i_type (icache s ! ip) = T_FILE then Ok (Some ip, s)
             else rbind (iunlockput ip s) (\<lambda>s. Ok (None, s))))
         | None \<Rightarrow>
             rbind (ialloc (i_dev (icache s ! dp)) type s) (\<lambda>(ip, s).
             rbind (ilock ip s) (\<lambda>s.
             rbind (iupdate ip (set_ino ip (\<lambda>i. i\<lparr>i_major := major, i_minor := minor, i_nlink := 1\<rparr>) s)) (\<lambda>s.
             rbind (if type = T_DIR then
                      rbind (iupdate dp (set_ino dp (\<lambda>i. i\<lparr>i_nlink := short_add (i_nlink i) 1\<rparr>) s)) (\<lambda>s.
                      rbind (dirlink ip (cstr (lit ''.'')) (i_inum (icache s ! ip)) s) (\<lambda>(r, s).
                      if r < 0 then Panic ''create dots''
                      else
                        rbind (dirlink ip (cstr (lit ''..'')) (i_inum (icache s ! dp)) s) (\<lambda>(r, s).
                        if r < 0 then Panic ''create dots'' else Ok s)))
                    else Ok s) (\<lambda>s.
             rbind (dirlink dp name (i_inum (icache s ! ip)) s) (\<lambda>(r, s).
             if r < 0 then Panic ''create: dirlink''
             else rbind (iunlockput dp s) (\<lambda>s. Ok (Some ip, s))))))))))"

abbreviation (input) O_RDONLY :: int where "O_RDONLY \<equiv> 0"

text \<open>The flags of \<^verbatim>\<open>open\<close> are bits of the mode: \<^verbatim>\<open>O_WRONLY\<close> 0, \<^verbatim>\<open>O_RDWR\<close> 1, \<^verbatim>\<open>O_CREATE\<close> 9.\<close>

definition sys_open_file :: "nat \<Rightarrow> int \<Rightarrow> 'z file_state_scheme \<Rightarrow> (int \<times> 'z file_state_scheme) res" where
  "sys_open_file ip omode s =
     (case filealloc s of
        (None, s) \<Rightarrow> rbind (iunlockput ip s) (\<lambda>s. rbind (end_op s) (\<lambda>s. Ok (-1, s)))
      | (Some f, s) \<Rightarrow>
          (case fdalloc f s of
             (None, s) \<Rightarrow>
               rbind (fileclose f s) (\<lambda>s.
               rbind (iunlockput ip s) (\<lambda>s.
               rbind (end_op s) (\<lambda>s.
               Ok (-1, s))))
           | (Some fd, s) \<Rightarrow>
               rbind (iunlock ip s) (\<lambda>s.
               rbind (end_op s) (\<lambda>s.
               Ok (int fd,
                   set_file f (\<lambda>x. x\<lparr>f_type := FD_INODE, f_ip := ip, f_off := 0, f_readable := \<not> bit omode 0,
                                     f_writable := (bit omode 0 \<or> bit omode 1)\<rparr>) s)))))"

definition sys_open :: "'z file_state_scheme \<Rightarrow> (int \<times> 'z file_state_scheme) res" where
  "sys_open s =
     (case (argstr 0 s, argint 1 s) of
        (Some path, Some omode) \<Rightarrow>
          rbind (begin_op s) (\<lambda>s.
          if bit omode 9 then
            rbind (create (ustr path s) T_FILE 0 0 s) (\<lambda>(r, s).
            case r of
              None \<Rightarrow> rbind (end_op s) (\<lambda>s. Ok (-1, s))
            | Some ip \<Rightarrow> sys_open_file ip omode s)
          else
            rbind (namei (ustr path s) s) (\<lambda>(r, s).
            case r of
              None \<Rightarrow> rbind (end_op s) (\<lambda>s. Ok (-1, s))
            | Some ip \<Rightarrow>
                rbind (ilock ip s) (\<lambda>s.
                if i_type (icache s ! ip) = T_DIR \<and> omode \<noteq> O_RDONLY then
                  rbind (iunlockput ip s) (\<lambda>s. rbind (end_op s) (\<lambda>s. Ok (-1, s)))
                else sys_open_file ip omode s)))
      | _ \<Rightarrow> Ok (-1, s))"

definition sys_mkdir :: "'z file_state_scheme \<Rightarrow> (int \<times> 'z file_state_scheme) res" where
  "sys_mkdir s =
     rbind (begin_op s) (\<lambda>s.
     rbind (case argstr 0 s of None \<Rightarrow> Ok (None, s) | Some path \<Rightarrow> create (ustr path s) T_DIR 0 0 s) (\<lambda>(r, s).
     case r of
       None \<Rightarrow> rbind (end_op s) (\<lambda>s. Ok (-1, s))
     | Some ip \<Rightarrow> rbind (iunlockput ip s) (\<lambda>s. rbind (end_op s) (\<lambda>s. Ok (0, s)))))"

definition sys_mknod :: "'z file_state_scheme \<Rightarrow> (int \<times> 'z file_state_scheme) res" where
  "sys_mknod s =
     rbind (begin_op s) (\<lambda>s.
     rbind (case (argstr 0 s, argint 1 s, argint 2 s) of
              (Some path, Some major, Some minor) \<Rightarrow>
                create (ustr path s) T_DEV (to_short (nat (major mod 65536))) (to_short (nat (minor mod 65536))) s
            | _ \<Rightarrow> Ok (None, s)) (\<lambda>(r, s).
     case r of
       None \<Rightarrow> rbind (end_op s) (\<lambda>s. Ok (-1, s))
     | Some ip \<Rightarrow> rbind (iunlockput ip s) (\<lambda>s. rbind (end_op s) (\<lambda>s. Ok (0, s)))))"

definition sys_chdir :: "'z file_state_scheme \<Rightarrow> (int \<times> 'z file_state_scheme) res" where
  "sys_chdir s =
     rbind (begin_op s) (\<lambda>s.
     rbind (case argstr 0 s of None \<Rightarrow> Ok (None, s) | Some path \<Rightarrow> namei (ustr path s) s) (\<lambda>(r, s).
     case r of
       None \<Rightarrow> rbind (end_op s) (\<lambda>s. Ok (-1, s))
     | Some ip \<Rightarrow>
         rbind (ilock ip s) (\<lambda>s.
         if i_type (icache s ! ip) \<noteq> T_DIR then
           rbind (iunlockput ip s) (\<lambda>s. rbind (end_op s) (\<lambda>s. Ok (-1, s)))
         else
           rbind (iunlock ip s) (\<lambda>s.
           rbind (iput (cwd s) s) (\<lambda>s.
           rbind (end_op s) (\<lambda>s.
           Ok (0, s\<lparr>cwd := ip\<rparr>)))))))"

definition sys_pipe :: "'z file_state_scheme \<Rightarrow> (int \<times> 'z file_state_scheme) res" where
  "sys_pipe s =
     (case argptr 0 8 s of
        None \<Rightarrow> Ok (-1, s)
      | Some p \<Rightarrow>
          rbind (pipealloc s) (\<lambda>(r, s).
          case r of
            None \<Rightarrow> Ok (-1, s)
          | Some (rfile, wfile) \<Rightarrow>
              (case fdalloc rfile s of
                 (None, s) \<Rightarrow>
                   rbind (fileclose rfile s) (\<lambda>s. rbind (fileclose wfile s) (\<lambda>s. Ok (-1, s)))
               | (Some fd0, s) \<Rightarrow>
                   (case fdalloc wfile s of
                      (None, s) \<Rightarrow>
                        let s = s\<lparr>ofile := (ofile s)[fd0 := None]\<rparr> in
                        rbind (fileclose rfile s) (\<lambda>s. rbind (fileclose wfile s) (\<lambda>s. Ok (-1, s)))
                    | (Some fd1, s) \<Rightarrow>
                        Ok (0, s\<lparr>umem := put32 (put32 (umem s) p fd0) (p + 4) fd1\<rparr>)))))"

section \<open>Versions, snapshots and recovery\<close>

definition sys_version_create :: "'z file_state_scheme \<Rightarrow> (int \<times> 'z file_state_scheme) res" where
  "sys_version_create s =
     (case (argstr 0 s, argstr 1 s) of
        (Some path, Some desc) \<Rightarrow>
          let len = snd desc in
          rbind (begin_op s) (\<lambda>s.
          rbind (namei (ustr path s) s) (\<lambda>(r, s).
          case r of
            None \<Rightarrow> rbind (end_op s) (\<lambda>s. Ok (-1, s))
          | Some ip \<Rightarrow>
              rbind (ilock ip s) (\<lambda>s.
              rbind (version_create ip (Some (uptr (fst desc) s)) len 0 s) (\<lambda>(vblock, s).
              rbind (iunlockput ip s) (\<lambda>s.
              rbind (end_op s) (\<lambda>s.
              Ok (if vblock = 0 then -1 else 0, s)))))))
      | _ \<Rightarrow> Ok (-1, s))"

text \<open>The layout of \<^verbatim>\<open>struct version_info\<close> (48 bytes).\<close>

definition put_version_info :: "block \<Rightarrow> nat \<Rightarrow> version_info \<Rightarrow> block" where
  "put_version_info m p v =
     blit (put32 (put32 (put32 (put32 m p (vi_version_num v)) (p + 4) (vi_timestamp v)) (p + 8) (vi_file_size v))
       (p + 12) (vi_block_count v)) (p + 16) (\<lambda>k. vi_description v ! k) 32"

fun put_version_infos :: "block \<Rightarrow> nat \<Rightarrow> version_info list \<Rightarrow> block" where
  "put_version_infos m p [] = m"
| "put_version_infos m p (v # vs) = put_version_infos (put_version_info m p v) (p + 48) vs"

text \<open>
  The buffer is checked for 0 bytes only: entries past the end of the process are written to memory that is
  not its own.
\<close>

definition sys_version_list :: "'z file_state_scheme \<Rightarrow> (int \<times> 'z file_state_scheme) res" where
  "sys_version_list s =
     (case (argstr 0 s, argptr 1 0 s, argint 2 s) of
        (Some path, Some buf, Some max_entries) \<Rightarrow>
          rbind (begin_op s) (\<lambda>s.
          rbind (namei (ustr path s) s) (\<lambda>(r, s).
          case r of
            None \<Rightarrow> rbind (end_op s) (\<lambda>s. Ok (-1, s))
          | Some ip \<Rightarrow>
              rbind (ilock ip s) (\<lambda>s.
              rbind (version_list ip max_entries s) (\<lambda>(count, vs, s).
              if proc_sz s < buf + 48 * length vs then Undef ''version_list: buffer''
              else
                let s = s\<lparr>umem := put_version_infos (umem s) buf vs\<rparr> in
                rbind (iunlockput ip s) (\<lambda>s.
                rbind (end_op s) (\<lambda>s.
                Ok (count, s)))))))
      | _ \<Rightarrow> Ok (-1, s))"

definition sys_snapshot_create :: "'z file_state_scheme \<Rightarrow> (int \<times> 'z file_state_scheme) res" where
  "sys_snapshot_create s =
     (case argstr 0 s of
        None \<Rightarrow> Ok (-1, s)
      | Some desc \<Rightarrow> snapshot_create (uptr (fst desc) s) (ustr desc s) s)"

definition sys_snapshot_restore :: "'z file_state_scheme \<Rightarrow> (int \<times> 'z file_state_scheme) res" where
  "sys_snapshot_restore s = Ok (-1, s)"

text \<open>
  One round of the copy loops of \<^verbatim>\<open>sys_recover_file\<close> and \<^verbatim>\<open>sys_version_restore\<close>: a new block with
  the contents of block \<open>k\<close> of the version becomes direct block \<open>k\<close> of the file; False if \<^verbatim>\<open>balloc\<close>
  returned 0. The two functions release the two buffers in different orders, which makes no difference to the state.
\<close>

definition restore_copy :: "nat \<Rightarrow> version_node \<Rightarrow> nat \<Rightarrow> 'z fs_state_scheme \<Rightarrow> (bool \<times> 'z fs_state_scheme) res" where
  "restore_copy ip v k s =
     (let dev = i_dev (icache s ! ip) in
      rbind (balloc dev s) (\<lambda>(newblock, s).
      if newblock = 0 then Ok (False, s)
      else
        rbind (bread dev (vn_data v ! k) s) (\<lambda>(src, s).
        rbind (bread dev newblock s) (\<lambda>(dst, s).
        rbind (log_write (dst\<lparr>b_data := blit (b_data dst) 0 (b_data src) BSIZE\<rparr>) s) (\<lambda>s.
        rbind (brelse src s) (\<lambda>s.
        rbind (brelse dst s) (\<lambda>s.
        Ok (True, set_ino ip (\<lambda>i. i\<lparr>i_addrs := (i_addrs i)[k := newblock]\<rparr>) s))))))))"

primrec restore_copies :: "nat \<Rightarrow> version_node \<Rightarrow> nat list \<Rightarrow> 'z fs_state_scheme \<Rightarrow> (bool \<times> 'z fs_state_scheme) res" where
  "restore_copies ip v [] s = Ok (True, s)"
| "restore_copies ip v (k # ks) s =
     rbind (restore_copy ip v k s) (\<lambda>(ok, s). if ok then restore_copies ip v ks s else Ok (False, s))"

definition sys_recover_file :: "'z file_state_scheme \<Rightarrow> (int \<times> 'z file_state_scheme) res" where
  "sys_recover_file s =
     (case argstr 0 s of
        None \<Rightarrow> Ok (-1, s)
      | Some name \<Rightarrow>
          (case recover_deleted_file (uptr (fst name) s) s of (vhead, s) \<Rightarrow>
           if vhead = 0 then Ok (-1, s)
           else
             rbind (begin_op s) (\<lambda>s.
             rbind (ialloc 1 T_FILE s) (\<lambda>(ip, s).
             rbind (ilock ip s) (\<lambda>s.
             let s = set_ino ip (\<lambda>i. i\<lparr>i_type := T_FILE, i_nlink := 1\<rparr>) s in
             rbind (version_get vhead s) (\<lambda>(v, s).
             rbind (case v of
                      None \<Rightarrow> Ok (True, s)
                    | Some v \<Rightarrow>
                        let s = set_ino ip (\<lambda>i. i\<lparr>i_size := vn_file_size v, i_version_head := 0\<rparr>) s in
                        restore_copies ip v [0..<min (vn_nblocks v) NDIRECT] s) (\<lambda>(ok, s).
             if \<not> ok then rbind (iunlockput ip s) (\<lambda>s. rbind (end_op s) (\<lambda>s. Ok (-1, s)))
             else
               rbind (iupdate ip s) (\<lambda>s.
               rbind (namei (lit ''.'') s) (\<lambda>(r, s).
               case r of
                 None \<Rightarrow> Undef ''dirlink: null pointer''
               | Some dp \<Rightarrow>
                   rbind (dirlink dp (uptr (fst name) s) (i_inum (icache s ! ip)) s) (\<lambda>(r, s).
                   if r < 0 then
                     rbind (iupdate ip (set_ino ip (\<lambda>i. i\<lparr>i_nlink := 0\<rparr>) s)) (\<lambda>s.
                     rbind (iunlockput ip s) (\<lambda>s.
                     rbind (end_op s) (\<lambda>s.
                     Ok (-1, s))))
                   else
                     rbind (iunlockput ip s) (\<lambda>s.
                     rbind (end_op s) (\<lambda>s.
                     Ok (0, s)))))))))))))"

text \<open>The loop that frees the direct blocks in \<^verbatim>\<open>sys_version_restore\<close>.\<close>

definition restore_free :: "nat \<Rightarrow> nat \<Rightarrow> 'z fs_state_scheme \<Rightarrow> 'z fs_state_scheme res" where
  "restore_free ip k s =
     (let i = icache s ! ip; a = i_addrs i ! k in
      if a = 0 then Ok s
      else
        rbind (if bref_is_tracked a s
               then (case bref_dec a s of (r, s) \<Rightarrow> if r = 0 then bfree (i_dev i) a s else Ok s)
               else bfree (i_dev i) a s) (\<lambda>s.
        Ok (set_ino ip (\<lambda>i. i\<lparr>i_addrs := (i_addrs i)[k := 0]\<rparr>) s)))"

definition version_restore_from :: "nat \<Rightarrow> version_node \<Rightarrow> 'z fs_state_scheme \<Rightarrow> 'z fs_state_scheme res" where
  "version_restore_from ip v s =
     rbind (each_res (restore_free ip) [0..<NDIRECT] s) (\<lambda>s.
     let s = set_ino ip (\<lambda>i. i\<lparr>i_size := vn_file_size v\<rparr>) s in
     rbind (restore_copies ip v [0..<min (vn_nblocks v) NDIRECT] s) (\<lambda>(ok, s).
     iupdate ip s))"

text \<open>
  The walk along the version chain: the node with the given number, if the chain is that long. The fuel bounds the
  length of the chain; a chain of different blocks has fewer than \<^verbatim>\<open>FSSIZE\<close> nodes, and on a cyclic chain
  the code runs on.
\<close>

fun version_walk :: "nat \<Rightarrow> nat \<Rightarrow> int \<Rightarrow> 'z fs_state_scheme \<Rightarrow> (version_node option \<times> 'z fs_state_scheme) res" where
  "version_walk 0 vblock num s = Undef ''endless version chain''"
| "version_walk (Suc fuel) vblock num s =
     (if vblock = 0 then Ok (None, s)
      else
        rbind (version_get vblock s) (\<lambda>(v, s).
        case v of
          None \<Rightarrow> Ok (None, s)
        | Some v \<Rightarrow> if num = 0 then Ok (Some v, s) else version_walk fuel (vn_prev v) (num - 1) s))"

definition sys_version_restore :: "'z file_state_scheme \<Rightarrow> (int \<times> 'z file_state_scheme) res" where
  "sys_version_restore s =
     (case (argstr 0 s, argint 1 s) of
        (Some path, Some version_num) \<Rightarrow>
          rbind (begin_op s) (\<lambda>s.
          rbind (namei (ustr path s) s) (\<lambda>(r, s).
          case r of
            None \<Rightarrow> rbind (end_op s) (\<lambda>s. Ok (-1, s))
          | Some ip \<Rightarrow>
              rbind (ilock ip s) (\<lambda>s.
              rbind (version_walk FSSIZE (i_version_head (icache s ! ip)) version_num s) (\<lambda>(v, s).
              case v of
                None \<Rightarrow> rbind (iunlockput ip s) (\<lambda>s. rbind (end_op s) (\<lambda>s. Ok (-1, s)))
              | Some v \<Rightarrow>
                  rbind (version_restore_from ip v s) (\<lambda>s.
                  rbind (iunlockput ip s) (\<lambda>s.
                  rbind (end_op s) (\<lambda>s.
                  Ok (0, s))))))))
      | _ \<Rightarrow> Ok (-1, s))"

section \<open>Arguments of exec\<close>

abbreviation (input) MAXARG :: nat where "MAXARG \<equiv> 32"

text \<open>
  The loop of \<^verbatim>\<open>sys_exec\<close> over the argument vector in user memory: the strings (address and length), or None for
  the error return.
\<close>

function sys_exec_args :: "nat \<Rightarrow> nat \<Rightarrow> 'z file_state_scheme \<Rightarrow> (nat \<times> nat) list option" where
  "sys_exec_args i uargv s =
     (if MAXARG \<le> i then None
      else
        (case fetchint ((uargv + 4 * i) mod 4294967296) s of
           None \<Rightarrow> None
         | Some uarg \<Rightarrow>
             if uarg = 0 then Some []
             else
               (case fetchstr (nat (uarg mod 4294967296)) s of
                  None \<Rightarrow> None
                | Some p \<Rightarrow> map_option (\<lambda>ps. p # ps) (sys_exec_args (Suc i) uargv s))))"
  by auto
termination
  by (relation "measure (\<lambda>(i, uargv, s). MAXARG - i)") auto

declare sys_exec_args.simps [simp del]

end
