(* ===== verification/Vm.thy ===== *)
theory Vm
  imports Kalloc
begin

text \<open>
  The page tables of vm.c, in the memory of the page allocator: directories and tables are pages read and written
  word by word, so the model has the two-level structure, the sharing of the free list with it, and every failure
  path of the code. The lemmas give the translation a page directory denotes and how \<^verbatim>\<open>walkpgdir\<close>, \<^verbatim>\<open>mappages\<close> and
  \<^verbatim>\<open>copyout\<close> act on it.
\<close>

section \<open>Addresses and entries\<close>

definition PDX :: "nat \<Rightarrow> nat" where "PDX va = va div 4194304 mod 1024"
definition PTX :: "nat \<Rightarrow> nat" where "PTX va = va div 4096 mod 1024"
definition PGADDR :: "nat \<Rightarrow> nat \<Rightarrow> nat \<Rightarrow> nat" where
  "PGADDR d t off = (d * 4194304 + t * 4096 + off) mod 4294967296"
definition PTE_ADDR :: "nat \<Rightarrow> nat" where "PTE_ADDR pte = pte div 4096 * 4096"
definition PTE_FLAGS :: "nat \<Rightarrow> nat" where "PTE_FLAGS pte = pte mod 4096"

abbreviation (input) PTE_P :: nat where "PTE_P \<equiv> 1"
abbreviation (input) PTE_W :: nat where "PTE_W \<equiv> 2"
abbreviation (input) PTE_U :: nat where "PTE_U \<equiv> 4"
abbreviation (input) EXTMEM :: nat where "EXTMEM \<equiv> 0x100000"
abbreviation (input) DEVSPACE :: nat where "DEVSPACE \<equiv> 0xFE000000"
abbreviation (input) KERNLINK :: nat where "KERNLINK \<equiv> KERNBASE + EXTMEM"
abbreviation (input) NPTES :: nat where "NPTES \<equiv> 1048576"

text \<open>
  The memory and allocator, the page table register, the kernel's page directory, the stack of the task state
  segment, and the messages printed.
\<close>

record vm_state = kmem_state +
  cr3 :: nat
  kpgdir :: nat
  ts_esp0 :: nat
  vm_msgs :: "string list"

section \<open>Operations\<close>

definition walkpgdir :: "nat \<Rightarrow> nat \<Rightarrow> bool \<Rightarrow> 'z kmem_state_scheme \<Rightarrow> nat \<times> 'z kmem_state_scheme" where
  "walkpgdir pgdir va alloc s =
     (let a = pgdir + 4 * PDX va; pde = get32 (kmem_mem s) a in
      if pde AND PTE_P \<noteq> 0 then (P2V (PTE_ADDR pde) + 4 * PTX va, s)
      else if \<not> alloc then (0, s)
      else
        (case kalloc s of
           (pgtab, s) \<Rightarrow>
             if pgtab = 0 then (0, s)
             else
               let m = memset (kmem_mem s) pgtab 0 PGSIZE;
                   m = put32 m a (V2P pgtab OR PTE_P OR PTE_W OR PTE_U)
               in (pgtab + 4 * PTX va, s\<lparr>kmem_mem := m\<rparr>)))"

text \<open>The loop of \<^verbatim>\<open>mappages\<close>; an address space has \<open>NPTES\<close> pages, so it makes at most as many rounds.\<close>

primrec mappages_loop :: "nat \<Rightarrow> nat \<Rightarrow> nat \<Rightarrow> nat \<Rightarrow> nat \<Rightarrow> nat \<Rightarrow> 'z kmem_state_scheme \<Rightarrow> (int \<times> 'z kmem_state_scheme) res" where
  "mappages_loop 0 pgdir a last_a pa perm s = Undef ''mappages''"
| "mappages_loop (Suc n) pgdir a last_a pa perm s =
     (case walkpgdir pgdir a True s of
        (pte, s) \<Rightarrow>
          if pte = 0 then Ok (- 1, s)
          else if get32 (kmem_mem s) pte AND PTE_P \<noteq> 0 then Panic ''remap''
          else
            let s = s\<lparr>kmem_mem := put32 (kmem_mem s) pte (pa OR perm OR PTE_P)\<rparr> in
            if a = last_a then Ok (0, s)
            else mappages_loop n pgdir ((a + PGSIZE) mod 4294967296) last_a ((pa + PGSIZE) mod 4294967296) perm s)"

definition mappages :: "nat \<Rightarrow> nat \<Rightarrow> nat \<Rightarrow> nat \<Rightarrow> nat \<Rightarrow> 'z kmem_state_scheme \<Rightarrow> (int \<times> 'z kmem_state_scheme) res" where
  "mappages pgdir va sz pa perm s =
     mappages_loop NPTES pgdir (PGROUNDDOWN va) (PGROUNDDOWN ((va + sz + 4294967296 - 1) mod 4294967296)) pa perm s"

text \<open>
  The loop of \<^verbatim>\<open>deallocuvm\<close>: from an absent page table it goes on at the next one. It moves on by a page or more
  each time.
\<close>

primrec deallocuvm_loop :: "nat \<Rightarrow> nat \<Rightarrow> nat \<Rightarrow> nat \<Rightarrow> 'z kmem_state_scheme \<Rightarrow> 'z kmem_state_scheme res" where
  "deallocuvm_loop 0 pgdir a oldsz s = (if a < oldsz then Undef ''deallocuvm'' else Ok s)"
| "deallocuvm_loop (Suc n) pgdir a oldsz s =
     (if a < oldsz then
        (case walkpgdir pgdir a False s of
           (pte, s) \<Rightarrow>
             if pte = 0 then
               let a = (PGADDR (PDX a + 1) 0 0 + 4294967296 - PGSIZE) mod 4294967296 in
               deallocuvm_loop n pgdir ((a + PGSIZE) mod 4294967296) oldsz s
             else if get32 (kmem_mem s) pte AND PTE_P \<noteq> 0 then
               let pa = PTE_ADDR (get32 (kmem_mem s) pte) in
               if pa = 0 then Panic ''kfree''
               else rbind (kfree (P2V pa) s) (\<lambda>s.
                 deallocuvm_loop n pgdir ((a + PGSIZE) mod 4294967296) oldsz (s\<lparr>kmem_mem := put32 (kmem_mem s) pte 0\<rparr>))
             else deallocuvm_loop n pgdir ((a + PGSIZE) mod 4294967296) oldsz s)
      else Ok s)"

definition deallocuvm :: "nat \<Rightarrow> nat \<Rightarrow> nat \<Rightarrow> 'z kmem_state_scheme \<Rightarrow> (nat \<times> 'z kmem_state_scheme) res" where
  "deallocuvm pgdir oldsz newsz s =
     (if oldsz \<le> newsz then Ok (oldsz, s)
      else rbind (deallocuvm_loop NPTES pgdir (PGROUNDUP newsz) oldsz s) (\<lambda>s. Ok (newsz, s)))"

definition freevm_table :: "nat \<Rightarrow> nat \<Rightarrow> 'z kmem_state_scheme \<Rightarrow> 'z kmem_state_scheme res" where
  "freevm_table pgdir i s =
     (let pde = get32 (kmem_mem s) (pgdir + 4 * i) in
      if pde AND PTE_P \<noteq> 0 then kfree (P2V (PTE_ADDR pde)) s else Ok s)"

definition freevm :: "nat \<Rightarrow> 'z kmem_state_scheme \<Rightarrow> 'z kmem_state_scheme res" where
  "freevm pgdir s =
     (if pgdir = 0 then Panic ''freevm: no pgdir''
      else rbind (deallocuvm pgdir KERNBASE 0 s) (\<lambda>(_, s).
        rbind (each_res (freevm_table pgdir) [0..<1024] s) (kfree pgdir)))"

text \<open>The kernel's mappings; \<open>data\<close> is the start of the kernel's data from the linker.\<close>

definition kmap :: "nat \<Rightarrow> (nat \<times> nat \<times> nat \<times> nat) list" where
  "kmap data =
     [(KERNBASE, 0, EXTMEM, PTE_W), (KERNLINK, V2P KERNLINK, V2P data, 0), (data, V2P data, PHYSTOP, PTE_W),
      (DEVSPACE, DEVSPACE, 0, PTE_W)]"

primrec setupkvm_loop :: "nat \<Rightarrow> (nat \<times> nat \<times> nat \<times> nat) list \<Rightarrow> 'z kmem_state_scheme \<Rightarrow> (nat \<times> 'z kmem_state_scheme) res" where
  "setupkvm_loop pgdir [] s = Ok (pgdir, s)"
| "setupkvm_loop pgdir (k # ks) s =
     (case k of
        (virt, phys_start, phys_end, perm) \<Rightarrow>
          rbind (mappages pgdir virt ((phys_end + 4294967296 - phys_start) mod 4294967296) phys_start perm s) (\<lambda>(r, s).
          if r < 0 then rbind (freevm pgdir s) (\<lambda>s. Ok (0, s)) else setupkvm_loop pgdir ks s))"

definition setupkvm :: "nat \<Rightarrow> 'z kmem_state_scheme \<Rightarrow> (nat \<times> 'z kmem_state_scheme) res" where
  "setupkvm data s =
     (case kalloc s of
        (pgdir, s) \<Rightarrow>
          if pgdir = 0 then Ok (0, s)
          else
            let s = s\<lparr>kmem_mem := memset (kmem_mem s) pgdir 0 PGSIZE\<rparr> in
            if DEVSPACE < P2V PHYSTOP then Panic ''PHYSTOP too high''
            else setupkvm_loop pgdir (kmap data) s)"

definition switchkvm :: "'z vm_state_scheme \<Rightarrow> 'z vm_state_scheme" where
  "switchkvm s = s\<lparr>cr3 := V2P (kpgdir s)\<rparr>"

definition kvmalloc :: "nat \<Rightarrow> 'z vm_state_scheme \<Rightarrow> 'z vm_state_scheme res" where
  "kvmalloc data s = rbind (setupkvm data s) (\<lambda>(pgdir, s). Ok (switchkvm (s\<lparr>kpgdir := pgdir\<rparr>)))"

text \<open>The process is given by its kernel stack and page directory.\<close>

definition switchuvm :: "(nat \<times> nat) option \<Rightarrow> 'z vm_state_scheme \<Rightarrow> 'z vm_state_scheme res" where
  "switchuvm p s =
     (case p of
        None \<Rightarrow> Panic ''switchuvm: no process''
      | Some (kstack, pgdir) \<Rightarrow>
          if kstack = 0 then Panic ''switchuvm: no kstack''
          else if pgdir = 0 then Panic ''switchuvm: no pgdir''
          else Ok (s\<lparr>ts_esp0 := kstack + 4096, cr3 := V2P pgdir\<rparr>))"

text \<open>\<^verbatim>\<open>kalloc\<close> is not checked here; without memory the code would write to address 0.\<close>

definition inituvm :: "nat \<Rightarrow> byte list \<Rightarrow> 'z kmem_state_scheme \<Rightarrow> 'z kmem_state_scheme res" where
  "inituvm pgdir code s =
     (if PGSIZE \<le> length code then Panic ''inituvm: more than a page''
      else
        (case kalloc s of
           (mem, s) \<Rightarrow>
             if mem = 0 then Undef ''inituvm''
             else
               let s = s\<lparr>kmem_mem := memset (kmem_mem s) mem 0 PGSIZE\<rparr> in
               rbind (mappages pgdir 0 PGSIZE (V2P mem) (PTE_W OR PTE_U) s) (\<lambda>(_, s).
               Ok (s\<lparr>kmem_mem := blit (kmem_mem s) mem (cstr code) (length code)\<rparr>))))"

text \<open>\<^verbatim>\<open>allocuvm\<close>, with the clean-up of its two failure branches.\<close>

definition say :: "string \<Rightarrow> 'z vm_state_scheme \<Rightarrow> 'z vm_state_scheme" where
  "say msg s = s\<lparr>vm_msgs := vm_msgs s @ [msg]\<rparr>"

function allocuvm_loop :: "nat \<Rightarrow> nat \<Rightarrow> nat \<Rightarrow> nat \<Rightarrow> 'z vm_state_scheme \<Rightarrow> (nat \<times> 'z vm_state_scheme) res" where
  "allocuvm_loop pgdir a oldsz newsz s =
     (if a < newsz then
        (case kalloc s of
           (mem, s) \<Rightarrow>
             if mem = 0 then rbind (deallocuvm pgdir newsz oldsz (say ''allocuvm out of memory'' s)) (\<lambda>(_, s). Ok (0, s))
             else
               rbind (mappages pgdir a PGSIZE (V2P mem) (PTE_W OR PTE_U) (s\<lparr>kmem_mem := memset (kmem_mem s) mem 0 PGSIZE\<rparr>)) (\<lambda>(r, s).
               if r < 0 then
                 rbind (deallocuvm pgdir newsz oldsz (say ''allocuvm out of memory (2)'' s)) (\<lambda>(_, s).
                 rbind (kfree mem s) (\<lambda>s. Ok (0, s)))
               else allocuvm_loop pgdir (a + PGSIZE) oldsz newsz s))
      else Ok (newsz, s))"
  by auto
termination
  by (relation "measure (\<lambda>(pgdir, a, oldsz, newsz, s). newsz - a)") auto

declare allocuvm_loop.simps [simp del]

definition allocuvm :: "nat \<Rightarrow> nat \<Rightarrow> nat \<Rightarrow> 'z vm_state_scheme \<Rightarrow> (nat \<times> 'z vm_state_scheme) res" where
  "allocuvm pgdir oldsz newsz s =
     (if KERNBASE \<le> newsz then Ok (0, s)
      else if newsz < oldsz then Ok (oldsz, s)
      else allocuvm_loop pgdir (PGROUNDUP oldsz) oldsz newsz s)"

definition clearpteu :: "nat \<Rightarrow> nat \<Rightarrow> 'z kmem_state_scheme \<Rightarrow> 'z kmem_state_scheme res" where
  "clearpteu pgdir uva s =
     (case walkpgdir pgdir uva False s of
        (pte, s) \<Rightarrow>
          if pte = 0 then Panic ''clearpteu''
          else Ok (s\<lparr>kmem_mem := put32 (kmem_mem s) pte (unat ((of_nat (get32 (kmem_mem s) pte) :: uint) AND NOT 4))\<rparr>))"

text \<open>
  The loop of \<^verbatim>\<open>copyuvm\<close>. The size of a process is at most \<^verbatim>\<open>KERNBASE\<close> (\<^verbatim>\<open>allocuvm\<close> grows it no further), so
  the 32-bit counter does not wrap around.
\<close>

function copyuvm_loop :: "nat \<Rightarrow> nat \<Rightarrow> nat \<Rightarrow> nat \<Rightarrow> 'z kmem_state_scheme \<Rightarrow> (nat \<times> 'z kmem_state_scheme) res" where
  "copyuvm_loop pgdir d i sz s =
     (if i < sz then
        (case walkpgdir pgdir i False s of
           (pte, s) \<Rightarrow>
             if pte = 0 then Panic ''copyuvm: pte should exist''
             else
               let e = get32 (kmem_mem s) pte in
               if e AND PTE_P = 0 then Panic ''copyuvm: page not present''
               else
                 (case kalloc s of
                    (mem, s) \<Rightarrow>
                      if mem = 0 then rbind (freevm d s) (\<lambda>s. Ok (0, s))
                      else
                        let s = s\<lparr>kmem_mem := blit (kmem_mem s) mem (\<lambda>j. kmem_mem s (P2V (PTE_ADDR e) + j)) PGSIZE\<rparr> in
                        rbind (mappages d i PGSIZE (V2P mem) (PTE_FLAGS e) s) (\<lambda>(r, s).
                        if r < 0 then rbind (kfree mem s) (\<lambda>s. rbind (freevm d s) (\<lambda>s. Ok (0, s)))
                        else copyuvm_loop pgdir d (i + PGSIZE) sz s)))
      else Ok (d, s))"
  by auto
termination
  by (relation "measure (\<lambda>(pgdir, d, i, sz, s). sz - i)") auto

declare copyuvm_loop.simps [simp del]

definition copyuvm :: "nat \<Rightarrow> nat \<Rightarrow> nat \<Rightarrow> 'z kmem_state_scheme \<Rightarrow> (nat \<times> 'z kmem_state_scheme) res" where
  "copyuvm data pgdir sz s =
     rbind (setupkvm data s) (\<lambda>(d, s). if d = 0 then Ok (0, s) else copyuvm_loop pgdir d 0 sz s)"

text \<open>\<^verbatim>\<open>uva2ka\<close> reads through the result of \<^verbatim>\<open>walkpgdir\<close> without looking at it.\<close>

definition uva2ka :: "nat \<Rightarrow> nat \<Rightarrow> 'z kmem_state_scheme \<Rightarrow> nat res" where
  "uva2ka pgdir uva s =
     (let pte = fst (walkpgdir pgdir uva False s) in
      if pte = 0 then Undef ''uva2ka''
      else
        let e = get32 (kmem_mem s) pte in
        if e AND PTE_P = 0 then Ok 0
        else if e AND PTE_U = 0 then Ok 0
        else Ok (P2V (PTE_ADDR e)))"

function copyout :: "nat \<Rightarrow> nat \<Rightarrow> byte list \<Rightarrow> 'z kmem_state_scheme \<Rightarrow> (int \<times> 'z kmem_state_scheme) res" where
  "copyout pgdir va buf s =
     (if buf \<noteq> [] then
        let va0 = PGROUNDDOWN va in
        rbind (uva2ka pgdir va0 s) (\<lambda>pa0.
        if pa0 = 0 then Ok (- 1, s)
        else
          let n = min (PGSIZE - (va - va0)) (length buf) in
          copyout pgdir ((va0 + PGSIZE) mod 4294967296) (drop n buf)
            (s\<lparr>kmem_mem := blit (kmem_mem s) (pa0 + (va - va0)) (cstr buf) n\<rparr>))
      else Ok (0, s))"
  by auto
termination
proof (relation "measure (\<lambda>(pgdir, va, buf, s). length buf)")
  fix pgdir va va0 pa0 n :: nat and buf :: "byte list" and s :: "'z kmem_state_scheme"
  assume "buf \<noteq> []" "va0 = PGROUNDDOWN va" "n = min (PGSIZE - (va - va0)) (length buf)"
  moreover have "va - PGROUNDDOWN va < PGSIZE" by (simp add: PGROUNDDOWN_def minus_div_mult_eq_mod)
  ultimately show "((pgdir, (va0 + PGSIZE) mod 4294967296, drop n buf,
      s\<lparr>kmem_mem := blit (kmem_mem s) (pa0 + (va - va0)) (cstr buf) n\<rparr>), pgdir, va, buf, s) \<in>
      measure (\<lambda>(pgdir, va, buf, s). length buf)" by auto
qed simp

declare copyout.simps [simp del]

section \<open>Words, pages and entries\<close>

lemma get32_eqI: "(\<And>j. j < 4 \<Longrightarrow> m' (a + j) = m (a + j)) \<Longrightarrow> get32 m' a = get32 m a"
proof -
  assume a: "\<And>j. j < 4 \<Longrightarrow> m' (a + j) = m (a + j)"
  show ?thesis using a [of 0] a [of 1] a [of 2] a [of 3] by (simp add: get32_def get16_def numeral_2_eq_2 numeral_3_eq_3)
qed

lemma put32_other: "a < off \<or> off + 4 \<le> a \<Longrightarrow> put32 m off v a = m a"
  by (auto simp: put32_def put16_def)

lemma PDX_less [simp]: "PDX va < 1024" and PTX_less [simp]: "PTX va < 1024"
  by (simp_all add: PDX_def PTX_def)

lemma page_index: "va < 4294967296 \<Longrightarrow> va div 4096 = 1024 * PDX va + PTX va"
proof -
  assume va: "va < 4294967296"
  have "va div 4194304 = va div 4096 div 1024" by (simp add: div_mult2_eq [symmetric])
  moreover have "va div 4194304 < 1024" using va by (simp add: div_less_iff_less_mult)
  ultimately have "PDX va = va div 4096 div 1024" by (simp add: PDX_def)
  then show ?thesis by (simp add: PTX_def)
qed

lemma same_page:
  "va < 4294967296 \<Longrightarrow> wa < 4294967296 \<Longrightarrow> PDX va = PDX wa \<and> PTX va = PTX wa \<longleftrightarrow> va div 4096 = wa div 4096"
proof -
  assume a: "va < 4294967296" "wa < 4294967296"
  have "PDX va = va div 4096 div 1024" "PTX va = va div 4096 mod 1024" "PDX wa = wa div 4096 div 1024"
    "PTX wa = wa div 4096 mod 1024"
    using page_index [OF a(1)] page_index [OF a(2)] by simp_all
  moreover have "va div 4096 = wa div 4096" if "PDX va = PDX wa" "PTX va = PTX wa"
    unfolding page_index [OF a(1)] page_index [OF a(2)] using that by simp
  ultimately show ?thesis by (intro iffI conjI) auto
qed

lemma or_aligned: "pa mod 4096 = 0 \<Longrightarrow> x < 4096 \<Longrightarrow> pa OR x = pa + (x :: nat)"
proof -
  assume a: "pa mod 4096 = 0" "x < 4096"
  have "take_bit 12 pa = 0" "take_bit 12 x = x" using a by (simp_all add: take_bit_eq_mod)
  then have "\<not> (bit pa n \<and> bit x n)" for n
    using bit_take_bit_iff [of 12 pa n] bit_take_bit_iff [of 12 x n] by auto
  then have "pa AND x = 0" by (intro bit_eqI) (simp add: bit_and_iff)
  then show ?thesis by (simp add: disjunctive_add_eq_or)
qed

lemma entry_parts [simp]:
  assumes "pa mod 4096 = 0" "x < 4096"
  shows "PTE_ADDR (pa + x) = pa" "PTE_FLAGS (pa + x) = x"
proof -
  obtain k where "pa = 4096 * k" using assms(1) by blast
  then show "PTE_ADDR (pa + x) = pa" "PTE_FLAGS (pa + x) = x" using assms(2) by (simp_all add: PTE_ADDR_def PTE_FLAGS_def)
qed

lemma V2P_page:
  assumes "page_ok e v"
  shows "V2P v = v - KERNBASE" "V2P v mod 4096 = 0" "P2V (V2P v) = v"
proof -
  have v: "v mod 4096 = 0" "KERNBASE \<le> v" "v < KERNBASE + PHYSTOP" using assms by (auto simp: page_ok_def)
  show "V2P v = v - KERNBASE" by (rule V2P_kernel) (use v in auto)
  moreover have "(v - KERNBASE) mod 4096 = 0" using v(1,2) by (simp add: mod_eq_0_iff_dvd dvd_diff_nat)
  ultimately show "V2P v mod 4096 = 0" "P2V (V2P v) = v" using v by (simp_all add: P2V_def)
qed

section \<open>The translation of a page directory\<close>

definition pde_at :: "block \<Rightarrow> nat \<Rightarrow> nat \<Rightarrow> nat" where
  "pde_at m pd i = get32 m (pd + 4 * i)"

definition ptab :: "block \<Rightarrow> nat \<Rightarrow> nat \<Rightarrow> nat" where
  "ptab m pd i = P2V (PTE_ADDR (pde_at m pd i))"

text \<open>The physical page and flags of a virtual address.\<close>

definition xlate :: "block \<Rightarrow> nat \<Rightarrow> nat \<Rightarrow> (nat \<times> nat) option" where
  "xlate m pd va =
     (if even (pde_at m pd (PDX va)) then None
      else
        let pte = get32 m (ptab m pd (PDX va) + 4 * PTX va) in
        if even pte then None else Some (PTE_ADDR pte, PTE_FLAGS pte))"

text \<open>Directory and tables are distinct pages of the allocator, none of them free; \<open>ps\<close> is the free list.\<close>

definition pd_ok :: "nat \<Rightarrow> nat list \<Rightarrow> 'z kmem_state_scheme \<Rightarrow> bool" where
  "pd_ok pd ps s \<longleftrightarrow>
     kmem_ok s ps \<and> page_ok (kmem_end s) pd \<and> pd \<notin> set ps \<and>
     (\<forall>i < 1024. odd (pde_at (kmem_mem s) pd i) \<longrightarrow>
        page_ok (kmem_end s) (ptab (kmem_mem s) pd i) \<and> ptab (kmem_mem s) pd i \<notin> set ps \<and> ptab (kmem_mem s) pd i \<noteq> pd) \<and>
     (\<forall>i < 1024. \<forall>j < 1024. odd (pde_at (kmem_mem s) pd i) \<longrightarrow> odd (pde_at (kmem_mem s) pd j) \<longrightarrow>
        ptab (kmem_mem s) pd i = ptab (kmem_mem s) pd j \<longrightarrow> i = j)"

lemma pd_okD:
  assumes "pd_ok pd ps s"
  shows "kmem_ok s ps" "page_ok (kmem_end s) pd" "pd \<notin> set ps"
    "i < 1024 \<Longrightarrow> odd (pde_at (kmem_mem s) pd i) \<Longrightarrow> page_ok (kmem_end s) (ptab (kmem_mem s) pd i)"
    "i < 1024 \<Longrightarrow> odd (pde_at (kmem_mem s) pd i) \<Longrightarrow> ptab (kmem_mem s) pd i \<notin> set ps"
    "i < 1024 \<Longrightarrow> odd (pde_at (kmem_mem s) pd i) \<Longrightarrow> ptab (kmem_mem s) pd i \<noteq> pd"
    "i < 1024 \<Longrightarrow> j < 1024 \<Longrightarrow> odd (pde_at (kmem_mem s) pd i) \<Longrightarrow> odd (pde_at (kmem_mem s) pd j) \<Longrightarrow>
        ptab (kmem_mem s) pd i = ptab (kmem_mem s) pd j \<Longrightarrow> i = j"
  using assms by (simp_all only: pd_ok_def simp_thms)

lemma page_words:
  assumes "page_ok e p" "page_ok e q" "p \<noteq> q" "i < 1024" "j < 1024"
  shows "p + 4 * i + 4 \<le> q + 4 * j \<or> q + 4 * j + 4 \<le> p + 4 * i"
  using pages_apart [of p q] assms by (auto simp: page_ok_def)

lemma walk_present:
  "odd (pde_at (kmem_mem s) pd (PDX va)) \<Longrightarrow>
     walkpgdir pd va alloc s = (ptab (kmem_mem s) pd (PDX va) + 4 * PTX va, s)"
  by (simp add: walkpgdir_def Let_def pde_at_def ptab_def and_one_eq odd_iff_mod_2_eq_one)

lemma walk_absent:
  "even (pde_at (kmem_mem s) pd (PDX va)) \<Longrightarrow> walkpgdir pd va False s = (0, s)"
  by (simp add: walkpgdir_def Let_def pde_at_def and_one_eq even_iff_mod_2_eq_zero)

lemma walk_no_memory:
  "even (pde_at (kmem_mem s) pd (PDX va)) \<Longrightarrow> kmem_ok s [] \<Longrightarrow> walkpgdir pd va True s = (0, s)"
  using kalloc_ok [of s "[]"] by (simp add: walkpgdir_def Let_def pde_at_def and_one_eq even_iff_mod_2_eq_zero)

text \<open>A new page table: the translation stays, and memory outside the directory and the new page too.\<close>

lemma walk_alloc:
  assumes ok: "pd_ok pd (p # ps) s" and ev: "even (pde_at (kmem_mem s) pd (PDX va))"
  shows "\<exists>t. walkpgdir pd va True s = (p + 4 * PTX va, t) \<and> pd_ok pd ps t \<and> kmem_end t = kmem_end s \<and>
    odd (pde_at (kmem_mem t) pd (PDX va)) \<and> ptab (kmem_mem t) pd (PDX va) = p \<and>
    (\<forall>wa. xlate (kmem_mem t) pd wa = xlate (kmem_mem s) pd wa) \<and>
    (\<forall>i < 1024. i \<noteq> PDX va \<longrightarrow> pde_at (kmem_mem t) pd i = pde_at (kmem_mem s) pd i) \<and>
    (\<forall>a. (a < pd \<or> pd + PGSIZE \<le> a) \<and> (a < p \<or> p + PGSIZE \<le> a) \<longrightarrow> kmem_mem t a = kmem_mem s a)"
proof -
  note P = pd_okD [OF ok]
  let ?m = "kmem_mem s" and ?i = "PDX va"
  have i4: "4 * PDX va + 4 \<le> PGSIZE" using PDX_less [of va] by linarith
  have pg: "page_ok (kmem_end s) p" "p \<notin> set ps" "p \<noteq> pd" using P(1,3) by (auto simp: kmem_ok_def)
  define v where "v = V2P p + 7"
  have or7: "V2P p OR 7 = v" using or_aligned [OF V2P_page(2) [OF pg(1)], of 7] by (simp add: v_def)
  define m where "m = put32 (memset ?m p 0 PGSIZE) (pd + 4 * ?i) v"
  define t where "t = s\<lparr>kmem_freelist := get32 ?m p, kmem_mem := m\<rparr>"
  have ka: "p \<noteq> 0" "kalloc s = (p, s\<lparr>kmem_freelist := get32 ?m p\<rparr>)" "kmem_ok (s\<lparr>kmem_freelist := get32 ?m p\<rparr>) ps"
    using kalloc_ok [OF P(1)] by auto
  have run: "walkpgdir pd va True s = (p + 4 * PTX va, t)"
    using ev ka by (simp add: walkpgdir_def Let_def pde_at_def and_one_eq even_iff_mod_2_eq_zero or7 t_def m_def)
  have ms: "memset ?m p 0 PGSIZE a = (if p \<le> a \<and> a < p + PGSIZE then 0 else ?m a)" for a by (simp add: memset_eq)
  have far: "pd + PGSIZE \<le> p \<or> p + PGSIZE \<le> pd" using pages_apart [of pd p] pg P(2) by (auto simp: page_ok_def)
  have out: "m a = ?m a" if "a < pd + 4 * ?i \<or> pd + 4 * ?i + 4 \<le> a" "a < p \<or> p + PGSIZE \<le> a" for a
    using that by (auto simp: m_def put32_other ms)
  have "v < 4294967296" using pg(1) unfolding v_def V2P_page(1) [OF pg(1)] page_ok_def by linarith
  then have new: "pde_at m pd ?i = v" by (simp add: pde_at_def m_def)
  have old: "pde_at m pd j = pde_at ?m pd j" if "j < 1024" "j \<noteq> ?i" for j
    unfolding pde_at_def
  proof (rule get32_eqI)
    fix b :: nat assume "b < 4"
    then show "m (pd + 4 * j + b) = ?m (pd + 4 * j + b)"
      using that far i4 by (intro out) (auto simp: nat_neq_iff)
  qed
  have v: "odd v" "PTE_ADDR v = V2P p" using V2P_page(2) [OF pg(1)] by (auto simp: v_def)
  have tab: "ptab m pd ?i = p" using new v(2) V2P_page(3) [OF pg(1)] by (simp add: ptab_def)
  have tab': "ptab m pd j = ptab ?m pd j" if "j < 1024" "j \<noteq> ?i" for j using old [OF that] by (simp add: ptab_def)
  have pte: "get32 m (ptab ?m pd j + 4 * k) = get32 ?m (ptab ?m pd j + 4 * k)"
    if "j < 1024" "odd (pde_at ?m pd j)" "k < 1024" for j k
  proof (rule get32_eqI)
    fix b :: nat assume b: "b < 4"
    have "ptab ?m pd j \<noteq> p" "ptab ?m pd j \<noteq> pd" using P(5,6) [OF that(1,2)] by auto
    then show "m (ptab ?m pd j + 4 * k + b) = ?m (ptab ?m pd j + 4 * k + b)"
      using pages_apart [of "ptab ?m pd j" p] pages_apart [of "ptab ?m pd j" pd] P(2) P(4) [OF that(1,2)] pg(1) that(3) b
        i4 by (intro out) (auto simp: page_ok_def)
  qed
  have zero: "get32 m (p + 4 * k) = 0" if "k < 1024" for k
  proof -
    have "m (p + 4 * k + b) = 0" if "b < 4" for b
      unfolding m_def using that \<open>k < 1024\<close> far i4 by (subst put32_other) (auto simp: ms)
    then have "get32 m (p + 4 * k) = get32 (\<lambda>_. 0) (p + 4 * k)" by (intro get32_eqI)
    then show ?thesis by (simp add: get32_def get16_def)
  qed
  have xl: "xlate m pd wa = xlate ?m pd wa" for wa
  proof (cases "PDX wa = ?i")
    case True
    then show ?thesis using ev new v(1) tab zero [of "PTX wa"] by (simp add: xlate_def Let_def)
  next
    case False
    then show ?thesis
      using old [of "PDX wa"] tab' [of "PDX wa"] pte [of "PDX wa" "PTX wa"] by (simp add: xlate_def Let_def)
  qed
  have fl: "kmem_ok t ps"
  proof -
    have "m (q + b) = ?m (q + b)" if "q \<in> set ps" "b < 4" for q b
    proof -
      have "page_ok (kmem_end s) q" "q \<noteq> p" "q \<noteq> pd" using that(1) P(1,3) pg(2) by (auto simp: kmem_ok_def)
      then show ?thesis
        using pages_apart [of q p] pages_apart [of q pd] pg(1) P(2) that(2) i4 by (intro out) (auto simp: page_ok_def)
    qed
    then show ?thesis using ka(3) flist_cong [of ps m ?m] by (simp add: kmem_ok_def t_def)
  qed
  have "pd_ok pd ps t"
    unfolding pd_ok_def
  proof (intro conjI allI impI)
    fix i assume i: "i < 1024" "odd (pde_at (kmem_mem t) pd i)"
    show "page_ok (kmem_end t) (ptab (kmem_mem t) pd i)" "ptab (kmem_mem t) pd i \<notin> set ps" "ptab (kmem_mem t) pd i \<noteq> pd"
      using i tab tab' [of i] old [of i] P(4,5,6) [of i] pg by (cases "i = ?i"; simp add: t_def)+
  next
    fix i j assume ij: "i < 1024" "j < 1024" "odd (pde_at (kmem_mem t) pd i)" "odd (pde_at (kmem_mem t) pd j)"
      "ptab (kmem_mem t) pd i = ptab (kmem_mem t) pd j"
    show "i = j"
      using ij tab tab' [of i] tab' [of j] old [of i] old [of j] P(5) [of i] P(5) [of j] P(7) [of i j]
      by (cases "i = ?i"; cases "j = ?i") (auto simp: t_def)
  qed (use fl P(2,3) in \<open>simp_all add: t_def\<close>)
  then show ?thesis
    using run new v(1) tab xl out old i4 by (intro exI [of _ t]) (auto simp: t_def)
qed

text \<open>A page that is neither free nor part of the page table: the data of a process or of the kernel.\<close>

definition data_page :: "nat \<Rightarrow> nat list \<Rightarrow> 'z kmem_state_scheme \<Rightarrow> nat \<Rightarrow> bool" where
  "data_page pd ps s q \<longleftrightarrow> page_ok (kmem_end s) q \<and> q \<notin> set ps \<and> q \<noteq> pd \<and>
     (\<forall>i < 1024. odd (pde_at (kmem_mem s) pd i) \<longrightarrow> ptab (kmem_mem s) pd i \<noteq> q)"

text \<open>Writing a page table entry changes the translation of its page and nothing else.\<close>

lemma set_pte:
  assumes ok: "pd_ok pd ps s" and od: "odd (pde_at (kmem_mem s) pd (PDX va))" and va: "va < 4294967296" and v: "v < 4294967296"
    and m: "m = put32 (kmem_mem s) (ptab (kmem_mem s) pd (PDX va) + 4 * PTX va) v"
  shows "pd_ok pd ps (s\<lparr>kmem_mem := m\<rparr>)"
    and "wa < 4294967296 \<Longrightarrow> xlate m pd wa =
      (if wa div 4096 = va div 4096 then (if even v then None else Some (PTE_ADDR v, PTE_FLAGS v)) else xlate (kmem_mem s) pd wa)"
    and "i < 1024 \<Longrightarrow> pde_at m pd i = pde_at (kmem_mem s) pd i"
    and "data_page pd ps s q \<Longrightarrow> data_page pd ps (s\<lparr>kmem_mem := m\<rparr>) q \<and> (\<forall>b < PGSIZE. m (q + b) = kmem_mem s (q + b))"
proof -
  note P = pd_okD [OF ok]
  let ?m = "kmem_mem s" and ?T = "ptab (kmem_mem s) pd (PDX va)"
  have T: "page_ok (kmem_end s) ?T" "?T \<notin> set ps" "?T \<noteq> pd" using P(4,5,6) [OF PDX_less od] by blast+
  have x4: "4 * PTX va + 4 \<le> PGSIZE" using PTX_less [of va] by linarith
  have out: "m a = ?m a" if "a < ?T + 4 * PTX va \<or> ?T + 4 * PTX va + 4 \<le> a" for a
    using that unfolding m by (rule put32_other)
  have page: "m (q + b) = ?m (q + b)" if "page_ok (kmem_end s) q" "q \<noteq> ?T" "b < PGSIZE" for q b
    using pages_apart [of q ?T] that T(1) x4 by (intro out) (auto simp: page_ok_def)
  have word: "get32 m (q + 4 * k) = get32 ?m (q + 4 * k)" if "page_ok (kmem_end s) q" "q \<noteq> ?T" "k < 1024" for q k
  proof (rule get32_eqI)
    fix b :: nat assume "b < 4"
    then show "m (q + 4 * k + b) = ?m (q + 4 * k + b)" using page [OF that(1,2), of "4 * k + b"] that(3) by (simp add: add.assoc)
  qed
  have pde: "pde_at m pd i = pde_at ?m pd i" if "i < 1024" for i
    unfolding pde_at_def using word [OF P(2) T(3) [symmetric] that] .
  then have tab: "ptab m pd i = ptab ?m pd i" if "i < 1024" for i using that by (simp add: ptab_def)
  show "i < 1024 \<Longrightarrow> pde_at m pd i = pde_at ?m pd i" by (rule pde)
  show "xlate m pd wa =
      (if wa div 4096 = va div 4096 then (if even v then None else Some (PTE_ADDR v, PTE_FLAGS v)) else xlate ?m pd wa)"
    if wa: "wa < 4294967296"
  proof (cases "odd (pde_at ?m pd (PDX wa)) \<and> PDX wa = PDX va")
    case True
    have g: "get32 m (?T + 4 * PTX wa) = (if PTX wa = PTX va then v else get32 ?m (?T + 4 * PTX wa))"
    proof (cases "PTX wa = PTX va")
      case False
      have "get32 m (?T + 4 * PTX wa) = get32 ?m (?T + 4 * PTX wa)"
        unfolding m by (rule get32_put32_other) (use False in \<open>auto simp: nat_neq_iff\<close>)
      then show ?thesis using False by simp
    qed (use v in \<open>simp add: m\<close>)
    have "wa div 4096 = va div 4096 \<longleftrightarrow> PTX wa = PTX va" using same_page [OF wa va] True by simp
    then show ?thesis
      using True od g pde [OF PDX_less, of wa] tab [OF PDX_less, of wa] by (cases "PTX wa = PTX va") (simp_all add: xlate_def Let_def)
  next
    case False
    have ne: "wa div 4096 \<noteq> va div 4096" using same_page [OF wa va] False od by auto
    have "get32 m (ptab ?m pd (PDX wa) + 4 * PTX wa) = get32 ?m (ptab ?m pd (PDX wa) + 4 * PTX wa)"
      if "odd (pde_at ?m pd (PDX wa))"
      by (rule word [OF P(4) [OF PDX_less that]]) (use P(7) [OF PDX_less PDX_less that od] that False in auto)
    then show ?thesis using ne pde [OF PDX_less, of wa] tab [OF PDX_less, of wa] by (auto simp: xlate_def Let_def)
  qed
  have "m (q + b) = ?m (q + b)" if "q \<in> set ps" "b < 4" for q b
    using page [of q b] that P(1) T(2) by (auto simp: kmem_ok_def)
  then have "kmem_ok (s\<lparr>kmem_mem := m\<rparr>) ps" using P(1) flist_cong [of ps m ?m] by (simp add: kmem_ok_def)
  then show "pd_ok pd ps (s\<lparr>kmem_mem := m\<rparr>)" using ok pde tab unfolding pd_ok_def by simp
  show "data_page pd ps (s\<lparr>kmem_mem := m\<rparr>) q \<and> (\<forall>b < PGSIZE. m (q + b) = ?m (q + b))" if q: "data_page pd ps s q"
  proof
    have "q \<noteq> ?T" "page_ok (kmem_end s) q" using q od PDX_less [of va] unfolding data_page_def by blast+
    then show "\<forall>b < PGSIZE. m (q + b) = ?m (q + b)" using page by blast
    show "data_page pd ps (s\<lparr>kmem_mem := m\<rparr>) q" using q pde tab by (auto simp: data_page_def)
  qed
qed

text \<open>The entry \<^verbatim>\<open>mappages\<close> makes for a page.\<close>

lemma entry_value:
  assumes "pa mod 4096 = 0" "pa < 4294967296" "perm < 4096"
  shows "pa OR perm OR PTE_P = pa + (perm OR PTE_P)" "PTE_ADDR (pa + (perm OR PTE_P)) = pa"
    "PTE_FLAGS (pa + (perm OR PTE_P)) = perm OR PTE_P" "odd (pa + (perm OR PTE_P))" "pa + (perm OR PTE_P) < 4294967296"
proof -
  obtain k where k: "pa = 4096 * k" using assms(1) by blast
  have "perm \<noteq> 4095" if "even perm" using that by auto
  then have or1: "perm OR 1 < 4096" using assms(3) by (auto simp: or_one_eq simp del: One_nat_def)
  show "pa OR perm OR PTE_P = pa + (perm OR PTE_P)"
    using or_aligned [OF assms(1) or1] by (simp only: or.assoc)
  show "PTE_ADDR (pa + (perm OR PTE_P)) = pa" "PTE_FLAGS (pa + (perm OR PTE_P)) = perm OR PTE_P"
    using entry_parts [OF assms(1) or1] by blast+
  have "odd (perm OR 1)" by (simp add: or_one_eq del: One_nat_def)
  then show "odd (pa + (perm OR PTE_P))" using k by (simp del: One_nat_def)
  have "k < 1048576" using assms(2) k by simp
  then show "pa + (perm OR PTE_P) < 4294967296" using or1 k by linarith
qed

text \<open>One round of \<^verbatim>\<open>mappages\<close>.\<close>

lemma map_one:
  assumes ok: "pd_ok pd ps s" and un: "xlate (kmem_mem s) pd a = None" and ps: "ps \<noteq> []"
    and a: "a < 4294967296" and pa: "pa mod 4096 = 0" "pa < 4294967296" and perm: "perm < 4096"
  shows "\<exists>pte s1 t ps'. walkpgdir pd a True s = (pte, s1) \<and> pte \<noteq> 0 \<and> get32 (kmem_mem s1) pte AND PTE_P = 0 \<and>
    t = s1\<lparr>kmem_mem := put32 (kmem_mem s1) pte (pa OR perm OR PTE_P)\<rparr> \<and> pd_ok pd ps' t \<and> kmem_end t = kmem_end s \<and>
    (ps' = ps \<or> ps' = tl ps) \<and>
    (\<forall>wa < 4294967296. xlate (kmem_mem t) pd wa = (if wa div 4096 = a div 4096 then Some (pa, perm OR PTE_P) else xlate (kmem_mem s) pd wa)) \<and>
    (\<forall>q. data_page pd ps s q \<longrightarrow> data_page pd ps' t q \<and> (\<forall>b < PGSIZE. kmem_mem t (q + b) = kmem_mem s (q + b)))"
proof -
  define v where "v = pa + (perm OR 1)"
  note v = entry_value [OF pa perm, folded v_def]
  have step: "\<exists>s1 ps'. walkpgdir pd a True s = (ptab (kmem_mem s1) pd (PDX a) + 4 * PTX a, s1) \<and> pd_ok pd ps' s1 \<and>
      kmem_end s1 = kmem_end s \<and> (ps' = ps \<or> ps' = tl ps) \<and> odd (pde_at (kmem_mem s1) pd (PDX a)) \<and>
      (\<forall>wa. xlate (kmem_mem s1) pd wa = xlate (kmem_mem s) pd wa) \<and>
      (\<forall>q. data_page pd ps s q \<longrightarrow> data_page pd ps' s1 q \<and> (\<forall>b < PGSIZE. kmem_mem s1 (q + b) = kmem_mem s (q + b)))"
  proof (cases "odd (pde_at (kmem_mem s) pd (PDX a))")
    case True
    then show ?thesis using walk_present [OF True] ok by (intro exI [of _ s] exI [of _ ps]) auto
  next
    case False
    obtain p qs where pq: "ps = p # qs" using ps by (cases ps) auto
    obtain s1 where s1: "walkpgdir pd a True s = (p + 4 * PTX a, s1)" "pd_ok pd qs s1" "kmem_end s1 = kmem_end s"
      "odd (pde_at (kmem_mem s1) pd (PDX a))" "ptab (kmem_mem s1) pd (PDX a) = p"
      "\<forall>wa. xlate (kmem_mem s1) pd wa = xlate (kmem_mem s) pd wa"
      "\<forall>i < 1024. i \<noteq> PDX a \<longrightarrow> pde_at (kmem_mem s1) pd i = pde_at (kmem_mem s) pd i"
      "\<forall>b. (b < pd \<or> pd + PGSIZE \<le> b) \<and> (b < p \<or> p + PGSIZE \<le> b) \<longrightarrow> kmem_mem s1 b = kmem_mem s b"
      using walk_alloc [of pd p qs s a] ok False pq by auto
    have "data_page pd qs s1 q \<and> (\<forall>b < PGSIZE. kmem_mem s1 (q + b) = kmem_mem s (q + b))" if q: "data_page pd ps s q" for q
    proof
      have ne: "q \<noteq> p" "q \<noteq> pd" "page_ok (kmem_end s) q" "page_ok (kmem_end s) p" "page_ok (kmem_end s) pd"
        using q pq pd_okD(1,2) [OF ok] by (auto simp: data_page_def kmem_ok_def)
      show "data_page pd qs s1 q" unfolding data_page_def
      proof (intro conjI allI impI)
        fix i assume "i < 1024" "odd (pde_at (kmem_mem s1) pd i)"
        then show "ptab (kmem_mem s1) pd i \<noteq> q"
          using s1(5,7) ne(1) q by (cases "i = PDX a") (auto simp: data_page_def ptab_def)
      qed (use q pq s1(3) in \<open>auto simp: data_page_def\<close>)
      show "\<forall>b < PGSIZE. kmem_mem s1 (q + b) = kmem_mem s (q + b)"
        using s1(8) pages_apart [of q p] pages_apart [of q pd] ne by (auto simp: page_ok_def)
    qed
    then show ?thesis using s1 pq by (intro exI [of _ s1] exI [of _ qs]) auto
  qed
  then obtain s1 ps' where s1: "walkpgdir pd a True s = (ptab (kmem_mem s1) pd (PDX a) + 4 * PTX a, s1)" "pd_ok pd ps' s1"
    "kmem_end s1 = kmem_end s" "ps' = ps \<or> ps' = tl ps" "odd (pde_at (kmem_mem s1) pd (PDX a))"
    "\<forall>wa. xlate (kmem_mem s1) pd wa = xlate (kmem_mem s) pd wa"
    "\<forall>q. data_page pd ps s q \<longrightarrow> data_page pd ps' s1 q \<and> (\<forall>b < PGSIZE. kmem_mem s1 (q + b) = kmem_mem s (q + b))"
    by blast
  have T: "page_ok (kmem_end s1) (ptab (kmem_mem s1) pd (PDX a))" by (rule pd_okD(4) [OF s1(2) PDX_less s1(5)])
  then have "ptab (kmem_mem s1) pd (PDX a) \<noteq> 0" by (auto simp: page_ok_def)
  moreover have "even (get32 (kmem_mem s1) (ptab (kmem_mem s1) pd (PDX a) + 4 * PTX a))"
    using un s1(5,6) by (auto simp: xlate_def Let_def split: if_splits)
  moreover define t where "t = s1\<lparr>kmem_mem := put32 (kmem_mem s1) (ptab (kmem_mem s1) pd (PDX a) + 4 * PTX a) v\<rparr>"
  note set = set_pte [OF s1(2,5) a v(5) refl, folded t_def]
  have "pd_ok pd ps' t" using set(1) .
  moreover have "\<forall>wa < 4294967296. xlate (kmem_mem t) pd wa =
      (if wa div 4096 = a div 4096 then Some (pa, perm OR PTE_P) else xlate (kmem_mem s) pd wa)"
    using set(2) v(2-4) s1(6) by (simp add: t_def del: One_nat_def)
  moreover have "\<forall>q. data_page pd ps s q \<longrightarrow> data_page pd ps' t q \<and> (\<forall>b < PGSIZE. kmem_mem t (q + b) = kmem_mem s (q + b))"
    using set(4) s1(7) by (simp add: t_def)
  moreover have "kmem_end t = kmem_end s" using s1(3) by (simp add: t_def)
  ultimately show ?thesis
    using s1(1,4) unfolding v(1)
    by (intro exI [of _ "ptab (kmem_mem s1) pd (PDX a) + 4 * PTX a"] exI [of _ s1] exI [of _ t] exI [of _ ps'])
      (simp add: t_def and_one_eq even_iff_mod_2_eq_zero del: One_nat_def)
qed

lemma mappages_round:
  assumes ok: "pd_ok pd ps s" and ps: "ps \<noteq> []" and A: "A < NPTES" "F < NPTES" "perm < 4096"
    and un: "xlate (kmem_mem s) pd (4096 * A) = None"
  shows "\<exists>t us ps'. (\<forall>n z. mappages_loop (Suc n) pd (4096 * A) z (4096 * F) perm s =
      (if 4096 * A = z then Ok (0, t)
       else mappages_loop n pd ((4096 * A + PGSIZE) mod 4294967296) z ((4096 * F + PGSIZE) mod 4294967296) perm t)) \<and>
    pd_ok pd ps' t \<and> ps = us @ ps' \<and> length us \<le> 1 \<and> kmem_end t = kmem_end s \<and>
    (\<forall>wa < 4294967296. xlate (kmem_mem t) pd wa = (if wa div 4096 = A then Some (4096 * F, perm OR PTE_P) else xlate (kmem_mem s) pd wa)) \<and>
    (\<forall>q. data_page pd ps s q \<longrightarrow> data_page pd ps' t q \<and> (\<forall>b < PGSIZE. kmem_mem t (q + b) = kmem_mem s (q + b)))"
proof -
  have bd: "4096 * A < 4294967296" "4096 * F mod 4096 = 0" "4096 * F < 4294967296" using A by simp_all
  obtain pte s1 t ps' where o: "walkpgdir pd (4096 * A) True s = (pte, s1)" "pte \<noteq> 0" "get32 (kmem_mem s1) pte AND PTE_P = 0"
    "t = s1\<lparr>kmem_mem := put32 (kmem_mem s1) pte (4096 * F OR perm OR PTE_P)\<rparr>" "pd_ok pd ps' t" "kmem_end t = kmem_end s"
    "ps' = ps \<or> ps' = tl ps"
    "\<forall>wa < 4294967296. xlate (kmem_mem t) pd wa =
      (if wa div 4096 = 4096 * A div 4096 then Some (4096 * F, perm OR PTE_P) else xlate (kmem_mem s) pd wa)"
    "\<forall>q. data_page pd ps s q \<longrightarrow> data_page pd ps' t q \<and> (\<forall>b < PGSIZE. kmem_mem t (q + b) = kmem_mem s (q + b))"
    using map_one [OF ok un ps bd A(3)] by (elim exE conjE) (rule that)
  have "\<exists>us. ps = us @ ps' \<and> length us \<le> 1"
    using o(7) ps by (cases ps) (auto intro: exI [of _ "[]"] exI [of _ "[hd ps]"])
  moreover have "mappages_loop (Suc n) pd (4096 * A) z (4096 * F) perm s =
      (if 4096 * A = z then Ok (0, t)
       else mappages_loop n pd ((4096 * A + PGSIZE) mod 4294967296) z ((4096 * F + PGSIZE) mod 4294967296) perm t)" for n z
    unfolding mappages_loop.simps o(1) prod.case Let_def o(4) using o(2,3) by simp
  moreover have "4096 * A div 4096 = A" by simp
  ultimately show ?thesis using o(5,6,8,9) by metis
qed

lemma mappages_loop_ok:
  assumes "pd_ok pd ps s" "A + k < NPTES" "F + k < NPTES" "perm < 4096" "k < length ps" "k < n"
    and "\<forall>j \<le> k. xlate (kmem_mem s) pd (4096 * (A + j)) = None"
  shows "\<exists>t us ps'. mappages_loop n pd (4096 * A) (4096 * (A + k)) (4096 * F) perm s = Ok (0, t) \<and> pd_ok pd ps' t \<and>
    ps = us @ ps' \<and> kmem_end t = kmem_end s \<and>
    (\<forall>wa < 4294967296. xlate (kmem_mem t) pd wa =
       (if A \<le> wa div 4096 \<and> wa div 4096 \<le> A + k then Some (4096 * (F + (wa div 4096 - A)), perm OR PTE_P)
        else xlate (kmem_mem s) pd wa)) \<and>
    (\<forall>q. data_page pd ps s q \<longrightarrow> data_page pd ps' t q \<and> (\<forall>b < PGSIZE. kmem_mem t (q + b) = kmem_mem s (q + b)))"
  using assms
proof (induction k arbitrary: A F s ps n)
  case 0
  obtain n' where n: "n = Suc n'" using 0(6) by (cases n) auto
  have pre: "ps \<noteq> []" "A < NPTES" "F < NPTES" "xlate (kmem_mem s) pd (4096 * A) = None" using 0 by auto
  obtain t us ps' where o: "\<forall>n z. mappages_loop (Suc n) pd (4096 * A) z (4096 * F) perm s =
      (if 4096 * A = z then Ok (0, t)
       else mappages_loop n pd ((4096 * A + PGSIZE) mod 4294967296) z ((4096 * F + PGSIZE) mod 4294967296) perm t)"
    "pd_ok pd ps' t" "ps = us @ ps'" "kmem_end t = kmem_end s"
    "\<forall>wa < 4294967296. xlate (kmem_mem t) pd wa = (if wa div 4096 = A then Some (4096 * F, perm OR PTE_P) else xlate (kmem_mem s) pd wa)"
    "\<forall>q. data_page pd ps s q \<longrightarrow> data_page pd ps' t q \<and> (\<forall>b < PGSIZE. kmem_mem t (q + b) = kmem_mem s (q + b))"
    using mappages_round [OF 0(1) pre(1-3) 0(4) pre(4)] by (elim exE conjE) (rule that)
  have "mappages_loop n pd (4096 * A) (4096 * (A + 0)) (4096 * F) perm s = Ok (0, t)"
    unfolding n using o(1) [rule_format, of n' "4096 * A"] by (simp del: mappages_loop.simps)
  moreover have "(if A \<le> x \<and> x \<le> A + 0 then Some (4096 * (F + (x - A)), p) else y) =
      (if x = A then Some (4096 * F, p) else y)" for x p y by auto
  ultimately show ?case using o(2-6) by (intro exI [of _ t] exI [of _ us] exI [of _ ps']) simp
next
  case (Suc k)
  obtain n' where n: "n = Suc n'" using Suc.prems(6) by (cases n) auto
  have pre: "ps \<noteq> []" "A < NPTES" "F < NPTES" "xlate (kmem_mem s) pd (4096 * A) = None" using Suc.prems by auto
  obtain t us ps' where o: "\<forall>n z. mappages_loop (Suc n) pd (4096 * A) z (4096 * F) perm s =
      (if 4096 * A = z then Ok (0, t)
       else mappages_loop n pd ((4096 * A + PGSIZE) mod 4294967296) z ((4096 * F + PGSIZE) mod 4294967296) perm t)"
    "pd_ok pd ps' t" "ps = us @ ps'" "length us \<le> 1" "kmem_end t = kmem_end s"
    "\<forall>wa < 4294967296. xlate (kmem_mem t) pd wa = (if wa div 4096 = A then Some (4096 * F, perm OR PTE_P) else xlate (kmem_mem s) pd wa)"
    "\<forall>q. data_page pd ps s q \<longrightarrow> data_page pd ps' t q \<and> (\<forall>b < PGSIZE. kmem_mem t (q + b) = kmem_mem s (q + b))"
    using mappages_round [OF Suc.prems(1) pre(1-3) Suc.prems(4) pre(4)] by (elim exE conjE) (rule that)
  have un: "\<forall>j \<le> k. xlate (kmem_mem t) pd (4096 * (Suc A + j)) = None"
  proof (intro allI impI)
    fix j assume j: "j \<le> k"
    have "4096 * (Suc A + j) < 4294967296" "4096 * (Suc A + j) div 4096 \<noteq> A" using j Suc.prems(2) by simp_all
    then have "xlate (kmem_mem t) pd (4096 * (Suc A + j)) = xlate (kmem_mem s) pd (4096 * (A + Suc j))" using o(6) by simp
    then show "xlate (kmem_mem t) pd (4096 * (Suc A + j)) = None" using Suc.prems(7) j by (metis Suc_le_mono)
  qed
  have le: "Suc A + k < NPTES" "Suc F + k < NPTES" "k < length ps'" "k < n'" using Suc.prems n o(3,4) by auto
  obtain t' us' ps'' where IH: "mappages_loop n' pd (4096 * Suc A) (4096 * (Suc A + k)) (4096 * Suc F) perm t = Ok (0, t')"
    "pd_ok pd ps'' t'" "ps' = us' @ ps''" "kmem_end t' = kmem_end t"
    "\<forall>wa < 4294967296. xlate (kmem_mem t') pd wa =
       (if Suc A \<le> wa div 4096 \<and> wa div 4096 \<le> Suc A + k then Some (4096 * (Suc F + (wa div 4096 - Suc A)), perm OR PTE_P)
        else xlate (kmem_mem t) pd wa)"
    "\<forall>q. data_page pd ps' t q \<longrightarrow> data_page pd ps'' t' q \<and> (\<forall>b < PGSIZE. kmem_mem t' (q + b) = kmem_mem t (q + b))"
    using Suc.IH [OF o(2) le(1,2) Suc.prems(4) le(3,4) un] by (elim exE conjE) (rule that)
  have wrap: "(4096 * A + PGSIZE) mod 4294967296 = 4096 * Suc A" "(4096 * F + PGSIZE) mod 4294967296 = 4096 * Suc F"
    "4096 * A \<noteq> 4096 * (Suc A + k)" "A + Suc k = Suc A + k" using Suc.prems(2,3) by simp_all
  have "mappages_loop n pd (4096 * A) (4096 * (A + Suc k)) (4096 * F) perm s = Ok (0, t')"
    unfolding n o(1) [rule_format] wrap using IH(1) wrap(3) by (simp only: if_False)
  moreover have "xlate (kmem_mem t') pd wa =
      (if A \<le> wa div 4096 \<and> wa div 4096 \<le> A + Suc k then Some (4096 * (F + (wa div 4096 - A)), perm OR PTE_P)
       else xlate (kmem_mem s) pd wa)" if "wa < 4294967296" for wa
    using IH(5) [rule_format, OF that] o(6) [rule_format, OF that]
    by (cases "wa div 4096" A rule: linorder_cases) auto
  ultimately show ?case using IH(2-4,6) o(3,5,7) by (intro exI [of _ t'] exI [of _ "us @ us'"] exI [of _ ps'']) auto
qed

text \<open>
  \<^bold>\<open>C15\<close>. \<^verbatim>\<open>mappages\<close> extends the address translation of a page directory by exactly the given range: it makes the
  page tables it needs from the free list, maps each page of the range to its page of physical memory with the
  permissions and the present bit, and leaves every other translation and every page that is not part of the page
  table or free as they were. The free list and the tables stay disjoint.
\<close>

theorem mappages_translates:
  assumes ok: "pd_ok pd ps s" and al: "va mod 4096 = 0" "pa mod 4096 = 0" and k: "0 < k" "k \<le> length ps"
    and bd: "va + 4096 * k \<le> 4294967296" "pa + 4096 * k \<le> 4294967296" "perm < 4096"
    and un: "\<forall>wa. va \<le> wa \<and> wa < va + 4096 * k \<longrightarrow> xlate (kmem_mem s) pd wa = None"
  shows "\<exists>t us ps'. mappages pd va (4096 * k) pa perm s = Ok (0, t) \<and> pd_ok pd ps' t \<and> ps = us @ ps' \<and>
    (\<forall>wa < 4294967296. xlate (kmem_mem t) pd wa =
       (if va \<le> wa \<and> wa < va + 4096 * k then Some (pa + (wa - va) div 4096 * 4096, perm OR PTE_P)
        else xlate (kmem_mem s) pd wa)) \<and>
    (\<forall>q. data_page pd ps s q \<longrightarrow> data_page pd ps' t q \<and> (\<forall>b < PGSIZE. kmem_mem t (q + b) = kmem_mem s (q + b)))"
proof -
  obtain A F where AF: "va = 4096 * A" "pa = 4096 * F" using al by blast
  define j where "j = k - 1"
  have j: "k = Suc j" using k(1) by (simp add: j_def)
  have "va + 4096 * k + 4294967296 - 1 = (va + 4096 * j + 4095) + 4294967296" by (simp add: j)
  moreover have "va + 4096 * j + 4095 < 4294967296" using bd(1) j by simp
  ultimately have "(va + 4096 * k + 4294967296 - 1) mod 4294967296 = va + 4096 * j + 4095"
    by (simp only: mod_add_self2 mod_less)
  moreover have "(4096 * A + 4096 * j + 4095) div 4096 = A + j" by simp
  ultimately have last: "PGROUNDDOWN ((va + 4096 * k + 4294967296 - 1) mod 4294967296) = 4096 * (A + j)"
    unfolding AF(1) by (simp add: PGROUNDDOWN_def)
  have down: "PGROUNDDOWN va = 4096 * A" by (simp add: PGROUNDDOWN_def AF(1))
  have "\<forall>i \<le> j. xlate (kmem_mem s) pd (4096 * (A + i)) = None" using un j AF(1) by auto
  then obtain t us ps' where t: "mappages_loop NPTES pd (4096 * A) (4096 * (A + j)) (4096 * F) perm s = Ok (0, t)"
    "pd_ok pd ps' t" "ps = us @ ps'"
    "\<forall>wa < 4294967296. xlate (kmem_mem t) pd wa =
       (if A \<le> wa div 4096 \<and> wa div 4096 \<le> A + j then Some (4096 * (F + (wa div 4096 - A)), perm OR PTE_P)
        else xlate (kmem_mem s) pd wa)"
    "\<forall>q. data_page pd ps s q \<longrightarrow> data_page pd ps' t q \<and> (\<forall>b < PGSIZE. kmem_mem t (q + b) = kmem_mem s (q + b))"
    using mappages_loop_ok [OF ok, of A j F perm NPTES] bd k(2) j AF by auto
  have "xlate (kmem_mem t) pd wa =
       (if va \<le> wa \<and> wa < va + 4096 * k then Some (pa + (wa - va) div 4096 * 4096, perm OR PTE_P)
        else xlate (kmem_mem s) pd wa)" if "wa < 4294967296" for wa
  proof -
    have "A \<le> wa div 4096 \<and> wa div 4096 \<le> A + j \<longleftrightarrow> va \<le> wa \<and> wa < va + 4096 * k"
      unfolding AF(1) j by auto
    moreover have "4096 * (F + (wa div 4096 - A)) = pa + (wa - va) div 4096 * 4096" if le: "va \<le> wa"
    proof -
      have "wa = (wa - va) + 4096 * A" using le AF(1) by simp
      then obtain d where "wa = d + 4096 * A" by blast
      then show ?thesis unfolding AF by (simp add: algebra_simps)
    qed
    ultimately show ?thesis using t(4) that by simp
  qed
  then show ?thesis using t(1-3,5) unfolding mappages_def down last AF(2) by blast
qed

text \<open>An empty page directory, with one free page for a page table.\<close>

definition vm0 :: kmem_state where
  "vm0 = \<lparr>kmem_use_lock = True, kmem_freelist = KERNBASE + 4096, kmem_mem = (\<lambda>_. 0), kmem_end = KERNBASE\<rparr>"

lemma vm0_ok: "pd_ok KERNBASE [KERNBASE + 4096] vm0" and vm0_empty: "xlate (kmem_mem vm0) KERNBASE va = None"
proof -
  have "get32 (\<lambda>_. 0) a = 0" for a by (simp add: get32_def get16_def)
  then show "pd_ok KERNBASE [KERNBASE + 4096] vm0" "xlate (kmem_mem vm0) KERNBASE va = None"
    by (simp_all add: pd_ok_def vm0_def kmem_ok_def page_ok_def pde_at_def xlate_def)
qed

theorem mappages_translates_witness:
  "\<exists>t. mappages KERNBASE 8192 (4096 * 1) 12288 6 vm0 = Ok (0, t) \<and>
     xlate (kmem_mem t) KERNBASE 8200 = Some (12288, 7) \<and> xlate (kmem_mem t) KERNBASE 4096 = None"
proof -
  obtain t where t: "mappages KERNBASE 8192 (4096 * 1) 12288 6 vm0 = Ok (0, t)"
    "\<forall>wa < 4294967296. xlate (kmem_mem t) KERNBASE wa =
       (if 8192 \<le> wa \<and> wa < 8192 + 4096 * 1 then Some (12288 + (wa - 8192) div 4096 * 4096, 6 OR PTE_P)
        else xlate (kmem_mem vm0) KERNBASE wa)"
    using mappages_translates [OF vm0_ok, of 8192 12288 1 6] vm0_empty by auto
  then show ?thesis using vm0_empty by simp
qed

section \<open>User memory\<close>

text \<open>The byte a user program sees at an address, through a page with the user bit (bit 2).\<close>

definition upage :: "block \<Rightarrow> nat \<Rightarrow> nat \<Rightarrow> nat option" where
  "upage m pd va = (case xlate m pd va of None \<Rightarrow> None | Some (pa, fl) \<Rightarrow> if bit fl 2 then Some (P2V pa) else None)"

definition ubyte :: "block \<Rightarrow> nat \<Rightarrow> nat \<Rightarrow> byte option" where
  "ubyte m pd va = map_option (\<lambda>q. m (q + va mod 4096)) (upage m pd va)"

text \<open>The user pages are data pages, and no page of memory is mapped twice.\<close>

definition user_ok :: "nat \<Rightarrow> nat list \<Rightarrow> 'z kmem_state_scheme \<Rightarrow> bool" where
  "user_ok pd ps s \<longleftrightarrow> pd_ok pd ps s \<and>
     (\<forall>va < 4294967296. \<forall>q. upage (kmem_mem s) pd va = Some q \<longrightarrow> data_page pd ps s q) \<and>
     (\<forall>va < 4294967296. \<forall>wa < 4294967296. \<forall>q. upage (kmem_mem s) pd va = Some q \<longrightarrow> upage (kmem_mem s) pd wa = Some q \<longrightarrow>
        va div 4096 = wa div 4096)"

lemma upage_page: "va < 4294967296 \<Longrightarrow> wa < 4294967296 \<Longrightarrow> va div 4096 = wa div 4096 \<Longrightarrow> upage m pd va = upage m pd wa"
  using same_page [of va wa] by (simp add: upage_def xlate_def Let_def)

lemma uva2ka_upage:
  assumes "upage (kmem_mem s) pd va = Some q" "pd_ok pd ps s" "q \<noteq> 0"
  shows "uva2ka pd va s = Ok q"
proof -
  let ?e = "get32 (kmem_mem s) (ptab (kmem_mem s) pd (PDX va) + 4 * PTX va)"
  have x: "odd (pde_at (kmem_mem s) pd (PDX va))" "odd ?e" "bit (PTE_FLAGS ?e) 2" "q = P2V (PTE_ADDR ?e)"
    using assms(1) by (auto simp: upage_def xlate_def Let_def split: if_splits)
  have b: "bit ?e 2" using x(3) by (simp add: PTE_FLAGS_def bit_take_bit_iff [of 12, unfolded take_bit_eq_mod, simplified])
  then have "?e AND PTE_U \<noteq> 0" using and_exp_eq_0_iff_not_bit [of ?e 2] by simp
  moreover have "ptab (kmem_mem s) pd (PDX va) \<noteq> 0"
    using pd_okD(4) [OF assms(2) PDX_less x(1)] by (auto simp: page_ok_def)
  moreover have "?e AND PTE_P \<noteq> 0" using x(2) by (simp add: and_one_eq odd_iff_mod_2_eq_one)
  ultimately show ?thesis using x(4) walk_present [OF x(1)] by (simp add: uva2ka_def Let_def)
qed

text \<open>Storing into a data page changes neither the tables nor the free list.\<close>

lemma store_data_page:
  assumes ok: "pd_ok pd ps s" and q: "data_page pd ps s q" and b: "off + n \<le> PGSIZE"
  shows "pd_ok pd ps (s\<lparr>kmem_mem := blit (kmem_mem s) (q + off) src n\<rparr>)"
    and "xlate (blit (kmem_mem s) (q + off) src n) pd va = xlate (kmem_mem s) pd va"
    and "data_page pd ps s r \<Longrightarrow> data_page pd ps (s\<lparr>kmem_mem := blit (kmem_mem s) (q + off) src n\<rparr>) r"
proof -
  note P = pd_okD [OF ok]
  let ?m = "kmem_mem s" and ?m' = "blit (kmem_mem s) (q + off) src n"
  have qo: "page_ok (kmem_end s) q" "q \<notin> set ps" "q \<noteq> pd" using q by (auto simp: data_page_def)
  have page: "?m' (r + a) = ?m (r + a)" if "page_ok (kmem_end s) r" "r \<noteq> q" "a < PGSIZE" for r a
    using pages_apart [of r q] that qo(1) b by (intro blit_out) (auto simp: page_ok_def)
  have word: "get32 ?m' (r + 4 * k) = get32 ?m (r + 4 * k)" if "page_ok (kmem_end s) r" "r \<noteq> q" "k < 1024" for r k
  proof (rule get32_eqI)
    fix a :: nat assume "a < 4"
    then show "?m' (r + 4 * k + a) = ?m (r + 4 * k + a)" using page [OF that(1,2), of "4 * k + a"] that(3) by (simp add: add.assoc)
  qed
  have pde: "pde_at ?m' pd i = pde_at ?m pd i" if "i < 1024" for i
    unfolding pde_at_def using word [OF P(2) qo(3) [symmetric] that] .
  then have tab: "ptab ?m' pd i = ptab ?m pd i" if "i < 1024" for i using that by (simp add: ptab_def)
  have pte: "get32 ?m' (ptab ?m pd (PDX va) + 4 * PTX va) = get32 ?m (ptab ?m pd (PDX va) + 4 * PTX va)"
    if "odd (pde_at ?m pd (PDX va))"
    by (rule word [OF P(4) [OF PDX_less that]]) (use q that in \<open>auto simp: data_page_def\<close>)
  show "xlate ?m' pd va = xlate ?m pd va" using pde [OF PDX_less] tab [OF PDX_less] pte by (auto simp: xlate_def Let_def)
  have "?m' (r + a) = ?m (r + a)" if "r \<in> set ps" "a < 4" for r a
    using page [of r a] that P(1) qo(2) by (auto simp: kmem_ok_def)
  then have "kmem_ok (s\<lparr>kmem_mem := ?m'\<rparr>) ps" using P(1) flist_cong [of ps ?m' ?m] by (simp add: kmem_ok_def)
  then show "pd_ok pd ps (s\<lparr>kmem_mem := ?m'\<rparr>)" using ok pde tab unfolding pd_ok_def by simp
  show "data_page pd ps s r \<Longrightarrow> data_page pd ps (s\<lparr>kmem_mem := ?m'\<rparr>) r" using pde tab by (auto simp: data_page_def)
qed

lemma user_ok_store:
  assumes ok: "user_ok pd ps s" and va: "va < 4294967296" "upage (kmem_mem s) pd va = Some q" and b: "off + n \<le> PGSIZE"
  shows "user_ok pd ps (s\<lparr>kmem_mem := blit (kmem_mem s) (q + off) src n\<rparr>)"
    and "upage (blit (kmem_mem s) (q + off) src n) pd wa = upage (kmem_mem s) pd wa"
    and "wa < 4294967296 \<Longrightarrow> ubyte (blit (kmem_mem s) (q + off) src n) pd wa =
      (if wa div 4096 = va div 4096 \<and> off \<le> wa mod 4096 \<and> wa mod 4096 < off + n then Some (src (wa mod 4096 - off))
       else ubyte (kmem_mem s) pd wa)"
proof -
  have pd: "pd_ok pd ps s" and q: "data_page pd ps s q" using ok va by (auto simp: user_ok_def)
  note st = store_data_page [OF pd q b, where src = src]
  show up: "upage (blit (kmem_mem s) (q + off) src n) pd wa = upage (kmem_mem s) pd wa" for wa by (simp add: upage_def st(2))
  show "user_ok pd ps (s\<lparr>kmem_mem := blit (kmem_mem s) (q + off) src n\<rparr>)"
  proof -
    have mem: "kmem_mem (s\<lparr>kmem_mem := blit (kmem_mem s) (q + off) src n\<rparr>) = blit (kmem_mem s) (q + off) src n" by simp
    show ?thesis using ok st(1,3) unfolding user_ok_def mem up by blast
  qed
  show "ubyte (blit (kmem_mem s) (q + off) src n) pd wa =
      (if wa div 4096 = va div 4096 \<and> off \<le> wa mod 4096 \<and> wa mod 4096 < off + n then Some (src (wa mod 4096 - off))
       else ubyte (kmem_mem s) pd wa)" if wa: "wa < 4294967296"
  proof (cases "wa div 4096 = va div 4096")
    case True
    have uq: "upage (kmem_mem s) pd wa = Some q" unfolding upage_page [OF wa va(1) True] by (rule va(2))
    define a where "a = wa mod 4096"
    have "blit (kmem_mem s) (q + off) src n (q + a) = (if off \<le> a \<and> a < off + n then src (a - off) else kmem_mem s (q + a))"
      by (simp add: blit_def add.assoc)
    then show ?thesis using True unfolding ubyte_def up uq a_def [symmetric] by (simp only: option.map simp_thms if_distrib [of Some])
  next
    case False
    have "blit (kmem_mem s) (q + off) src n (r + wa mod 4096) = kmem_mem s (r + wa mod 4096)"
      if r: "upage (kmem_mem s) pd wa = Some r" for r
    proof -
      have "r \<noteq> q" using ok r wa va False unfolding user_ok_def by blast
      moreover have "page_ok (kmem_end s) r" "page_ok (kmem_end s) q"
        using ok r wa q by (auto simp: user_ok_def data_page_def)
      ultimately have "r + PGSIZE \<le> q \<or> q + PGSIZE \<le> r" by (intro pages_apart) (auto simp: page_ok_def)
      moreover have "wa mod 4096 < PGSIZE" by simp
      ultimately show ?thesis using b by (intro blit_out) linarith
    qed
    then show ?thesis using False by (cases "upage (kmem_mem s) pd wa") (auto simp: ubyte_def up)
  qed
qed

lemma page_range:
  fixes va wa off n :: nat
  assumes "off + n \<le> 4096" "off = va mod 4096"
  shows "wa div 4096 = va div 4096 \<and> off \<le> wa mod 4096 \<and> wa mod 4096 < off + n \<longleftrightarrow> va \<le> wa \<and> wa < va + n"
    and "va \<le> wa \<and> wa < va + n \<Longrightarrow> wa mod 4096 - off = wa - va"
proof -
  have v: "va = 4096 * (va div 4096) + off" "wa = 4096 * (wa div 4096) + wa mod 4096" using assms(2) by simp_all
  have m: "wa mod 4096 < 4096" by simp
  show iff: "wa div 4096 = va div 4096 \<and> off \<le> wa mod 4096 \<and> wa mod 4096 < off + n \<longleftrightarrow> va \<le> wa \<and> wa < va + n"
    using v m assms(1) by (cases "wa div 4096" "va div 4096" rule: linorder_cases) linarith+
  show "va \<le> wa \<and> wa < va + n \<Longrightarrow> wa mod 4096 - off = wa - va" using iff v by linarith
qed

text \<open>
  \<^bold>\<open>C16\<close>. \<^verbatim>\<open>copyout\<close> writes a kernel buffer into the memory of a process page by page, from any offset and across page
  boundaries: if every page of the range has the user bit, it returns 0, the process sees exactly the bytes of the
  buffer in the range, and every other byte of its memory and its address translation are as before.
\<close>

theorem copyout_writes:
  assumes "user_ok pd ps s" "va + length buf \<le> 4294967296"
    and "\<forall>wa. va \<le> wa \<and> wa < va + length buf \<longrightarrow> upage (kmem_mem s) pd wa \<noteq> None"
  shows "\<exists>t. copyout pd va buf s = Ok (0, t) \<and> user_ok pd ps t \<and>
    (\<forall>wa < 4294967296. upage (kmem_mem t) pd wa = upage (kmem_mem s) pd wa \<and>
       ubyte (kmem_mem t) pd wa = (if va \<le> wa \<and> wa < va + length buf then Some (buf ! (wa - va)) else ubyte (kmem_mem s) pd wa))"
  using assms
proof (induction "length buf" arbitrary: va buf s rule: less_induct)
  case less
  show ?case
  proof (cases "buf = []")
    case True
    then show ?thesis using less.prems by (subst copyout.simps) (auto intro!: exI [of _ s])
  next
    case False
    define va0 where "va0 = PGROUNDDOWN va"
    define off where "off = va mod 4096"
    define n where "n = min (PGSIZE - off) (length buf)"
    have v: "va = va0 + off" "off < PGSIZE" "va0 mod 4096 = 0" "va0 div 4096 = va div 4096"
      by (simp_all add: va0_def off_def PGROUNDDOWN_def)
    have off_eq: "va - va0 = off" using v(1) by simp
    have n: "0 < n" "n \<le> length buf" "off + n \<le> PGSIZE" using False v(2) by (auto simp: n_def)
    have vb: "va < 4294967296" using less.prems(2) False by (cases buf) auto
    obtain q where q: "upage (kmem_mem s) pd va = Some q" using less.prems(3) False by (cases buf) auto
    have q0: "upage (kmem_mem s) pd va0 = Some q" using upage_page [of va0 va] vb v q by simp
    have dq: "data_page pd ps s q" "pd_ok pd ps s" using less.prems(1) q vb by (auto simp: user_ok_def)
    then have qn: "q \<noteq> 0" by (auto simp: data_page_def page_ok_def)
    define s1 where "s1 = s\<lparr>kmem_mem := blit (kmem_mem s) (q + off) (cstr buf) n\<rparr>"
    note st = user_ok_store [OF less.prems(1) vb q n(3), where src = "cstr buf", folded s1_def]
    have run: "copyout pd va buf s = copyout pd ((va0 + PGSIZE) mod 4294967296) (drop n buf) s1"
      unfolding copyout.simps [of pd va buf s] va0_def [symmetric] Let_def uva2ka_upage [OF q0 dq(2) qn] rbind.simps
        off_eq n_def [symmetric] s1_def [symmetric]
      using False qn by simp
    have up: "upage (kmem_mem s1) pd wa = upage (kmem_mem s) pd wa" for wa using st(2) by (simp add: s1_def)
    have ub: "ubyte (kmem_mem s1) pd wa = (if va \<le> wa \<and> wa < va + n then Some (buf ! (wa - va)) else ubyte (kmem_mem s) pd wa)"
      if "wa < 4294967296" for wa
      using st(3) [OF that] page_range [OF n(3) off_def, of wa] n(2) by (auto simp: s1_def)
    show ?thesis
    proof (cases "n = length buf")
      case True
      then have "copyout pd va buf s = Ok (0, s1)" unfolding run by (simp add: copyout.simps)
      then show ?thesis using st(1) up ub True by (intro exI [of _ s1]) simp
    next
      case False
      then have nn: "n = PGSIZE - off" "n < length buf" using n(2) by (auto simp: n_def)
      then have next_va: "(va0 + PGSIZE) mod 4294967296 = va + n" using v(1,2) less.prems(2) by simp
      have pre: "length (drop n buf) < length buf" "va + n + length (drop n buf) \<le> 4294967296"
        "\<forall>wa. va + n \<le> wa \<and> wa < va + n + length (drop n buf) \<longrightarrow> upage (kmem_mem s1) pd wa \<noteq> None"
        using less.prems(2,3) nn(2) n(1) by (simp_all add: up)
      obtain t where t: "copyout pd (va + n) (drop n buf) s1 = Ok (0, t)" "user_ok pd ps t"
        "\<forall>wa < 4294967296. upage (kmem_mem t) pd wa = upage (kmem_mem s1) pd wa \<and> ubyte (kmem_mem t) pd wa =
          (if va + n \<le> wa \<and> wa < va + n + length (drop n buf) then Some (drop n buf ! (wa - (va + n))) else ubyte (kmem_mem s1) pd wa)"
        using less.hyps [OF pre(1) st(1) pre(2,3)] by (elim exE conjE) (rule that)
      have "ubyte (kmem_mem t) pd wa = (if va \<le> wa \<and> wa < va + length buf then Some (buf ! (wa - va)) else ubyte (kmem_mem s) pd wa)"
        if "wa < 4294967296" for wa
        using t(3) [rule_format, OF that] ub [OF that] nn(2) by (auto simp: nth_append)
      then show ?thesis using t(1,2,3) up unfolding run next_va by (intro exI [of _ t]) simp
    qed
  qed
qed

text \<open>One user page, mapped at address 4096.\<close>

lemma one_user_page:
  "\<exists>s ps. user_ok KERNBASE ps (s :: kmem_state) \<and>
     (\<forall>wa < 4294967296. upage (kmem_mem s) KERNBASE wa = (if wa div 4096 = 1 then Some (KERNBASE + 8192) else None))"
proof -
  have un: "\<forall>j \<le> 0. xlate (kmem_mem vm0) KERNBASE (4096 * (1 + j)) = None" using vm0_empty by simp
  have bd: "1 + 0 < NPTES" "2 + 0 < NPTES" "(6 :: nat) < 4096" "0 < length [KERNBASE + 4096]" "0 < (1 :: nat)" by simp_all
  obtain t :: kmem_state and ps where t: "pd_ok KERNBASE ps t"
    "\<forall>wa < 4294967296. xlate (kmem_mem t) KERNBASE wa =
       (if 1 \<le> wa div 4096 \<and> wa div 4096 \<le> 1 + 0 then Some (4096 * (2 + (wa div 4096 - 1)), 6 OR PTE_P) else xlate (kmem_mem vm0) KERNBASE wa)"
    "\<forall>q. data_page KERNBASE [KERNBASE + 4096] vm0 q \<longrightarrow> data_page KERNBASE ps t q \<and>
       (\<forall>b < PGSIZE. kmem_mem t (q + b) = kmem_mem vm0 (q + b))"
    using mappages_loop_ok [OF vm0_ok bd un] by (elim exE conjE) (rule that, assumption+)
  have "get32 (\<lambda>_. 0) a = 0" for a by (simp add: get32_def get16_def)
  then have d: "data_page KERNBASE ps t (KERNBASE + 8192)"
    using t(3) by (simp add: data_page_def vm0_def page_ok_def pde_at_def)
  have up: "upage (kmem_mem t) KERNBASE wa = (if wa div 4096 = 1 then Some (KERNBASE + 8192) else None)"
    if "wa < 4294967296" for wa
  proof -
    have "bit (7 :: nat) 2" by (simp add: bit_iff_odd)
    then show ?thesis using t(2) [rule_format, OF that] vm0_empty by (auto simp: upage_def P2V_def)
  qed
  then have "user_ok KERNBASE ps t" using t(1) d by (auto simp: user_ok_def split: if_splits)
  then show ?thesis using up by blast
qed

theorem copyout_writes_witness:
  "\<exists>s ps t. user_ok KERNBASE ps (s :: kmem_state) \<and> copyout KERNBASE 5000 [1, 2] s = Ok (0, t) \<and>
     ubyte (kmem_mem t) KERNBASE 5001 = Some 2"
proof -
  obtain s ps where s: "user_ok KERNBASE ps (s :: kmem_state)"
    "\<forall>wa < 4294967296. upage (kmem_mem s) KERNBASE wa = (if wa div 4096 = 1 then Some (KERNBASE + 8192) else None)"
    using one_user_page by blast
  have "\<forall>wa. 5000 \<le> wa \<and> wa < 5000 + length [1, 2 :: byte] \<longrightarrow> upage (kmem_mem s) KERNBASE wa \<noteq> None"
  proof (intro allI impI)
    fix wa :: nat assume "5000 \<le> wa \<and> wa < 5000 + length [1, 2 :: byte]"
    then have "wa = 5000 \<or> wa = 5001" by auto
    then show "upage (kmem_mem s) KERNBASE wa \<noteq> None" using s(2) by auto
  qed
  from copyout_writes [OF s(1) _ this] s(1) show ?thesis by fastforce
qed

end
