(* ===== verification/Spinlock.thy ===== *)
theory Spinlock
  imports Prelude
begin

text \<open>
  The spin locks of spinlock.c on a machine with several processors, with the nesting of interrupt disabling
  (\<^verbatim>\<open>pushcli\<close>, \<^verbatim>\<open>popcli\<close>) and the lookup of the current processor (\<^verbatim>\<open>mycpu\<close> of proc.c). A step relation interleaves the
  processors between the atomic actions of \<^verbatim>\<open>acquire\<close> and \<^verbatim>\<open>release\<close>; its invariant gives mutual exclusion, that
  interrupts are off while a lock is held, and that they come back as they were.
\<close>

section \<open>State\<close>

text \<open>
  A processor is named by its index in \<open>cpus\<close>; \<open>eflags_if\<close> is its interrupt flag. \<open>sl_cpu\<close> is the \<^verbatim>\<open>cpu\<close> pointer of a
  lock, \<open>None\<close> for 0. Locks are named by numbers.
\<close>

record cpu =
  apicid :: nat
  ncli :: int
  intena :: bool
  eflags_if :: bool

record spinlock =
  sl_locked :: bool
  sl_cpu :: "nat option"
  sl_pcs0 :: nat

record smp =
  cpus :: "cpu list"
  locks :: "nat \<Rightarrow> spinlock"

definition set_cpu :: "nat \<Rightarrow> (cpu \<Rightarrow> cpu) \<Rightarrow> smp \<Rightarrow> smp" where
  "set_cpu k f s = s\<lparr>cpus := (cpus s)[k := f (cpus s ! k)]\<rparr>"

definition set_lock :: "nat \<Rightarrow> (spinlock \<Rightarrow> spinlock) \<Rightarrow> smp \<Rightarrow> smp" where
  "set_lock l f s = s\<lparr>locks := (locks s)(l := f (locks s l))\<rparr>"

section \<open>Operations\<close>

text \<open>The code running on processor \<open>k\<close> finds it by the id its local APIC reports.\<close>

definition mycpu :: "nat \<Rightarrow> smp \<Rightarrow> nat res" where
  "mycpu k s =
     (if eflags_if (cpus s ! k) then Panic ''mycpu called with interrupts enabled''
      else
        (case first_idx (\<lambda>c. apicid c = apicid (cpus s ! k)) (cpus s) of
           None \<Rightarrow> Panic ''unknown apicid''
         | Some i \<Rightarrow> Ok i))"

definition pushcli :: "nat \<Rightarrow> smp \<Rightarrow> smp res" where
  "pushcli k s =
     (let eflags = eflags_if (cpus s ! k);
          s = set_cpu k (\<lambda>c. c\<lparr>eflags_if := False\<rparr>) s
      in rbind (mycpu k s) (\<lambda>m.
         let s = (if ncli (cpus s ! m) = 0 then set_cpu m (\<lambda>c. c\<lparr>intena := eflags\<rparr>) s else s)
         in Ok (set_cpu m (\<lambda>c. c\<lparr>ncli := ncli c + 1\<rparr>) s)))"

definition popcli :: "nat \<Rightarrow> smp \<Rightarrow> smp res" where
  "popcli k s =
     (if eflags_if (cpus s ! k) then Panic ''popcli - interruptible''
      else rbind (mycpu k s) (\<lambda>m.
        let s = set_cpu m (\<lambda>c. c\<lparr>ncli := ncli c - 1\<rparr>) s in
        if ncli (cpus s ! m) < 0 then Panic ''popcli''
        else if ncli (cpus s ! m) = 0 \<and> intena (cpus s ! m) then Ok (set_cpu k (\<lambda>c. c\<lparr>eflags_if := True\<rparr>) s)
        else Ok s))"

definition holding :: "nat \<Rightarrow> nat \<Rightarrow> smp \<Rightarrow> (bool \<times> smp) res" where
  "holding k l s =
     rbind (pushcli k s) (\<lambda>s.
     rbind (mycpu k s) (\<lambda>m.
     let r = (sl_locked (locks s l) \<and> sl_cpu (locks s l) = Some m) in
     rbind (popcli k s) (\<lambda>s. Ok (r, s))))"

definition initlock :: "nat \<Rightarrow> smp \<Rightarrow> smp" where
  "initlock l s = set_lock l (\<lambda>lk. lk\<lparr>sl_locked := False, sl_cpu := None\<rparr>) s"

text \<open>\<^verbatim>\<open>acquire\<close> in its three parts: up to the loop, one \<^verbatim>\<open>xchg\<close>, and what follows the successful one.\<close>

definition acquire_enter :: "nat \<Rightarrow> nat \<Rightarrow> smp \<Rightarrow> smp res" where
  "acquire_enter k l s =
     rbind (pushcli k s) (\<lambda>s.
     rbind (holding k l s) (\<lambda>(h, s). if h then Panic ''acquire'' else Ok s))"

definition xchg :: "nat \<Rightarrow> smp \<Rightarrow> bool \<times> smp" where
  "xchg l s = (sl_locked (locks s l), set_lock l (\<lambda>lk. lk\<lparr>sl_locked := True\<rparr>) s)"

text \<open>The call stack that \<^verbatim>\<open>getcallerpcs\<close> stores for debugging is left out.\<close>

definition acquire_record :: "nat \<Rightarrow> nat \<Rightarrow> smp \<Rightarrow> smp res" where
  "acquire_record k l s = rbind (mycpu k s) (\<lambda>m. Ok (set_lock l (\<lambda>lk. lk\<lparr>sl_cpu := Some m\<rparr>) s))"

text \<open>The whole function when no other processor interferes; a lock that is taken makes it spin.\<close>

definition acquire :: "nat \<Rightarrow> nat \<Rightarrow> smp \<Rightarrow> smp res" where
  "acquire k l s =
     rbind (acquire_enter k l s) (\<lambda>s.
     (case xchg l s of (old, s) \<Rightarrow> if old then Sleeps ''spinning'' else acquire_record k l s))"

text \<open>\<^verbatim>\<open>release\<close> up to the barrier, and the store that opens the lock.\<close>

definition release_enter :: "nat \<Rightarrow> nat \<Rightarrow> smp \<Rightarrow> smp res" where
  "release_enter k l s =
     rbind (holding k l s) (\<lambda>(h, s).
     if \<not> h then Panic ''release'' else Ok (set_lock l (\<lambda>lk. lk\<lparr>sl_pcs0 := 0, sl_cpu := None\<rparr>) s))"

definition release_store :: "nat \<Rightarrow> smp \<Rightarrow> smp" where
  "release_store l s = set_lock l (\<lambda>lk. lk\<lparr>sl_locked := False\<rparr>) s"

definition release :: "nat \<Rightarrow> nat \<Rightarrow> smp \<Rightarrow> smp res" where
  "release k l s = rbind (release_enter k l s) (\<lambda>s. popcli k (release_store l s))"

text \<open>
  The call stack recorded for debugging: \<open>mem\<close> is the memory in words, \<open>ebp\<close> the frame pointer the
  walk starts from.
\<close>

primrec callerpcs :: "nat \<Rightarrow> (nat \<Rightarrow> nat) \<Rightarrow> nat \<Rightarrow> nat list" where
  "callerpcs 0 mem ebp = []"
| "callerpcs (Suc n) mem ebp =
     (if ebp = 0 \<or> ebp < 0x80000000 \<or> ebp = 0xffffffff then replicate (Suc n) 0
      else mem (ebp + 4) # callerpcs n mem (mem ebp))"

definition getcallerpcs :: "(nat \<Rightarrow> nat) \<Rightarrow> nat \<Rightarrow> nat list" where
  "getcallerpcs mem v = callerpcs 10 mem (v - 8)"

section \<open>Nesting\<close>

definition cpus_ok :: "smp \<Rightarrow> bool" where
  "cpus_ok s \<longleftrightarrow> distinct (map apicid (cpus s))"

lemma set_cpu_simps [simp]:
  "length (cpus (set_cpu k f s)) = length (cpus s)" "locks (set_cpu k f s) = locks s"
  "k < length (cpus s) \<Longrightarrow> cpus (set_cpu k f s) ! k = f (cpus s ! k)"
  "j \<noteq> k \<Longrightarrow> cpus (set_cpu k f s) ! j = cpus s ! j"
  by (simp_all add: set_cpu_def)

lemma set_lock_simps [simp]:
  "cpus (set_lock l f s) = cpus s" "locks (set_lock l f s) = (locks s)(l := f (locks s l))"
  by (simp_all add: set_lock_def)

lemma cpus_ok_set_cpu [simp]:
  assumes "\<And>c. apicid (f c) = apicid c"
  shows "cpus_ok (set_cpu k f s) = cpus_ok s"
proof -
  have "map apicid ((cpus s)[k := f (cpus s ! k)]) = map apicid (cpus s)"
  proof (rule nth_equalityI)
    fix i assume "i < length (map apicid ((cpus s)[k := f (cpus s ! k)]))"
    then show "map apicid ((cpus s)[k := f (cpus s ! k)]) ! i = map apicid (cpus s) ! i"
      using assms by (cases "i = k") auto
  qed simp
  then show ?thesis by (simp add: cpus_ok_def set_cpu_def)
qed

lemma cpus_ok_set_lock [simp]: "cpus_ok (set_lock l f s) = cpus_ok s"
  by (simp add: cpus_ok_def)

lemma mycpu_ok [simp]:
  assumes "cpus_ok s" "k < length (cpus s)" "\<not> eflags_if (cpus s ! k)"
  shows "mycpu k s = Ok k"
proof -
  have "first_idx (\<lambda>c. apicid c = apicid (cpus s ! k)) (cpus s) = Some k"
    using assms(1,2) unfolding first_idx_Some cpus_ok_def by (auto simp: distinct_conv_nth)
  then show ?thesis using assms(3) by (simp add: mycpu_def)
qed

text \<open>The effect of \<^verbatim>\<open>pushcli\<close> and \<^verbatim>\<open>popcli\<close> on the state of the processor.\<close>

definition pushed :: "cpu \<Rightarrow> cpu" where
  "pushed c = c\<lparr>ncli := ncli c + 1, intena := (if ncli c = 0 then eflags_if c else intena c), eflags_if := False\<rparr>"

definition popped :: "cpu \<Rightarrow> cpu" where
  "popped c = c\<lparr>ncli := ncli c - 1, eflags_if := (ncli c = 1 \<and> intena c)\<rparr>"

lemma pushcli_ok:
  assumes "cpus_ok s" "k < length (cpus s)"
  shows "pushcli k s = Ok (set_cpu k pushed s)"
proof -
  have "pushed c = (if ncli c = 0 then c\<lparr>eflags_if := False, intena := eflags_if c, ncli := 1\<rparr>
      else c\<lparr>eflags_if := False, ncli := ncli c + 1\<rparr>)" for c by (cases c) (simp add: pushed_def)
  then show ?thesis using assms by (simp add: pushcli_def Let_def) (simp add: set_cpu_def)
qed

lemma popcli_ok:
  assumes "cpus_ok s" "k < length (cpus s)" "\<not> eflags_if (cpus s ! k)" "1 \<le> ncli (cpus s ! k)"
  shows "popcli k s = Ok (set_cpu k popped s)"
proof -
  have "popped (cpus s ! k) = (if ncli (cpus s ! k) = 1 \<and> intena (cpus s ! k)
      then (cpus s ! k)\<lparr>ncli := 0, eflags_if := True\<rparr> else (cpus s ! k)\<lparr>ncli := ncli (cpus s ! k) - 1\<rparr>)"
    using assms(3) by (cases "cpus s ! k") (auto simp: popped_def)
  then show ?thesis using assms by (auto simp: popcli_def Let_def set_cpu_def)
qed

text \<open>\<^verbatim>\<open>holding\<close> leaves everything but a stale \<^verbatim>\<open>intena\<close> as it was.\<close>

definition checked :: "cpu \<Rightarrow> cpu" where
  "checked c = c\<lparr>intena := (if ncli c = 0 then eflags_if c else intena c)\<rparr>"

definition calm :: "cpu \<Rightarrow> bool" where
  "calm c \<longleftrightarrow> 0 \<le> ncli c \<and> (0 < ncli c \<longrightarrow> \<not> eflags_if c)"

lemma holding_ok:
  assumes "cpus_ok s" "k < length (cpus s)" "calm (cpus s ! k)"
  shows "holding k l s = Ok (sl_locked (locks s l) \<and> sl_cpu (locks s l) = Some k, set_cpu k checked s)"
proof -
  have a: "apicid (pushed c) = apicid c" "\<not> eflags_if (pushed c)" "ncli (pushed c) = ncli c + 1" for c
    by (simp_all add: pushed_def)
  have "popped (pushed (cpus s ! k)) = checked (cpus s ! k)"
    using assms(3) by (auto simp: popped_def pushed_def checked_def calm_def)
  then have "set_cpu k popped (set_cpu k pushed s) = set_cpu k checked s"
    using assms(2) by (simp add: set_cpu_def)
  moreover have "popcli k (set_cpu k pushed s) = Ok (set_cpu k popped (set_cpu k pushed s))"
    by (rule popcli_ok) (use assms a in \<open>auto simp: calm_def\<close>)
  moreover have "mycpu k (set_cpu k pushed s) = Ok k" by (rule mycpu_ok) (use assms a in auto)
  ultimately show ?thesis using assms(1,2) by (simp add: holding_def pushcli_ok)
qed

lemma acquire_enter_ok:
  assumes "cpus_ok s" "k < length (cpus s)" "calm (cpus s ! k)"
  shows "acquire_enter k l s =
    (if sl_locked (locks s l) \<and> sl_cpu (locks s l) = Some k then Panic ''acquire'' else Ok (set_cpu k pushed s))"
proof -
  have "holding k l (set_cpu k pushed s) =
      Ok (sl_locked (locks s l) \<and> sl_cpu (locks s l) = Some k, set_cpu k checked (set_cpu k pushed s))"
    by (subst holding_ok) (use assms in \<open>auto simp: pushed_def calm_def\<close>)
  moreover have "checked (pushed (cpus s ! k)) = pushed (cpus s ! k)"
    using assms(3) by (auto simp: pushed_def checked_def calm_def)
  then have "set_cpu k checked (set_cpu k pushed s) = set_cpu k pushed s" using assms(2) by (simp add: set_cpu_def)
  ultimately show ?thesis using assms(1,2) by (simp add: acquire_enter_def pushcli_ok)
qed

lemma release_enter_ok:
  assumes "cpus_ok s" "k < length (cpus s)" "calm (cpus s ! k)"
  shows "release_enter k l s =
    (if sl_locked (locks s l) \<and> sl_cpu (locks s l) = Some k
     then Ok (set_lock l (\<lambda>lk. lk\<lparr>sl_pcs0 := 0, sl_cpu := None\<rparr>) (set_cpu k checked s)) else Panic ''release'')"
  using holding_ok [OF assms] by (simp add: release_enter_def)

section \<open>Interleaving\<close>

text \<open>
  Where the code of a processor is: in its own code, spinning for a lock, between the \<^verbatim>\<open>xchg\<close> and the record of the
  holder, before the store that opens the lock, or before the last \<^verbatim>\<open>popcli\<close>. \<open>own\<close> are the locks its code holds, and
  \<open>base\<close> is the interrupt flag its code chose outside of critical sections.
\<close>

datatype lpc = Run | Spin nat | Got nat | Rel nat | Pop

record conf =
  mach :: smp
  pc :: "nat \<Rightarrow> lpc"
  own :: "nat \<Rightarrow> nat list"
  base :: "nat \<Rightarrow> bool"

inductive lock_step :: "conf \<Rightarrow> conf \<Rightarrow> bool" where
  enter: "k < length (cpus (mach c)) \<Longrightarrow> pc c k = Run \<Longrightarrow> acquire_enter k l (mach c) = Ok s \<Longrightarrow>
    lock_step c (c\<lparr>mach := s, pc := (pc c)(k := Spin l)\<rparr>)"
| spin: "k < length (cpus (mach c)) \<Longrightarrow> pc c k = Spin l \<Longrightarrow> xchg l (mach c) = (True, s) \<Longrightarrow>
    lock_step c (c\<lparr>mach := s\<rparr>)"
| got: "k < length (cpus (mach c)) \<Longrightarrow> pc c k = Spin l \<Longrightarrow> xchg l (mach c) = (False, s) \<Longrightarrow>
    lock_step c (c\<lparr>mach := s, pc := (pc c)(k := Got l)\<rparr>)"
| record_holder: "k < length (cpus (mach c)) \<Longrightarrow> pc c k = Got l \<Longrightarrow> acquire_record k l (mach c) = Ok s \<Longrightarrow>
    lock_step c (c\<lparr>mach := s, pc := (pc c)(k := Run), own := (own c)(k := l # own c k)\<rparr>)"
| leave: "k < length (cpus (mach c)) \<Longrightarrow> pc c k = Run \<Longrightarrow> release_enter k l (mach c) = Ok s \<Longrightarrow>
    lock_step c (c\<lparr>mach := s, pc := (pc c)(k := Rel l), own := (own c)(k := remove1 l (own c k))\<rparr>)"
| store: "k < length (cpus (mach c)) \<Longrightarrow> pc c k = Rel l \<Longrightarrow>
    lock_step c (c\<lparr>mach := release_store l (mach c), pc := (pc c)(k := Pop)\<rparr>)"
| pop: "k < length (cpus (mach c)) \<Longrightarrow> pc c k = Pop \<Longrightarrow> popcli k (mach c) = Ok s \<Longrightarrow>
    lock_step c (c\<lparr>mach := s, pc := (pc c)(k := Run)\<rparr>)"
| set_if: "k < length (cpus (mach c)) \<Longrightarrow> pc c k = Run \<Longrightarrow> own c k = [] \<Longrightarrow>
    lock_step c (c\<lparr>mach := set_cpu k (\<lambda>cp. cp\<lparr>eflags_if := b\<rparr>) (mach c), base := (base c)(k := b)\<rparr>)"

definition init_conf :: "conf \<Rightarrow> bool" where
  "init_conf c \<longleftrightarrow> cpus_ok (mach c) \<and> (\<forall>k. pc c k = Run \<and> own c k = []) \<and>
     (\<forall>k < length (cpus (mach c)). ncli (cpus (mach c) ! k) = 0 \<and> base c k = eflags_if (cpus (mach c) ! k)) \<and>
     (\<forall>l. \<not> sl_locked (locks (mach c) l) \<and> sl_cpu (locks (mach c) l) = None)"

section \<open>The invariant\<close>

text \<open>\<open>k\<close> has taken lock \<open>l\<close>: it holds it, or is about to record it, or to open it.\<close>

definition has :: "conf \<Rightarrow> nat \<Rightarrow> nat \<Rightarrow> bool" where
  "has c k l \<longleftrightarrow> l \<in> set (own c k) \<or> pc c k = Got l \<or> pc c k = Rel l"

definition cpu_inv :: "lpc \<Rightarrow> nat list \<Rightarrow> bool \<Rightarrow> cpu \<Rightarrow> bool" where
  "cpu_inv p ls b c \<longleftrightarrow>
     distinct ls \<and> ncli c = int (length ls) + (if p = Run then 0 else 1) \<and>
     (ncli c = 0 \<longrightarrow> eflags_if c = b) \<and> (0 < ncli c \<longrightarrow> \<not> eflags_if c \<and> intena c = b) \<and>
     (\<forall>l. p = Spin l \<or> p = Got l \<or> p = Rel l \<longrightarrow> l \<notin> set ls)"

definition lock_inv :: "conf \<Rightarrow> bool" where
  "lock_inv c \<longleftrightarrow>
     cpus_ok (mach c) \<and>
     (\<forall>k < length (cpus (mach c)). cpu_inv (pc c k) (own c k) (base c k) (cpus (mach c) ! k)) \<and>
     (\<forall>l. sl_locked (locks (mach c) l) \<longleftrightarrow> (\<exists>k < length (cpus (mach c)). has c k l)) \<and>
     (\<forall>l. \<forall>j < length (cpus (mach c)). \<forall>k < length (cpus (mach c)). has c j l \<longrightarrow> has c k l \<longrightarrow> j = k) \<and>
     (\<forall>l k. sl_cpu (locks (mach c) l) = Some k \<longleftrightarrow> k < length (cpus (mach c)) \<and> l \<in> set (own c k))"

lemma lock_invD:
  assumes "lock_inv c" "k < length (cpus (mach c))"
  shows "cpus_ok (mach c)" "cpu_inv (pc c k) (own c k) (base c k) (cpus (mach c) ! k)"
    "sl_locked (locks (mach c) l) \<longleftrightarrow> has c k l \<or> (\<exists>j < length (cpus (mach c)). j \<noteq> k \<and> has c j l)"
    "has c k l \<Longrightarrow> j < length (cpus (mach c)) \<Longrightarrow> has c j l \<Longrightarrow> j = k"
    "sl_cpu (locks (mach c) l) = Some k \<longleftrightarrow> l \<in> set (own c k)"
    "calm (cpus (mach c) ! k)"
proof -
  note I = assms(1) [unfolded lock_inv_def]
  show "cpus_ok (mach c)" using I by blast
  show i: "cpu_inv (pc c k) (own c k) (base c k) (cpus (mach c) ! k)" using I assms(2) by blast
  show "sl_locked (locks (mach c) l) \<longleftrightarrow> has c k l \<or> (\<exists>j < length (cpus (mach c)). j \<noteq> k \<and> has c j l)"
    using I assms(2) by metis
  show "has c k l \<Longrightarrow> j < length (cpus (mach c)) \<Longrightarrow> has c j l \<Longrightarrow> j = k" using I assms(2) by blast
  show "sl_cpu (locks (mach c) l) = Some k \<longleftrightarrow> l \<in> set (own c k)" using I assms(2) by simp
  show "calm (cpus (mach c) ! k)" using i by (simp add: cpu_inv_def calm_def)
qed

text \<open>A step of processor \<open>k\<close> keeps the invariant if it does so for \<open>k\<close> and the locks.\<close>

lemma lock_inv_change:
  assumes I: "lock_inv c" and k: "k < length (cpus (mach c))"
    and m: "cpus (mach c') = (cpus (mach c))[k := cp]" "apicid cp = apicid (cpus (mach c) ! k)"
    and c': "pc c' = (pc c)(k := p)" "own c' = (own c)(k := ls)" "base c' = (base c)(k := b)"
    and cp: "cpu_inv p ls b cp"
    and lk: "\<And>l. sl_locked (locks (mach c') l) \<longleftrightarrow> (l \<in> set ls \<or> p = Got l \<or> p = Rel l) \<or>
      (\<exists>j < length (cpus (mach c)). j \<noteq> k \<and> has c j l)"
    and ex: "\<And>l j. l \<in> set ls \<or> p = Got l \<or> p = Rel l \<Longrightarrow> j < length (cpus (mach c)) \<Longrightarrow> j \<noteq> k \<Longrightarrow> \<not> has c j l"
    and sc: "\<And>l j. sl_cpu (locks (mach c') l) = Some j \<longleftrightarrow>
      (if j = k then l \<in> set ls else sl_cpu (locks (mach c) l) = Some j)"
  shows "lock_inv c'"
proof -
  have h: "has c' j l \<longleftrightarrow> (if j = k then l \<in> set ls \<or> p = Got l \<or> p = Rel l else has c j l)" for j l
    by (simp add: has_def c')
  have "map apicid (cpus (mach c')) = map apicid (cpus (mach c))"
    unfolding m(1) map_update m(2) using k by (metis list_update_id nth_map)
  then have 1: "cpus_ok (mach c')" using I by (simp add: lock_inv_def cpus_ok_def)
  have 2: "cpu_inv (pc c' j) (own c' j) (base c' j) (cpus (mach c') ! j)" if "j < length (cpus (mach c))" for j
    using cp lock_invD(2) [OF I that] k unfolding m(1) c' by (cases "j = k") auto
  have 3: "sl_locked (locks (mach c') l) \<longleftrightarrow> (\<exists>j < length (cpus (mach c)). has c' j l)" for l
    unfolding lk h using k by auto
  have 4: "i = j" if "i < length (cpus (mach c))" "j < length (cpus (mach c))" "has c' i l" "has c' j l" for i j l
    using that ex [of l i] ex [of l j] lock_invD(4) [OF I that(1), of l j] unfolding h by (auto split: if_splits)
  have 5: "sl_cpu (locks (mach c') l) = Some j \<longleftrightarrow> j < length (cpus (mach c)) \<and> l \<in> set (own c' j)" for j l
    using I k unfolding sc c' lock_inv_def by auto
  show ?thesis unfolding lock_inv_def using 1 2 3 4 5 by (simp add: m(1))
qed

lemma lock_step_inv:
  assumes "lock_step c c'" "lock_inv c"
  shows "lock_inv c'"
  using assms
proof (induction rule: lock_step.induct)
  case (enter k c l s)
  note I = lock_invD [OF enter.prems enter.hyps(1)]
  have s: "s = set_cpu k pushed (mach c)" "\<not> (sl_locked (locks (mach c) l) \<and> sl_cpu (locks (mach c) l) = Some k)"
    using enter.hyps(3) I acquire_enter_ok [OF I(1) enter.hyps(1) I(6), of l] by (auto split: if_splits)
  have l: "l \<notin> set (own c k)" using s(2) I(3,5) by (auto simp: has_def)
  have "cpu_inv (Spin l) (own c k) (base c k) (pushed (cpus (mach c) ! k))"
    using I(2) l enter.hyps(2) by (auto simp: cpu_inv_def pushed_def)
  then show ?case
    by (intro lock_inv_change [OF enter.prems enter.hyps(1)])
      (use enter.hyps I(3,4,5) s in \<open>auto simp: set_cpu_def has_def pushed_def\<close>)
next
  case (spin k c l s)
  note I = lock_invD [OF spin.prems spin.hyps(1)]
  have s: "s = set_lock l (\<lambda>lk. lk\<lparr>sl_locked := True\<rparr>) (mach c)" "sl_locked (locks (mach c) l)"
    using spin.hyps(3) by (auto simp: xchg_def)
  show ?case
    by (rule lock_inv_change [OF spin.prems spin.hyps(1) _ _ _ _ _ I(2)])
      (use I(3,4,5) s in \<open>auto simp: has_def\<close>)
next
  case (got k c l s)
  note I = lock_invD [OF got.prems got.hyps(1)]
  have s: "s = set_lock l (\<lambda>lk. lk\<lparr>sl_locked := True\<rparr>) (mach c)" "\<not> sl_locked (locks (mach c) l)"
    using got.hyps(3) by (auto simp: xchg_def)
  have "cpu_inv (Got l) (own c k) (base c k) (cpus (mach c) ! k)" using I(2) got.hyps(2) by (auto simp: cpu_inv_def)
  then show ?case
    by (intro lock_inv_change [OF got.prems got.hyps(1)])
      (use got.hyps(2) I(3,4,5) s in \<open>auto simp: has_def\<close>)
next
  case (record_holder k c l s)
  note I = lock_invD [OF record_holder.prems record_holder.hyps(1)]
  have "\<not> eflags_if (cpus (mach c) ! k)" using I(2) record_holder.hyps(2) by (auto simp: cpu_inv_def)
  then have s: "s = set_lock l (\<lambda>lk. lk\<lparr>sl_cpu := Some k\<rparr>) (mach c)"
    using record_holder.hyps(1,3) I(1) by (auto simp: acquire_record_def)
  have inv: "cpu_inv Run (l # own c k) (base c k) (cpus (mach c) ! k)"
    using I(2) record_holder.hyps(2) by (auto simp: cpu_inv_def)
  have no: "sl_cpu (locks (mach c) l) \<noteq> Some j" for j
    using I(4) [of l j] record_holder.hyps(2) record_holder.prems I(2)
    by (cases "j = k") (auto simp: lock_inv_def has_def cpu_inv_def)
  show ?case
    by (rule lock_inv_change [OF record_holder.prems record_holder.hyps(1) _ _ _ _ _ inv])
      (use record_holder.hyps(2) I(3,4,5) s no in \<open>auto simp: has_def\<close>)
next
  case (leave k c l s)
  note I = lock_invD [OF leave.prems leave.hyps(1)]
  have s: "s = set_lock l (\<lambda>lk. lk\<lparr>sl_pcs0 := 0, sl_cpu := None\<rparr>) (set_cpu k checked (mach c))"
    "sl_cpu (locks (mach c) l) = Some k"
    using leave.hyps(3) release_enter_ok [OF I(1) leave.hyps(1) I(6), of l] by (auto split: if_splits)
  have l: "l \<in> set (own c k)" using s(2) I(5) by simp
  have no: "sl_cpu (locks (mach c) l) = Some j \<Longrightarrow> j = k" for j using s(2) by simp
  have len: "length (own c k) = Suc (length (remove1 l (own c k)))"
    using length_pos_if_in_set [OF l] l by (simp add: length_remove1)
  have inv: "cpu_inv (Rel l) (remove1 l (own c k)) (base c k) (checked (cpus (mach c) ! k))"
    using I(2) leave.hyps(2) l len by (auto simp: cpu_inv_def checked_def simp del: length_remove1)
  show ?case
    by (rule lock_inv_change [OF leave.prems leave.hyps(1) _ _ _ _ _ inv])
      (use leave.hyps(2) I(2,3,4,5) s(1) l no in \<open>auto simp: has_def set_cpu_def checked_def cpu_inv_def\<close>)
next
  case (store k c l)
  note I = lock_invD [OF store.prems store.hyps(1)]
  have inv: "cpu_inv Pop (own c k) (base c k) (cpus (mach c) ! k)" using I(2) store.hyps(2) by (auto simp: cpu_inv_def)
  have l: "l \<notin> set (own c k)" "\<And>j. j < length (cpus (mach c)) \<Longrightarrow> j \<noteq> k \<Longrightarrow> \<not> has c j l"
    using I(2) I(4) [of l] store.hyps(2) by (auto simp: cpu_inv_def has_def)
  show ?case
    by (rule lock_inv_change [OF store.prems store.hyps(1) _ _ _ _ _ inv])
      (use store.hyps(2) I(3,4,5) l in \<open>auto simp: has_def release_store_def\<close>)
next
  case (pop k c s)
  note I = lock_invD [OF pop.prems pop.hyps(1)]
  have s: "s = set_cpu k popped (mach c)"
    using pop.hyps I(2) popcli_ok [OF I(1) pop.hyps(1)] by (auto simp: cpu_inv_def)
  have inv: "cpu_inv Run (own c k) (base c k) (popped (cpus (mach c) ! k))"
    using I(2) pop.hyps(2) by (auto simp: cpu_inv_def popped_def)
  show ?case
    by (rule lock_inv_change [OF pop.prems pop.hyps(1) _ _ _ _ _ inv])
      (use pop.hyps(2) I(3,4,5) s in \<open>auto simp: has_def set_cpu_def popped_def\<close>)
next
  case (set_if k c b)
  note I = lock_invD [OF set_if.prems set_if.hyps(1)]
  have inv: "cpu_inv Run [] b ((cpus (mach c) ! k)\<lparr>eflags_if := b\<rparr>)"
    using I(2) set_if.hyps by (auto simp: cpu_inv_def)
  show ?case
    by (rule lock_inv_change [OF set_if.prems set_if.hyps(1) _ _ _ _ _ inv])
      (use set_if.hyps(2,3) I(3,4,5) in \<open>auto simp: has_def set_cpu_def\<close>)
qed

lemma lock_reach_inv:
  assumes "init_conf c0" "lock_step\<^sup>*\<^sup>* c0 c"
  shows "lock_inv c"
  using assms(2)
proof (induction rule: rtranclp_induct)
  case base
  show ?case using assms(1) by (auto simp: init_conf_def lock_inv_def cpu_inv_def has_def)
qed (rule lock_step_inv)

text \<open>
  \<^bold>\<open>C14\<close>. Spin locks exclude each other on any number of processors, for every interleaving of the atomic actions of
  \<^verbatim>\<open>acquire\<close> and \<^verbatim>\<open>release\<close>: a lock has at most one holder, a processor that holds a lock has interrupts off, and with its
  last release the interrupt flag is what it was before. \<^verbatim>\<open>acquire\<close> panics exactly on a lock the processor already
  holds, \<^verbatim>\<open>release\<close> exactly on one it does not hold, and the final \<^verbatim>\<open>popcli\<close> never does.
\<close>

theorem spinlock_exclusion:
  assumes "init_conf c0" "lock_step\<^sup>*\<^sup>* c0 c" "j < length (cpus (mach c))" "k < length (cpus (mach c))"
  shows "(l \<in> set (own c j) \<and> l \<in> set (own c k) \<longrightarrow> j = k) \<and>
    (own c k \<noteq> [] \<longrightarrow> \<not> eflags_if (cpus (mach c) ! k)) \<and>
    (pc c k = Run \<and> own c k = [] \<longrightarrow> eflags_if (cpus (mach c) ! k) = base c k) \<and>
    (acquire_enter k l (mach c) = Panic ''acquire'' \<longleftrightarrow> l \<in> set (own c k)) \<and>
    (release_enter k l (mach c) = Panic ''release'' \<longleftrightarrow> l \<notin> set (own c k)) \<and>
    (pc c k = Pop \<longrightarrow> (\<exists>s. popcli k (mach c) = Ok s))"
proof -
  note inv = lock_reach_inv [OF assms(1,2)] and k = assms(4)
  note I = lock_invD [OF inv k]
  have h: "sl_locked (locks (mach c) l) \<and> sl_cpu (locks (mach c) l) = Some k \<longleftrightarrow> l \<in> set (own c k)"
    using I(3) [of l] I(5) [of l] by (auto simp: has_def)
  have "l \<in> set (own c j) \<and> l \<in> set (own c k) \<longrightarrow> j = k" using I(4) [of l j] assms(3) by (auto simp: has_def)
  moreover have "own c k \<noteq> [] \<longrightarrow> \<not> eflags_if (cpus (mach c) ! k)"
    "pc c k = Run \<and> own c k = [] \<longrightarrow> eflags_if (cpus (mach c) ! k) = base c k"
    using I(2) by (auto simp: cpu_inv_def)
  moreover have "acquire_enter k l (mach c) = Panic ''acquire'' \<longleftrightarrow> l \<in> set (own c k)"
    unfolding acquire_enter_ok [OF I(1) k I(6)] h by simp
  moreover have "release_enter k l (mach c) = Panic ''release'' \<longleftrightarrow> l \<notin> set (own c k)"
    unfolding release_enter_ok [OF I(1) k I(6)] h by simp
  moreover have "pc c k = Pop \<longrightarrow> (\<exists>s. popcli k (mach c) = Ok s)"
    using popcli_ok [OF I(1) k] I(2) by (auto simp: cpu_inv_def)
  ultimately show ?thesis by blast
qed

text \<open>Two processors with interrupts on.\<close>

definition two_cpus :: conf where
  "two_cpus = \<lparr>mach = \<lparr>cpus = [\<lparr>apicid = 4, ncli = 0, intena = False, eflags_if = True\<rparr>,
       \<lparr>apicid = 9, ncli = 0, intena = False, eflags_if = True\<rparr>],
     locks = (\<lambda>_. \<lparr>sl_locked = False, sl_cpu = None, sl_pcs0 = 0\<rparr>)\<rparr>,
     pc = (\<lambda>_. Run), own = (\<lambda>_. []), base = (\<lambda>_. True)\<rparr>"

theorem spinlock_exclusion_witness:
  "\<exists>c. lock_step\<^sup>*\<^sup>* two_cpus c \<and> own c 0 = [7] \<and> \<not> eflags_if (cpus (mach c) ! 0) \<and>
     acquire_enter 0 7 (mach c) = Panic ''acquire'' \<and> release_enter 1 7 (mach c) = Panic ''release''"
proof -
  let ?m = "\<lambda>lk. \<lparr>cpus = [\<lparr>apicid = 4, ncli = 1, intena = True, eflags_if = False\<rparr>,
    \<lparr>apicid = 9, ncli = 0, intena = False, eflags_if = True\<rparr>],
    locks = (\<lambda>_. \<lparr>sl_locked = False, sl_cpu = None, sl_pcs0 = 0\<rparr>)(7 := lk)\<rparr>"
  define c1 where "c1 = two_cpus\<lparr>mach := ?m \<lparr>sl_locked = False, sl_cpu = None, sl_pcs0 = 0\<rparr>, pc := (pc two_cpus)(0 := Spin 7)\<rparr>"
  define c2 where "c2 = c1\<lparr>mach := ?m \<lparr>sl_locked = True, sl_cpu = None, sl_pcs0 = 0\<rparr>, pc := (pc c1)(0 := Got 7)\<rparr>"
  define c3 where "c3 = c2\<lparr>mach := ?m \<lparr>sl_locked = True, sl_cpu = Some 0, sl_pcs0 = 0\<rparr>, pc := (pc c2)(0 := Run),
    own := (own c2)(0 := 7 # own c2 0)\<rparr>"
  have i: "init_conf two_cpus" by (auto simp: init_conf_def two_cpus_def cpus_ok_def less_Suc_eq)
  have s1: "lock_step two_cpus c1" unfolding c1_def
    by (rule lock_step.enter) (simp_all add: two_cpus_def acquire_enter_ok cpus_ok_def calm_def pushed_def set_cpu_def fun_upd_def)
  have s2: "lock_step c1 c2" unfolding c2_def
    by (rule lock_step.got [where l = 7]) (simp_all add: c1_def xchg_def set_lock_def)
  have s3: "lock_step c2 c3" unfolding c3_def
    by (rule lock_step.record_holder [where l = 7])
      (simp_all add: c2_def acquire_record_def set_lock_def cpus_ok_def mycpu_def)
  have r: "lock_step\<^sup>*\<^sup>* two_cpus c3"
    by (rule rtranclp.rtrancl_into_rtrancl [OF rtranclp.rtrancl_into_rtrancl [OF r_into_rtranclp [of lock_step, OF s1] s2] s3])
  have o: "own c3 0 = [7]" "own c3 1 = []" "length (cpus (mach c3)) = 2"
    by (simp_all add: c3_def c2_def c1_def two_cpus_def)
  show ?thesis
    using spinlock_exclusion [OF i r, of 0 0 7] spinlock_exclusion [OF i r, of 0 1 7] r o by (intro exI [of _ c3]) simp
qed

end
