(* ===== verification/Proc.thy ===== *)
theory Proc
  imports SysFile Vm Spinlock
begin

text \<open>
  The process table of proc.c: creation, exit, waiting, sleeping, waking, killing and scheduling of processes, on top of
  the file system state and of the page tables, and the system calls of sysproc.c. The operations that hold
  \<^verbatim>\<open>ptable.lock\<close> are single functions here; the theory Ptable runs them in any order and has their invariant, the theory Sleep
  looks inside \<^verbatim>\<open>sleep\<close> and \<^verbatim>\<open>wakeup\<close>. What the file system does to wake other processes is a step of its own there.
\<close>

section \<open>State\<close>

datatype procstate = UNUSED | EMBRYO | SLEEPING | RUNNABLE | RUNNING | ZOMBIE

text \<open>What a process can sleep on: nothing (0), the entry of a process, the counter of clock ticks, or another address.\<close>

datatype chan = NoChan | ChProc nat | ChTicks | ChAddr nat

text \<open>The trap frame, without its padding.\<close>

record trapframe =
  tr_edi :: nat
  tr_esi :: nat
  tr_ebp :: nat
  tr_oesp :: nat
  tr_ebx :: nat
  tr_edx :: nat
  tr_ecx :: nat
  tr_eax :: nat
  tr_gs :: nat
  tr_fs :: nat
  tr_es :: nat
  tr_ds :: nat
  tr_trapno :: nat
  tr_err :: nat
  tr_eip :: nat
  tr_cs :: nat
  tr_eflags :: nat
  tr_esp :: nat
  tr_ss :: nat

definition zero_tf :: trapframe where
  "zero_tf = \<lparr>tr_edi = 0, tr_esi = 0, tr_ebp = 0, tr_oesp = 0, tr_ebx = 0, tr_edx = 0, tr_ecx = 0, tr_eax = 0, tr_gs = 0, tr_fs = 0,
     tr_es = 0, tr_ds = 0, tr_trapno = 0, tr_err = 0, tr_eip = 0, tr_cs = 0, tr_eflags = 0, tr_esp = 0, tr_ss = 0\<rparr>"

text \<open>Where a process continues in the kernel when it is scheduled for the first time, or later.\<close>

datatype kpc = Forkret | Resume

record proc =
  p_sz :: nat
  p_pgdir :: nat
  p_kstack :: nat
  p_state :: procstate
  p_pid :: int
  p_parent :: "nat option"
  p_tf :: trapframe
  p_context :: kpc
  p_chan :: chan
  p_killed :: bool
  p_ofile :: "nat option list"
  p_cwd :: "nat option"
  p_name :: block

abbreviation (input) NPROC :: nat where "NPROC \<equiv> 64"

text \<open>
  The kernel: files and memory (\<open>kfs\<close>), the paging registers, the linker's \<^verbatim>\<open>data\<close>, and the process table. A process is named
  by its index in the table.
\<close>

record kstate =
  kfs :: file_state
  k_cr3 :: nat
  k_kpgdir :: nat
  k_esp0 :: nat
  k_msgs :: "string list"
  k_data :: nat
  procs :: "proc list"
  nextpid :: int
  initproc :: nat
  ticks :: uint

definition set_proc :: "nat \<Rightarrow> (proc \<Rightarrow> proc) \<Rightarrow> kstate \<Rightarrow> kstate" where
  "set_proc i f s = s\<lparr>procs := (procs s)[i := f (procs s ! i)]\<rparr>"

definition put_kmem :: "kmem_state \<Rightarrow> kstate \<Rightarrow> kstate" where
  "put_kmem k s = s\<lparr>kfs := (kfs s)\<lparr>kmem := k\<rparr>\<rparr>"

text \<open>The state the functions of vm.c work on, and its new value put back.\<close>

definition vm_of :: "kstate \<Rightarrow> vm_state" where
  "vm_of s = kmem_state.extend (kmem (kfs s)) (vm_state.fields (k_cr3 s) (k_kpgdir s) (k_esp0 s) (k_msgs s))"

definition put_vm :: "vm_state \<Rightarrow> kstate \<Rightarrow> kstate" where
  "put_vm v s = put_kmem (kmem_state.truncate v) (s\<lparr>k_cr3 := cr3 v, k_kpgdir := kpgdir v, k_esp0 := ts_esp0 v, k_msgs := vm_msgs v\<rparr>)"

text \<open>What the kernel reads at the address \<open>va\<close> below \<^const>\<open>KERNBASE\<close> while the page directory \<open>pd\<close> is in use; unmapped addresses are never read.\<close>

definition user_view :: "nat \<Rightarrow> kmem_state \<Rightarrow> block" where
  "user_view pd k va = (case xlate (kmem_mem k) pd va of None \<Rightarrow> 0 | Some (pa, fl) \<Rightarrow> kmem_mem k (P2V pa + va mod PGSIZE))"

text \<open>The files as the process \<open>cur\<close> sees them: what \<^verbatim>\<open>myproc()\<close> gives to the functions of the file system.\<close>

definition as_proc :: "nat \<Rightarrow> kstate \<Rightarrow> kstate" where
  "as_proc cur s =
     (let p = procs s ! cur in
      s\<lparr>kfs := (kfs s)\<lparr>mypid := nat (p_pid p), cwd := (case p_cwd p of None \<Rightarrow> cwd (kfs s) | Some ip \<Rightarrow> ip), ofile := p_ofile p,
        killed := p_killed p, proc_sz := p_sz p, umem := user_view (p_pgdir p) (kmem (kfs s)), tf_esp := tr_esp (p_tf p)\<rparr>\<rparr>)"

section \<open>Creating processes\<close>

text \<open>\<^verbatim>\<open>nextpid++\<close> is signed: past the largest \<^verbatim>\<open>int\<close> the source has no meaning.\<close>

definition allocproc :: "kstate \<Rightarrow> (nat option \<times> kstate) res" where
  "allocproc s =
     (case first_idx (\<lambda>p. p_state p = UNUSED) (procs s) of
        None \<Rightarrow> Ok (None, s)
      | Some i \<Rightarrow>
          if nextpid s = 2147483647 then Undef ''nextpid++''
          else
            let s = set_proc i (\<lambda>p. p\<lparr>p_state := EMBRYO, p_pid := nextpid s\<rparr>) s;
                s = s\<lparr>nextpid := nextpid s + 1\<rparr>
            in
            (case kalloc (kmem (kfs s)) of
               (mem, k) \<Rightarrow>
                 let s = set_proc i (\<lambda>p. p\<lparr>p_kstack := mem\<rparr>) (put_kmem k s) in
                 if mem = 0 then Ok (None, set_proc i (\<lambda>p. p\<lparr>p_state := UNUSED\<rparr>) s)
                 else Ok (Some i, set_proc i (\<lambda>p. p\<lparr>p_context := Forkret\<rparr>) s)))"

text \<open>The first process; \<open>code\<close> is the image of initcode.S.\<close>

definition userinit :: "byte list \<Rightarrow> kstate \<Rightarrow> kstate res" where
  "userinit code s =
     rbind (allocproc s) (\<lambda>(p, s).
     case p of
       None \<Rightarrow> Undef ''userinit''
     | Some p \<Rightarrow>
         let s = s\<lparr>initproc := p\<rparr> in
         rbind (setupkvm (k_data s) (kmem (kfs s))) (\<lambda>(d, k).
         let s = set_proc p (\<lambda>x. x\<lparr>p_pgdir := d\<rparr>) (put_kmem k s) in
         if d = 0 then Panic ''userinit: out of memory?''
         else
           rbind (inituvm d code (kmem (kfs s))) (\<lambda>k.
           let s = set_proc p (\<lambda>x. x\<lparr>p_sz := PGSIZE,
                     p_tf := zero_tf\<lparr>tr_cs := 27, tr_ds := 35, tr_es := 35, tr_ss := 35, tr_eflags := 512, tr_esp := PGSIZE, tr_eip := 0\<rparr>,
                     p_name := safestrcpy (p_name x) (cstr (lit ''initcode'')) 16\<rparr>) (put_kmem k s) in
           rbind (namei (lit ''/'') (kfs s)) (\<lambda>(ip, f).
           Ok (set_proc p (\<lambda>x. x\<lparr>p_cwd := ip, p_state := RUNNABLE\<rparr>) (s\<lparr>kfs := f\<rparr>))))))"

definition growproc :: "nat \<Rightarrow> int \<Rightarrow> kstate \<Rightarrow> (int \<times> kstate) res" where
  "growproc cur n s =
     (let p = procs s ! cur; sz = p_sz p; newsz = nat ((int sz + n) mod 4294967296);
          fin = (\<lambda>sz s.
            let s = set_proc cur (\<lambda>x. x\<lparr>p_sz := sz\<rparr>) s in
            rbind (switchuvm (Some (p_kstack p, p_pgdir p)) (vm_of s)) (\<lambda>v. Ok (0, put_vm v s)))
      in
      if 0 < n then
        rbind (allocuvm (p_pgdir p) sz newsz (vm_of s)) (\<lambda>(r, v).
        if r = 0 then Ok (- 1, put_vm v s) else fin r (put_vm v s))
      else if n < 0 then
        rbind (deallocuvm (p_pgdir p) sz newsz (vm_of s)) (\<lambda>(r, v).
        if r = 0 then Ok (- 1, put_vm v s) else fin r (put_vm v s))
      else fin sz s)"

text \<open>The loop over the open files in \<^verbatim>\<open>fork\<close>.\<close>

definition fork_file :: "nat \<Rightarrow> nat \<Rightarrow> nat \<Rightarrow> kstate \<Rightarrow> kstate res" where
  "fork_file cur np i s =
     (case p_ofile (procs s ! cur) ! i of
        None \<Rightarrow> Ok s
      | Some f \<Rightarrow>
          rbind (filedup f (kfs s)) (\<lambda>fs. Ok (set_proc np (\<lambda>x. x\<lparr>p_ofile := (p_ofile x)[i := Some f]\<rparr>) (s\<lparr>kfs := fs\<rparr>))))"

definition fork_cwd :: "nat option \<Rightarrow> kstate \<Rightarrow> (nat option \<times> kstate) res" where
  "fork_cwd c s =
     (case c of
        None \<Rightarrow> Undef ''idup''
      | Some ip \<Rightarrow> (case idup ip (kfs s) of (ip, fs) \<Rightarrow> Ok (Some ip, s\<lparr>kfs := fs\<rparr>)))"

text \<open>What \<^verbatim>\<open>fork\<close> does once \<^verbatim>\<open>allocproc\<close> has given it the entry \<open>np\<close>.\<close>

definition fork_fill :: "nat \<Rightarrow> nat \<Rightarrow> kstate \<Rightarrow> (int \<times> kstate) res" where
  "fork_fill cur np s =
     rbind (copyuvm (k_data s) (p_pgdir (procs s ! cur)) (p_sz (procs s ! cur)) (kmem (kfs s))) (\<lambda>(d, k).
     let s = set_proc np (\<lambda>x. x\<lparr>p_pgdir := d\<rparr>) (put_kmem k s) in
     if d = 0 then
       rbind (kfree (p_kstack (procs s ! np)) (kmem (kfs s))) (\<lambda>k.
       Ok (- 1, set_proc np (\<lambda>x. x\<lparr>p_kstack := 0, p_state := UNUSED\<rparr>) (put_kmem k s)))
     else
       let c = procs s ! cur;
           s = set_proc np (\<lambda>x. x\<lparr>p_sz := p_sz c, p_parent := Some cur, p_tf := (p_tf c)\<lparr>tr_eax := 0\<rparr>\<rparr>) s
       in
       rbind (each_res (fork_file cur np) [0..<NOFILE] s) (\<lambda>s.
       rbind (fork_cwd (p_cwd (procs s ! cur)) s) (\<lambda>(ip, s).
       let s = set_proc np (\<lambda>x. x\<lparr>p_cwd := ip, p_name := safestrcpy (p_name x) (p_name (procs s ! cur)) 16\<rparr>) s;
           pid = p_pid (procs s ! np)
       in Ok (pid, set_proc np (\<lambda>x. x\<lparr>p_state := RUNNABLE\<rparr>) s))))"

definition fork :: "nat \<Rightarrow> kstate \<Rightarrow> (int \<times> kstate) res" where
  "fork cur s =
     rbind (allocproc s) (\<lambda>(np, s).
     case np of
       None \<Rightarrow> Ok (- 1, s)
     | Some np \<Rightarrow> fork_fill cur np s)"

section \<open>Sleeping and waking\<close>

definition wakeup1 :: "chan \<Rightarrow> kstate \<Rightarrow> kstate" where
  "wakeup1 ch s =
     s\<lparr>procs := map (\<lambda>p. if p_state p = SLEEPING \<and> p_chan p = ch then p\<lparr>p_state := RUNNABLE\<rparr> else p) (procs s)\<rparr>"

text \<open>The lock of the table is held around it.\<close>

definition wakeup :: "chan \<Rightarrow> kstate \<Rightarrow> kstate" where
  "wakeup ch s = wakeup1 ch s"

text \<open>The checks of \<^verbatim>\<open>sched\<close> before it switches to the scheduler.\<close>

definition sched :: "bool \<Rightarrow> int \<Rightarrow> bool \<Rightarrow> nat \<Rightarrow> kstate \<Rightarrow> kstate res" where
  "sched holding_ptable ncli_cpu interruptible cur s =
     (if \<not> holding_ptable then Panic ''sched ptable.lock''
      else if ncli_cpu \<noteq> 1 then Panic ''sched locks''
      else if p_state (procs s ! cur) = RUNNING then Panic ''sched running''
      else if interruptible then Panic ''sched interruptible''
      else Ok (set_proc cur (\<lambda>p. p\<lparr>p_context := Resume\<rparr>) s))"

text \<open>
  The part of \<^verbatim>\<open>sleep\<close> before the switch and the part after it; \<open>has_lk\<close> says that a lock was given. Here the
  lock of the table has been taken and \<^verbatim>\<open>lk\<close>, the only other one, released: the lock is held, \<^verbatim>\<open>ncli\<close> is 1 and
  interrupts are off, which is what \<^verbatim>\<open>sched\<close> is given. The locks themselves are in the theory Sleep.
\<close>

definition sleep_enter :: "nat option \<Rightarrow> bool \<Rightarrow> chan \<Rightarrow> kstate \<Rightarrow> kstate res" where
  "sleep_enter p has_lk ch s =
     (case p of
        None \<Rightarrow> Panic ''sleep''
      | Some p \<Rightarrow>
          if \<not> has_lk then Panic ''sleep without lk''
          else sched True 1 False p (set_proc p (\<lambda>x. x\<lparr>p_chan := ch, p_state := SLEEPING\<rparr>) s))"

definition sleep_leave :: "nat \<Rightarrow> kstate \<Rightarrow> kstate" where
  "sleep_leave p s = set_proc p (\<lambda>x. x\<lparr>p_chan := NoChan\<rparr>) s"

definition yield :: "nat \<Rightarrow> kstate \<Rightarrow> kstate res" where
  "yield cur s = sched True 1 False cur (set_proc cur (\<lambda>p. p\<lparr>p_state := RUNNABLE\<rparr>) s)"

definition kill :: "int \<Rightarrow> kstate \<Rightarrow> int \<times> kstate" where
  "kill pid s =
     (case first_idx (\<lambda>p. p_pid p = pid) (procs s) of
        None \<Rightarrow> (- 1, s)
      | Some i \<Rightarrow>
          (0, set_proc i (\<lambda>p. p\<lparr>p_killed := True, p_state := (if p_state p = SLEEPING then RUNNABLE else p_state p)\<rparr>) s))"

text \<open>The body of the loop of \<^verbatim>\<open>scheduler\<close>: before the switch to the process, and after the process has switched back.\<close>

definition scheduler_run :: "nat \<Rightarrow> kstate \<Rightarrow> kstate res" where
  "scheduler_run i s =
     (if p_state (procs s ! i) \<noteq> RUNNABLE then Ok s
      else
        rbind (switchuvm (Some (p_kstack (procs s ! i), p_pgdir (procs s ! i))) (vm_of s)) (\<lambda>v.
        Ok (set_proc i (\<lambda>p. p\<lparr>p_state := RUNNING\<rparr>) (put_vm v s))))"

definition scheduler_back :: "kstate \<Rightarrow> kstate" where
  "scheduler_back s = put_vm (switchkvm (vm_of s)) s"

text \<open>The first process to run finishes the start of the file system.\<close>

definition forkret :: "bool \<Rightarrow> kstate \<Rightarrow> (bool \<times> kstate) res" where
  "forkret first s =
     (if first then
        rbind (iinit 1 (kfs s)) (\<lambda>f.
        rbind (initlog 1 f) (\<lambda>f.
        rbind (cprintf (lit ''ChronoFS: Initialized'' @ [10]) [] (gc_init f)) (\<lambda>f.
        Ok (False, s\<lparr>kfs := f\<rparr>))))
      else Ok (first, s))"

section \<open>Exit and wait\<close>

definition exit_file :: "nat \<Rightarrow> nat \<Rightarrow> kstate \<Rightarrow> kstate res" where
  "exit_file cur fd s =
     (case p_ofile (procs s ! cur) ! fd of
        None \<Rightarrow> Ok s
      | Some f \<Rightarrow>
          rbind (fileclose f (kfs s)) (\<lambda>fs.
          Ok (set_proc cur (\<lambda>p. p\<lparr>p_ofile := (p_ofile p)[fd := None]\<rparr>) (s\<lparr>kfs := fs\<rparr>))))"

definition exit_child :: "nat \<Rightarrow> nat \<Rightarrow> kstate \<Rightarrow> kstate" where
  "exit_child cur i s =
     (if p_parent (procs s ! i) = Some cur then
        let s = set_proc i (\<lambda>p. p\<lparr>p_parent := Some (initproc s)\<rparr>) s in
        if p_state (procs s ! i) = ZOMBIE then wakeup1 (ChProc (initproc s)) s else s
      else s)"

definition parent_chan :: "nat option \<Rightarrow> chan" where
  "parent_chan q = (case q of None \<Rightarrow> NoChan | Some q \<Rightarrow> ChProc q)"

definition exit_cwd :: "nat option \<Rightarrow> file_state \<Rightarrow> file_state res" where
  "exit_cwd c f =
     (case c of
        None \<Rightarrow> Undef ''iput''
      | Some ip \<Rightarrow> rbind (begin_op f) (\<lambda>f. rbind (iput ip f) end_op))"

text \<open>\<^verbatim>\<open>exit\<close> up to the point where it takes the lock of the table, and what it does under that lock.\<close>

definition exit_close :: "nat \<Rightarrow> kstate \<Rightarrow> kstate res" where
  "exit_close cur s =
     rbind (each_res (exit_file cur) [0..<NOFILE] (as_proc cur s)) (\<lambda>s.
     rbind (exit_cwd (p_cwd (procs s ! cur)) (kfs s)) (\<lambda>f.
     Ok (set_proc cur (\<lambda>p. p\<lparr>p_cwd := None\<rparr>) (s\<lparr>kfs := f\<rparr>))))"

definition exit_table :: "nat \<Rightarrow> kstate \<Rightarrow> kstate res" where
  "exit_table cur s =
     (let s = wakeup1 (parent_chan (p_parent (procs s ! cur))) s;
          s = fold (exit_child cur) [0..<NPROC] s;
          s = set_proc cur (\<lambda>p. p\<lparr>p_state := ZOMBIE\<rparr>) s
      in sched True 1 False cur s)"

definition exit :: "nat \<Rightarrow> kstate \<Rightarrow> kstate res" where
  "exit cur s =
     (if cur = initproc s then Panic ''init exiting''
      else rbind (exit_close cur s) (exit_table cur))"

text \<open>A round of the loop of \<^verbatim>\<open>wait\<close>: the pid of a child that has exited, or -1, or \<open>None\<close> when it goes to sleep.\<close>

definition wait_reap :: "nat \<Rightarrow> kstate \<Rightarrow> (int \<times> kstate) res" where
  "wait_reap i s =
     (let p = procs s ! i in
      rbind (kfree (p_kstack p) (kmem (kfs s))) (\<lambda>k.
      let s = set_proc i (\<lambda>p. p\<lparr>p_kstack := 0\<rparr>) (put_kmem k s) in
      rbind (freevm (p_pgdir p) (kmem (kfs s))) (\<lambda>k.
      Ok (p_pid p, set_proc i (\<lambda>p. p\<lparr>p_pid := 0, p_parent := None, p_name := (p_name p)(0 := 0), p_killed := False,
        p_state := UNUSED\<rparr>) (put_kmem k s)))))"

definition wait :: "nat \<Rightarrow> kstate \<Rightarrow> (int option \<times> kstate) res" where
  "wait cur s =
     (case first_idx (\<lambda>p. p_parent p = Some cur \<and> p_state p = ZOMBIE) (procs s) of
        Some i \<Rightarrow> rbind (wait_reap i s) (\<lambda>(pid, s). Ok (Some pid, s))
      | None \<Rightarrow>
          if \<not> list_ex (\<lambda>p. p_parent p = Some cur) (procs s) \<or> p_killed (procs s ! cur) then Ok (Some (- 1), s)
          else rbind (sleep_enter (Some cur) True (ChProc cur) s) (\<lambda>s. Ok (None, s)))"

section \<open>System calls of processes\<close>

definition sys_fork :: "nat \<Rightarrow> kstate \<Rightarrow> (int \<times> kstate) res" where
  "sys_fork cur s = fork cur s"

definition sys_kill :: "nat \<Rightarrow> kstate \<Rightarrow> int \<times> kstate" where
  "sys_kill cur s = (case argint 0 (kfs (as_proc cur s)) of None \<Rightarrow> (- 1, s) | Some pid \<Rightarrow> kill pid s)"

definition sys_getpid :: "nat \<Rightarrow> kstate \<Rightarrow> int" where
  "sys_getpid cur s = p_pid (procs s ! cur)"

definition sys_sbrk :: "nat \<Rightarrow> kstate \<Rightarrow> (int \<times> kstate) res" where
  "sys_sbrk cur s =
     (case argint 0 (kfs (as_proc cur s)) of
        None \<Rightarrow> Ok (- 1, s)
      | Some n \<Rightarrow>
          let addr = to_int32 (p_sz (procs s ! cur)) in
          rbind (growproc cur n s) (\<lambda>(r, s). if r < 0 then Ok (- 1, s) else Ok (addr, s)))"

text \<open>
  The test of the loop of \<^verbatim>\<open>sys_sleep\<close> and its body: the result, or \<open>None\<close> when the process sleeps. The comparison is unsigned,
  so a negative \<open>n\<close> is a long time.
\<close>

definition sys_sleep_round :: "nat \<Rightarrow> int \<Rightarrow> uint \<Rightarrow> kstate \<Rightarrow> (int option \<times> kstate) res" where
  "sys_sleep_round cur n ticks0 s =
     (if ticks s - ticks0 < word_of_int n then
        if p_killed (procs s ! cur) then Ok (Some (- 1), s)
        else rbind (sleep_enter (Some cur) True ChTicks s) (\<lambda>s. Ok (None, s))
      else Ok (Some 0, s))"

definition sys_sleep :: "nat \<Rightarrow> kstate \<Rightarrow> (int option \<times> kstate) res" where
  "sys_sleep cur s =
     (case argint 0 (kfs (as_proc cur s)) of
        None \<Rightarrow> Ok (Some (- 1), s)
      | Some n \<Rightarrow> sys_sleep_round cur n (ticks s) s)"

definition sys_uptime :: "kstate \<Rightarrow> int" where
  "sys_uptime s = sint (ticks s)"

text \<open>The clock interrupt on the first processor.\<close>

definition timer_tick :: "kstate \<Rightarrow> kstate" where
  "timer_tick s = wakeup ChTicks (s\<lparr>ticks := ticks s + 1\<rparr>)"

section \<open>What the operations leave alone\<close>

lemma procs_set_proc [simp]: "procs (set_proc i f s) = (procs s)[i := f (procs s ! i)]"
  by (simp add: set_proc_def)

lemma set_proc_simps [simp]: "kfs (set_proc i f s) = kfs s" "nextpid (set_proc i f s) = nextpid s" "initproc (set_proc i f s) = initproc s"
  by (simp_all add: set_proc_def)

lemma put_simps [simp]:
  "procs (put_kmem k s) = procs s" "nextpid (put_kmem k s) = nextpid s" "initproc (put_kmem k s) = initproc s"
  "procs (put_vm v s) = procs s" "nextpid (put_vm v s) = nextpid s" "initproc (put_vm v s) = initproc s"
  by (simp_all add: put_kmem_def put_vm_def)

lemma as_proc_simps [simp]: "procs (as_proc i s) = procs s" "nextpid (as_proc i s) = nextpid s" "initproc (as_proc i s) = initproc s"
  by (simp_all add: as_proc_def Let_def)

lemma wakeup1_simps [simp]: "nextpid (wakeup1 ch s) = nextpid s" "initproc (wakeup1 ch s) = initproc s"
  "length (procs (wakeup1 ch s)) = length (procs s)"
  by (simp_all add: wakeup1_def)

end
