(* ===== verification/Exec.thy ===== *)
theory Exec
  imports Proc
begin

text \<open>
  \<^verbatim>\<open>exec\<close> of exec.c with the part of vm.c that loads a program from a file, and the system call of sysfile.c that fetches its
  arguments. The lemmas say what a call leaves behind: on success the new image in the process's entry, on failure the old one.
\<close>

section \<open>Loading\<close>

text \<open>
  The loop of \<^verbatim>\<open>loaduvm\<close>, from byte \<open>i\<close> on. Its counter would wrap, and the loop not end, only past the last page of the address
  space; \<^verbatim>\<open>exec\<close> loads below \<^const>\<open>KERNBASE\<close>.
\<close>

function loaduvm_loop :: "nat \<Rightarrow> nat \<Rightarrow> nat \<Rightarrow> nat \<Rightarrow> nat \<Rightarrow> nat \<Rightarrow> kstate \<Rightarrow> (int \<times> kstate) res" where
  "loaduvm_loop pgdir addr ip offset i sz s =
     (if i < sz then
        if 4294967296 \<le> i + PGSIZE then Undef ''loaduvm''
        else
          let pte = fst (walkpgdir pgdir ((addr + i) mod 4294967296) False (kmem (kfs s))) in
          if pte = 0 then Panic ''loaduvm: address should exist''
          else
            let pa = PTE_ADDR (get32 (kmem_mem (kmem (kfs s))) pte);
                n = (if sz - i < PGSIZE then sz - i else PGSIZE)
            in
            rbind (readi ip ((offset + i) mod 4294967296) n (kfs s)) (\<lambda>(r, bs, f).
            let k = (kmem f)\<lparr>kmem_mem := blit (kmem_mem (kmem f)) (P2V pa) (cstr bs) (length bs)\<rparr>;
                s = put_kmem k (s\<lparr>kfs := f\<rparr>)
            in
            if r \<noteq> int n then Ok (- 1, s)
            else loaduvm_loop pgdir addr ip offset (i + PGSIZE) sz s)
      else Ok (0, s))"
  by pat_completeness auto
termination
  by (relation "measure (\<lambda>(pgdir, addr, ip, offset, i, sz, s). sz - i)") auto

declare loaduvm_loop.simps [simp del]

definition loaduvm :: "nat \<Rightarrow> nat \<Rightarrow> nat \<Rightarrow> nat \<Rightarrow> nat \<Rightarrow> kstate \<Rightarrow> (int \<times> kstate) res" where
  "loaduvm pgdir addr ip offset sz s =
     (if addr mod PGSIZE \<noteq> 0 then Panic ''loaduvm: addr must be page aligned''
      else loaduvm_loop pgdir addr ip offset 0 sz s)"

section \<open>The program headers\<close>

abbreviation (input) ELF_MAGIC :: nat where "ELF_MAGIC \<equiv> 1179403647"
abbreviation (input) ELF_PROG_LOAD :: nat where "ELF_PROG_LOAD \<equiv> 1"

record elfhdr =
  eh_magic :: nat
  eh_entry :: nat
  eh_phoff :: nat
  eh_phnum :: nat

definition elfhdr_of :: "byte list \<Rightarrow> elfhdr" where
  "elfhdr_of bs = (let b = cstr bs in \<lparr>eh_magic = get32 b 0, eh_entry = get32 b 24, eh_phoff = get32 b 28, eh_phnum = get16 b 44\<rparr>)"

record proghdr =
  ph_type :: nat
  ph_off :: nat
  ph_vaddr :: nat
  ph_filesz :: nat
  ph_memsz :: nat

definition proghdr_of :: "byte list \<Rightarrow> proghdr" where
  "proghdr_of bs = (let b = cstr bs in
     \<lparr>ph_type = get32 b 0, ph_off = get32 b 4, ph_vaddr = get32 b 8, ph_filesz = get32 b 16, ph_memsz = get32 b 20\<rparr>)"

text \<open>The loop over the program headers, \<open>n\<close> of them left; \<open>None\<close> is a jump to \<^verbatim>\<open>bad\<close>.\<close>

fun exec_load :: "nat \<Rightarrow> nat \<Rightarrow> nat \<Rightarrow> nat \<Rightarrow> nat \<Rightarrow> kstate \<Rightarrow> (nat option \<times> kstate) res" where
  "exec_load ip pgdir 0 off sz s = Ok (Some sz, s)"
| "exec_load ip pgdir (Suc n) off sz s =
     rbind (readi ip off 32 (kfs s)) (\<lambda>(r, bs, f).
     let s = s\<lparr>kfs := f\<rparr>; ph = proghdr_of bs; off' = (off + 32) mod 4294967296; top = (ph_vaddr ph + ph_memsz ph) mod 4294967296 in
     if r \<noteq> 32 then Ok (None, s)
     else if ph_type ph \<noteq> ELF_PROG_LOAD then exec_load ip pgdir n off' sz s
     else if ph_memsz ph < ph_filesz ph then Ok (None, s)
     else if top < ph_vaddr ph then Ok (None, s)
     else
       rbind (allocuvm pgdir sz top (vm_of s)) (\<lambda>(sz, v).
       let s = put_vm v s in
       if sz = 0 then Ok (None, s)
       else if ph_vaddr ph mod PGSIZE \<noteq> 0 then Ok (None, s)
       else
         rbind (loaduvm pgdir (ph_vaddr ph) ip (ph_off ph) (ph_filesz ph) s) (\<lambda>(r, s).
         if r < 0 then Ok (None, s) else exec_load ip pgdir n off' sz s)))"

section \<open>The stack\<close>

definition le32 :: "nat \<Rightarrow> byte list" where
  "le32 w = map (put32 (\<lambda>_. 0) 0 w) [0..<4]"

text \<open>The argument strings are pushed one by one; \<open>us\<close> are the pointers to them so far. \<open>None\<close> is a jump to \<^verbatim>\<open>bad\<close>.\<close>

fun exec_args :: "nat \<Rightarrow> byte list list \<Rightarrow> nat \<Rightarrow> nat list \<Rightarrow> kmem_state \<Rightarrow> ((nat \<times> nat list) option \<times> kmem_state) res" where
  "exec_args pgdir [] sp us k = Ok (Some (sp, us), k)"
| "exec_args pgdir (a # argv) sp us k =
     (if MAXARG \<le> length us then Ok (None, k)
      else
        let sp = (sp + 4294967296 - (length a + 1)) mod 4294967296 div 4 * 4 in
        rbind (copyout pgdir sp (a @ [0]) k) (\<lambda>(r, k).
        if r < 0 then Ok (None, k) else exec_args pgdir argv sp (us @ [sp]) k))"

definition exec_stack :: "nat \<Rightarrow> byte list list \<Rightarrow> nat \<Rightarrow> kmem_state \<Rightarrow> (nat option \<times> kmem_state) res" where
  "exec_stack pgdir argv sp k =
     rbind (exec_args pgdir argv sp [] k) (\<lambda>(r, k).
     case r of
       None \<Rightarrow> Ok (None, k)
     | Some (sp, us) \<Rightarrow>
         let argc = length us;
             ustack = [4294967295, argc, (sp + 4294967296 - (argc + 1) * 4) mod 4294967296] @ us @ [0];
             sp = (sp + 4294967296 - (3 + argc + 1) * 4) mod 4294967296
         in
         rbind (copyout pgdir sp (concat (map le32 ustack)) k) (\<lambda>(r, k).
         if r < 0 then Ok (None, k) else Ok (Some sp, k)))"

fun exec_last :: "byte list \<Rightarrow> byte list \<Rightarrow> byte list" where
  "exec_last lst [] = lst"
| "exec_last lst (c # s) = exec_last (if c = 47 then s else lst) s"

section \<open>exec\<close>

definition exec_bad :: "nat \<Rightarrow> nat option \<Rightarrow> kstate \<Rightarrow> (int \<times> kstate) res" where
  "exec_bad pgdir ip s =
     rbind (if pgdir \<noteq> 0 then rbind (freevm pgdir (kmem (kfs s))) (\<lambda>k. Ok (put_kmem k s)) else Ok s) (\<lambda>s.
     case ip of
       None \<Rightarrow> Ok (- 1, s)
     | Some ip \<Rightarrow> rbind (iunlockput ip (kfs s)) (\<lambda>f. rbind (end_op f) (\<lambda>f. Ok (- 1, s\<lparr>kfs := f\<rparr>))))"

text \<open>From the end of the loading on: the stack and the commit to the new image.\<close>

definition exec_commit :: "nat \<Rightarrow> byte list \<Rightarrow> nat \<Rightarrow> nat \<Rightarrow> nat \<Rightarrow> nat \<Rightarrow> kstate \<Rightarrow> (int \<times> kstate) res" where
  "exec_commit cur path entry pgdir sz sp s =
     (let oldpgdir = p_pgdir (procs s ! cur);
          s = set_proc cur (\<lambda>p. p\<lparr>p_name := safestrcpy (p_name p) (cstr (exec_last path path)) 16, p_pgdir := pgdir, p_sz := sz,
                p_tf := (p_tf p)\<lparr>tr_eip := entry, tr_esp := sp\<rparr>\<rparr>) s
      in
      rbind (switchuvm (Some (p_kstack (procs s ! cur), pgdir)) (vm_of s)) (\<lambda>v.
      let s = put_vm v s in
      rbind (freevm oldpgdir (kmem (kfs s))) (\<lambda>k. Ok (0, put_kmem k s))))"

definition exec_image :: "nat \<Rightarrow> byte list \<Rightarrow> byte list list \<Rightarrow> nat \<Rightarrow> nat \<Rightarrow> nat \<Rightarrow> kstate \<Rightarrow> (int \<times> kstate) res" where
  "exec_image cur path argv entry pgdir sz s =
     (let sz = PGROUNDUP sz in
      rbind (allocuvm pgdir sz ((sz + 2 * PGSIZE) mod 4294967296) (vm_of s)) (\<lambda>(sz, v).
      let s = put_vm v s in
      if sz = 0 then exec_bad pgdir None s
      else
        rbind (clearpteu pgdir (sz - 2 * PGSIZE) (kmem (kfs s))) (\<lambda>k.
        rbind (exec_stack pgdir argv sz k) (\<lambda>(r, k).
        let s = put_kmem k s in
        case r of
          None \<Rightarrow> exec_bad pgdir None s
        | Some sp \<Rightarrow> exec_commit cur path entry pgdir sz sp s))))"

definition exec :: "nat \<Rightarrow> byte list \<Rightarrow> byte list list \<Rightarrow> kstate \<Rightarrow> (int \<times> kstate) res" where
  "exec cur path argv s =
     (let s = as_proc cur s in
      rbind (begin_op (kfs s)) (\<lambda>f.
      rbind (namei path f) (\<lambda>(ip, f).
      case ip of
        None \<Rightarrow>
          rbind (end_op f) (\<lambda>f. rbind (cprintf (lit ''exec: fail'' @ [10]) [] f) (\<lambda>f. Ok (- 1, s\<lparr>kfs := f\<rparr>)))
      | Some ip \<Rightarrow>
          rbind (ilock ip f) (\<lambda>f.
          rbind (readi ip 0 52 f) (\<lambda>(r, bs, f).
          let s = s\<lparr>kfs := f\<rparr>; elf = elfhdr_of bs in
          if r \<noteq> 52 then exec_bad 0 (Some ip) s
          else if eh_magic elf \<noteq> ELF_MAGIC then exec_bad 0 (Some ip) s
          else
            rbind (setupkvm (k_data s) (kmem (kfs s))) (\<lambda>(pgdir, k).
            let s = put_kmem k s in
            if pgdir = 0 then exec_bad 0 (Some ip) s
            else
              rbind (exec_load ip pgdir (eh_phnum elf) (eh_phoff elf) 0 s) (\<lambda>(r, s).
              case r of
                None \<Rightarrow> exec_bad pgdir (Some ip) s
              | Some sz \<Rightarrow>
                  rbind (iunlockput ip (kfs s)) (\<lambda>f.
                  rbind (end_op f) (\<lambda>f.
                  exec_image cur path argv (eh_entry elf) pgdir sz (s\<lparr>kfs := f\<rparr>))))))))))"

definition sys_exec :: "nat \<Rightarrow> kstate \<Rightarrow> (int \<times> kstate) res" where
  "sys_exec cur s =
     (let f = kfs (as_proc cur s) in
      case (argstr 0 f, argint 1 f) of
        (Some path, Some uargv) \<Rightarrow>
          (case sys_exec_args 0 (nat (uargv mod 4294967296)) f of
             None \<Rightarrow> Ok (- 1, s)
           | Some argv \<Rightarrow> exec cur (ustr path f) (map (\<lambda>p. ustr p f) argv) s)
      | _ \<Rightarrow> Ok (- 1, s))"

section \<open>What a call leaves behind\<close>

text \<open>The parts of the state that hold the table.\<close>

abbreviation (input) table :: "kstate \<Rightarrow> proc list \<times> int \<times> nat" where "table s \<equiv> (procs s, nextpid s, initproc s)"

lemma loaduvm_loop_table: "loaduvm_loop pgdir addr ip offset i sz s = Ok (r, s') \<Longrightarrow> table s' = table s"
proof (induction pgdir addr ip offset i sz s rule: loaduvm_loop.induct)
  case (1 pgdir addr ip offset i sz s)
  show ?case
  proof (cases "i < sz")
    case True
    then show ?thesis using 1(2) 1(1) [OF True] by (subst (asm) loaduvm_loop.simps) (auto simp: Let_def split: if_splits)
  qed (use 1(2) in \<open>simp add: loaduvm_loop.simps\<close>)
qed

lemma loaduvm_table: "loaduvm pgdir addr ip offset sz s = Ok (r, s') \<Longrightarrow> table s' = table s"
  by (auto simp: loaduvm_def dest: loaduvm_loop_table split: if_splits)

lemma exec_load_table: "exec_load ip pgdir n off sz s = Ok (r, s') \<Longrightarrow> table s' = table s"
proof (induction n arbitrary: off sz s)
  case (Suc n)
  then show ?case by (auto simp: Let_def split: if_splits dest!: Suc.IH loaduvm_table)
qed simp

lemma exec_bad_table: "exec_bad pgdir ip s = Ok (r, s') \<Longrightarrow> r = - 1 \<and> table s' = table s"
  by (auto simp: exec_bad_def split: if_splits option.splits)

text \<open>The entry of a process that has changed its image.\<close>

definition exec_entry :: "byte list \<Rightarrow> nat \<Rightarrow> nat \<Rightarrow> nat \<Rightarrow> nat \<Rightarrow> proc \<Rightarrow> proc" where
  "exec_entry path entry pgdir sz sp p =
     p\<lparr>p_name := safestrcpy (p_name p) (cstr (exec_last path path)) 16, p_pgdir := pgdir, p_sz := sz, p_tf := (p_tf p)\<lparr>tr_eip := entry, tr_esp := sp\<rparr>\<rparr>"

lemma exec_commit_outcome:
  assumes "exec_commit cur path entry pgdir sz sp s = Ok (r, s')"
  shows "r = 0" "pgdir \<noteq> 0" "procs s' = (procs s)[cur := exec_entry path entry pgdir sz sp (procs s ! cur)]"
    "nextpid s' = nextpid s" "initproc s' = initproc s"
  using assms by (auto simp: exec_commit_def exec_entry_def Let_def switchuvm_def split: if_splits)

lemma exec_image_outcome:
  assumes e: "exec_image cur path argv entry pgdir sz s = Ok (r, s')"
  shows "r = - 1 \<and> table s' = table s \<or>
    (\<exists>pd sz sp. r = 0 \<and> pd \<noteq> 0 \<and> table s' = ((procs s)[cur := exec_entry path entry pd sz sp (procs s ! cur)], nextpid s, initproc s))"
proof -
  obtain sz' v where a: "allocuvm pgdir (PGROUNDUP sz) ((PGROUNDUP sz + 2 * PGSIZE) mod 4294967296) (vm_of s) = Ok (sz', v)"
    using e by (auto simp: exec_image_def Let_def)
  show ?thesis
  proof (cases "sz' = 0")
    case True
    then have "exec_bad pgdir None (put_vm v s) = Ok (r, s')" using e a by (simp add: exec_image_def Let_def)
    from exec_bad_table [OF this] show ?thesis by simp
  next
    case False
    obtain k x k' where k: "clearpteu pgdir (sz' - 2 * PGSIZE) (kmem (kfs (put_vm v s))) = Ok k" "exec_stack pgdir argv sz' k = Ok (x, k')"
      and f: "(case x of None \<Rightarrow> exec_bad pgdir None (put_kmem k' (put_vm v s))
        | Some sp \<Rightarrow> exec_commit cur path entry pgdir sz' sp (put_kmem k' (put_vm v s))) = Ok (r, s')"
      using e a False by (auto simp: exec_image_def Let_def)
    show ?thesis
    proof (cases x)
      case None
      then have "exec_bad pgdir None (put_kmem k' (put_vm v s)) = Ok (r, s')" using f by simp
      from exec_bad_table [OF this] show ?thesis by simp
    next
      case (Some sp)
      then have "exec_commit cur path entry pgdir sz' sp (put_kmem k' (put_vm v s)) = Ok (r, s')" using f by simp
      from exec_commit_outcome [OF this] show ?thesis by auto
    qed
  qed
qed

text \<open>A call of \<^verbatim>\<open>exec\<close> either fails and leaves every entry as it was, or gives the caller the whole new image.\<close>

lemma exec_outcome:
  assumes e: "exec cur path argv s = Ok (r, s')"
  shows "r = - 1 \<and> table s' = table s \<or>
    (\<exists>entry pd sz sp. r = 0 \<and> pd \<noteq> 0 \<and> table s' = ((procs s)[cur := exec_entry path entry pd sz sp (procs s ! cur)], nextpid s, initproc s))"
proof -
  obtain f ip f' where n: "begin_op (kfs (as_proc cur s)) = Ok f" "namei path f = Ok (ip, f')"
    using e by (auto simp: exec_def Let_def)
  show ?thesis
  proof (cases ip)
    case None
    then show ?thesis using e n by (auto simp: exec_def Let_def)
  next
    case (Some i)
    obtain g x bs h where g: "ilock i f' = Ok g" "readi i 0 52 g = Ok (x, bs, h)" using e n Some by (auto simp: exec_def Let_def)
    define t where "t = (as_proc cur s)\<lparr>kfs := h\<rparr>"
    have t: "table t = table s" by (simp add: t_def)
    show ?thesis
    proof (cases "x \<noteq> 52 \<or> eh_magic (elfhdr_of bs) \<noteq> ELF_MAGIC")
      case True
      then have "exec_bad 0 (Some i) t = Ok (r, s')" using e n Some g by (auto simp: exec_def Let_def t_def split: if_splits)
      from exec_bad_table [OF this] t show ?thesis by simp
    next
      case False
      obtain pgdir k where k: "setupkvm (k_data t) (kmem (kfs t)) = Ok (pgdir, k)"
        using e n Some g False by (auto simp: exec_def Let_def t_def)
      show ?thesis
      proof (cases "pgdir = 0")
        case True
        then have "exec_bad 0 (Some i) (put_kmem k t) = Ok (r, s')" using e n Some g False k by (simp add: exec_def Let_def t_def)
        from exec_bad_table [OF this] t show ?thesis by simp
      next
        case pd: False
        obtain y u where u: "exec_load i pgdir (eh_phnum (elfhdr_of bs)) (eh_phoff (elfhdr_of bs)) 0 (put_kmem k t) = Ok (y, u)"
          and rest: "(case y of None \<Rightarrow> exec_bad pgdir (Some i) u
            | Some sz \<Rightarrow> rbind (iunlockput i (kfs u)) (\<lambda>f. rbind (end_op f) (\<lambda>f.
                exec_image cur path argv (eh_entry (elfhdr_of bs)) pgdir sz (u\<lparr>kfs := f\<rparr>)))) = Ok (r, s')"
          using e n Some g False k pd by (auto simp: exec_def Let_def t_def)
        have u': "table u = table s" using exec_load_table [OF u] t by simp
        show ?thesis
        proof (cases y)
          case None
          then have "exec_bad pgdir (Some i) u = Ok (r, s')" using rest by simp
          from exec_bad_table [OF this] u' show ?thesis by simp
        next
          case (Some sz)
          then obtain f where "exec_image cur path argv (eh_entry (elfhdr_of bs)) pgdir sz (u\<lparr>kfs := f\<rparr>) = Ok (r, s')" using rest by auto
          from exec_image_outcome [OF this] u' show ?thesis by auto
        qed
      qed
    qed
  qed
qed

end
