(* ===== verification/Ptable.thy ===== *)
theory Ptable
  imports Exec
begin

text \<open>
  The invariant of the process table and the steps that keep it. Every critical section of proc.c is one step, so that the
  steps of different processes and processors come in any order; in particular a \<^verbatim>\<open>fork\<close> or an \<^verbatim>\<open>exit\<close> can be overtaken between
  its two halves.
\<close>

section \<open>The invariant\<close>

fun live :: "procstate \<Rightarrow> bool" where
  "live UNUSED = False"
| "live EMBRYO = False"
| "live SLEEPING = True"
| "live RUNNABLE = True"
| "live RUNNING = True"
| "live ZOMBIE = False"

definition waits_for_child :: "nat \<Rightarrow> proc \<Rightarrow> bool" where
  "waits_for_child q p \<longleftrightarrow> p_state p = SLEEPING \<and> p_chan p = ChProc q"

text \<open>
  An entry: process ids below the next one; a used entry has an id, a kernel stack and, once it is complete, a page table
  and a parent, the first process apart; a parent is alive, and does not sleep in \<^verbatim>\<open>wait\<close> while its child is a zombie.
\<close>

definition entry_ok :: "kstate \<Rightarrow> nat \<Rightarrow> bool" where
  "entry_ok s i \<longleftrightarrow>
     (let p = procs s ! i in
      0 \<le> p_pid p \<and> p_pid p < nextpid s \<and>
      (p_state p \<noteq> UNUSED \<longrightarrow> p_pid p \<noteq> 0 \<and> p_kstack p \<noteq> 0) \<and>
      (p_state p = UNUSED \<longrightarrow> p_parent p = None) \<and>
      (p_state p \<notin> {UNUSED, EMBRYO} \<longrightarrow> p_pgdir p \<noteq> 0 \<and> (i \<noteq> initproc s \<longrightarrow> p_parent p \<noteq> None)) \<and>
      (case p_parent p of
         None \<Rightarrow> True
       | Some q \<Rightarrow> q < NPROC \<and> q \<noteq> i \<and> live (p_state (procs s ! q)) \<and>
           (p_state p = ZOMBIE \<longrightarrow> \<not> waits_for_child q (procs s ! q))))"

definition pids_distinct :: "kstate \<Rightarrow> bool" where
  "pids_distinct s \<longleftrightarrow>
     (\<forall>i < NPROC. \<forall>j < NPROC. i \<noteq> j \<longrightarrow> p_pid (procs s ! i) = p_pid (procs s ! j) \<longrightarrow> p_pid (procs s ! i) = 0)"

definition ptable_ok :: "kstate \<Rightarrow> bool" where
  "ptable_ok s \<longleftrightarrow>
     length (procs s) = NPROC \<and> 0 < nextpid s \<and>
     initproc s < NPROC \<and> live (p_state (procs s ! initproc s)) \<and> p_parent (procs s ! initproc s) = None \<and>
     (\<forall>i < NPROC. entry_ok s i) \<and> pids_distinct s"

section \<open>The steps\<close>

inductive kstep :: "kstate \<Rightarrow> kstate \<Rightarrow> bool" where
  st_alloc: "allocproc s = Ok (r, s') \<Longrightarrow> kstep s s'"
| st_fork: "\<lbrakk>cur < NPROC; p_state (procs s ! cur) = RUNNING; np < NPROC; p_state (procs s ! np) = EMBRYO; p_parent (procs s ! np) = None;
    fork_fill cur np s = Ok (r, s')\<rbrakk> \<Longrightarrow> kstep s s'"
| st_grow: "\<lbrakk>cur < NPROC; p_state (procs s ! cur) = RUNNING; growproc cur n s = Ok (r, s')\<rbrakk> \<Longrightarrow> kstep s s'"
| st_exec: "\<lbrakk>cur < NPROC; p_state (procs s ! cur) = RUNNING; exec cur path argv s = Ok (r, s')\<rbrakk> \<Longrightarrow> kstep s s'"
| st_close: "\<lbrakk>cur < NPROC; p_state (procs s ! cur) = RUNNING; exit_close cur s = Ok s'\<rbrakk> \<Longrightarrow> kstep s s'"
| st_exit: "\<lbrakk>cur < NPROC; p_state (procs s ! cur) = RUNNING; cur \<noteq> initproc s; exit_table cur s = Ok s'\<rbrakk> \<Longrightarrow> kstep s s'"
| st_wait: "\<lbrakk>cur < NPROC; p_state (procs s ! cur) = RUNNING; wait cur s = Ok (r, s')\<rbrakk> \<Longrightarrow> kstep s s'"
| st_sleep: "\<lbrakk>cur < NPROC; p_state (procs s ! cur) = RUNNING; \<forall>q. ch \<noteq> ChProc q; sleep_enter (Some cur) lk ch s = Ok s'\<rbrakk> \<Longrightarrow> kstep s s'"
| st_awake: "\<lbrakk>cur < NPROC; p_state (procs s ! cur) = RUNNING\<rbrakk> \<Longrightarrow> kstep s (sleep_leave cur s)"
| st_yield: "\<lbrakk>cur < NPROC; p_state (procs s ! cur) = RUNNING; yield cur s = Ok s'\<rbrakk> \<Longrightarrow> kstep s s'"
| st_run: "\<lbrakk>i < NPROC; scheduler_run i s = Ok s'\<rbrakk> \<Longrightarrow> kstep s s'"
| st_back: "kstep s (scheduler_back s)"
| st_first: "forkret b s = Ok (b', s') \<Longrightarrow> kstep s s'"
| st_kill: "kill pid s = (r, s') \<Longrightarrow> kstep s s'"
| st_wakeup: "kstep s (wakeup ch s)"
| st_tick: "kstep s (timer_tick s)"
| st_files: "kstep s (s\<lparr>kfs := f\<rparr>)"

section \<open>Waking\<close>

definition woken :: "chan \<Rightarrow> proc \<Rightarrow> proc" where
  "woken ch p = (if p_state p = SLEEPING \<and> p_chan p = ch then p\<lparr>p_state := RUNNABLE\<rparr> else p)"

lemma wakeup1_nth: "i < length (procs s) \<Longrightarrow> procs (wakeup1 ch s) ! i = woken ch (procs s ! i)"
  by (simp add: wakeup1_def woken_def)

lemma woken_simps [simp]: "p_pid (woken ch p) = p_pid p" "p_parent (woken ch p) = p_parent p" "p_kstack (woken ch p) = p_kstack p"
  "p_pgdir (woken ch p) = p_pgdir p" "p_state (woken ch p) = UNUSED \<longleftrightarrow> p_state p = UNUSED" "p_state (woken ch p) = EMBRYO \<longleftrightarrow> p_state p = EMBRYO"
  "p_state (woken ch p) = ZOMBIE \<longleftrightarrow> p_state p = ZOMBIE" "live (p_state (woken ch p)) \<longleftrightarrow> live (p_state p)"
  by (simp_all add: woken_def)

lemma woken_waits: "waits_for_child q (woken ch p) \<Longrightarrow> waits_for_child q p \<and> ch \<noteq> ChProc q"
  by (auto simp: woken_def waits_for_child_def split: if_splits)

section \<open>Steps that do not touch the table\<close>

text \<open>What the invariant reads of an entry.\<close>

definition face :: "proc \<Rightarrow> procstate \<times> int \<times> nat option \<times> bool \<times> bool \<times> chan" where
  "face p = (p_state p, p_pid p, p_parent p, 0 < p_kstack p, 0 < p_pgdir p, p_chan p)"

definition same_table :: "kstate \<Rightarrow> kstate \<Rightarrow> bool" where
  "same_table s s' \<longleftrightarrow> map face (procs s') = map face (procs s) \<and> nextpid s' = nextpid s \<and> initproc s' = initproc s"

lemma same_table_refl [simp]: "same_table s s"
  by (simp add: same_table_def)

lemma same_table_trans: "same_table s t \<Longrightarrow> same_table t u \<Longrightarrow> same_table s u"
  by (simp add: same_table_def)

lemma same_table_procs: "procs s' = procs s \<Longrightarrow> nextpid s' = nextpid s \<Longrightarrow> initproc s' = initproc s \<Longrightarrow> same_table s s'"
  by (simp add: same_table_def)

lemma same_table_set: "(\<And>p. face (f p) = face p) \<Longrightarrow> same_table s (set_proc i f s)"
  by (simp add: same_table_def map_update [symmetric] list_update_beyond) (metis list_update_id map_update)

lemma same_table_ok:
  assumes "same_table s s'" and "ptable_ok s"
  shows "ptable_ok s'"
proof -
  have l: "length (procs s') = length (procs s)" using assms(1) unfolding same_table_def by (metis length_map)
  have f: "face (procs s' ! i) = face (procs s ! i)" if "i < NPROC" for i
    using assms that l unfolding same_table_def ptable_ok_def by (metis nth_map)
  have e: "entry_ok s' i = entry_ok s i" if i: "i < NPROC" for i
    using f [OF i] f assms(1) by (cases "p_parent (procs s ! i)") (auto simp: entry_ok_def Let_def face_def same_table_def waits_for_child_def)
  have "pids_distinct s' = pids_distinct s" using f by (simp add: pids_distinct_def face_def)
  moreover have "initproc s' = initproc s" "nextpid s' = nextpid s" using assms(1) by (simp_all add: same_table_def)
  moreover have "initproc s < NPROC" using assms(2) by (simp add: ptable_ok_def)
  ultimately show ?thesis using assms(2) e l f [of "initproc s"] by (simp add: ptable_ok_def face_def)
qed

lemma same_table_each:
  assumes "\<And>x t u. f x t = Ok u \<Longrightarrow> same_table t u" and "each_res f xs s = Ok s'"
  shows "same_table s s'"
  using assms(2)
proof (induction xs arbitrary: s)
  case (Cons x xs)
  then obtain t where "f x s = Ok t" "each_res f xs t = Ok s'" by (auto split: res.splits)
  then show ?case using Cons.IH assms(1) same_table_trans by blast
qed simp

section \<open>Steps that change one entry\<close>

lemma ptable_okD:
  assumes "ptable_ok s"
  shows "length (procs s) = NPROC" "initproc s < NPROC" "live (p_state (procs s ! initproc s))" "p_parent (procs s ! initproc s) = None"
    "0 < nextpid s" "\<And>i. i < NPROC \<Longrightarrow> entry_ok s i" "pids_distinct s"
  using assms by (simp_all add: ptable_ok_def)

lemma parentD:
  assumes "ptable_ok s" "j < NPROC" "p_parent (procs s ! j) = Some q"
  shows "q < NPROC" "q \<noteq> j" "live (p_state (procs s ! q))" "p_state (procs s ! j) = ZOMBIE \<Longrightarrow> \<not> waits_for_child q (procs s ! q)"
    "p_state (procs s ! j) \<noteq> UNUSED"
  using ptable_okD(6) [OF assms(1,2)] assms(3) by (auto simp: entry_ok_def Let_def)

lemma pidD:
  assumes "ptable_ok s" "j < NPROC"
  shows "0 \<le> p_pid (procs s ! j)" "p_pid (procs s ! j) < nextpid s" "p_state (procs s ! j) \<noteq> UNUSED \<Longrightarrow> p_pid (procs s ! j) \<noteq> 0"
    "p_state (procs s ! j) \<noteq> UNUSED \<Longrightarrow> p_kstack (procs s ! j) \<noteq> 0"
    "p_state (procs s ! j) = UNUSED \<Longrightarrow> p_parent (procs s ! j) = None"
    "p_state (procs s ! j) \<notin> {UNUSED, EMBRYO} \<Longrightarrow> p_pgdir (procs s ! j) \<noteq> 0"
    "p_state (procs s ! j) \<notin> {UNUSED, EMBRYO} \<Longrightarrow> j \<noteq> initproc s \<Longrightarrow> p_parent (procs s ! j) \<noteq> None"
  using ptable_okD(6) [OF assms] by (auto simp: entry_ok_def Let_def)

lemma dead_has_no_children:
  assumes "ptable_ok s" "\<not> live (p_state (procs s ! i))" "j < NPROC"
  shows "p_parent (procs s ! j) \<noteq> Some i"
  using parentD(3) [OF assms(1,3)] assms(2) by blast

lemma table_update:
  assumes ok: "ptable_ok s" and i: "i < NPROC" and p: "procs s' = (procs s)[i := p']"
    and n: "initproc s' = initproc s" "nextpid s \<le> nextpid s'"
    and e: "entry_ok s' i"
    and init: "i = initproc s \<Longrightarrow> live (p_state p') \<and> p_parent p' = None"
    and kids: "\<And>j. j < NPROC \<Longrightarrow> j \<noteq> i \<Longrightarrow> p_parent (procs s ! j) = Some i \<Longrightarrow>
      live (p_state p') \<and> (p_state (procs s ! j) = ZOMBIE \<longrightarrow> \<not> waits_for_child i p')"
    and pid: "p_pid p' = p_pid (procs s ! i) \<or> p_pid p' = 0 \<or> p_pid p' = nextpid s"
  shows "ptable_ok s'"
proof -
  note D = ptable_okD [OF ok]
  have nth: "procs s' ! j = (if j = i then p' else procs s ! j)" if "j < NPROC" for j using p D(1) that by simp
  have e': "entry_ok s' j" if j: "j < NPROC" for j
  proof (cases "j = i")
    case False
    have "case p_parent (procs s ! j) of None \<Rightarrow> True | Some q \<Rightarrow> q < NPROC \<and> q \<noteq> j \<and> live (p_state (procs s' ! q)) \<and>
        (p_state (procs s ! j) = ZOMBIE \<longrightarrow> \<not> waits_for_child q (procs s' ! q))"
    proof (cases "p_parent (procs s ! j)")
      case (Some q)
      then show ?thesis using parentD [OF ok j Some] nth [of q] kids [OF j False] by (cases "q = i") simp_all
    qed simp
    then show ?thesis using pidD [OF ok j] n False by (cases "p_parent (procs s ! j)") (auto simp: entry_ok_def Let_def nth [OF j])
  qed (use e in simp)
  have "pids_distinct s'"
    unfolding pids_distinct_def
  proof (intro allI impI)
    fix a b assume ab: "a < NPROC" "b < NPROC" "a \<noteq> b" "p_pid (procs s' ! a) = p_pid (procs s' ! b)"
    have d: "p_pid (procs s ! a) = p_pid (procs s ! b) \<Longrightarrow> p_pid (procs s ! a) = 0" using D(7) ab(1-3) by (simp add: pids_distinct_def)
    show "p_pid (procs s' ! a) = 0"
      using ab d pid pidD(2) [OF ok ab(1)] pidD(2) [OF ok ab(2)] by (auto simp: nth split: if_splits)
  qed
  moreover have "live (p_state (procs s' ! initproc s'))" "p_parent (procs s' ! initproc s') = None"
    using init D(2-4) n by (simp_all add: nth)
  ultimately show ?thesis using D p n e' by (simp add: ptable_ok_def)
qed

section \<open>Every step keeps the invariant\<close>

lemma kept_alloc:
  assumes ok: "ptable_ok s" and a: "allocproc s = Ok (r, s')"
  shows "ptable_ok s'"
proof (cases "first_idx (\<lambda>p. p_state p = UNUSED) (procs s)")
  case None
  then show ?thesis using assms by (simp add: allocproc_def del: first_idx_None)
next
  case (Some i)
  then have i: "i < NPROC" "p_state (procs s ! i) = UNUSED" using ptable_okD(1) [OF ok] by (auto simp: first_idx_Some)
  obtain mem k where k: "kalloc (kmem (kfs s)) = (mem, k)" by fastforce
  define p' where "p' = (if mem = 0 then (procs s ! i)\<lparr>p_pid := nextpid s, p_kstack := mem, p_state := UNUSED\<rparr>
    else (procs s ! i)\<lparr>p_state := EMBRYO, p_pid := nextpid s, p_kstack := mem, p_context := Forkret\<rparr>)"
  have s': "procs s' = (procs s)[i := p']" "initproc s' = initproc s" "nextpid s' = nextpid s + 1"
    using a Some k i ptable_okD(1) [OF ok] by (auto simp: allocproc_def p'_def Let_def split: if_splits)
  have none: "p_parent (procs s ! i) = None" using pidD(5) [OF ok i(1)] i(2) by simp
  show ?thesis
  proof (rule table_update [OF ok i(1) s'(1,2)])
    show "entry_ok s' i" using none ptable_okD(1,5) [OF ok] i s' by (simp add: entry_ok_def Let_def p'_def)
    show "live (p_state p') \<and> p_parent p' = None" if "i = initproc s" using that i ptable_okD(3) [OF ok] by auto
  qed (use s' dead_has_no_children [OF ok, of i] i in \<open>auto simp: p'_def\<close>)
qed

lemma same_fork_file: "fork_file cur np i s = Ok s' \<Longrightarrow> same_table s s'"
  by (auto simp: fork_file_def split: option.splits intro!: same_table_trans [OF _ same_table_set] same_table_procs simp: face_def)

lemma same_fork_cwd: "fork_cwd c s = Ok (ip, s') \<Longrightarrow> same_table s s'"
  by (auto simp: fork_cwd_def split: option.splits prod.splits intro!: same_table_procs)

lemma same_table_nth:
  assumes "same_table s s'" "i < length (procs s)"
  shows "face (procs s' ! i) = face (procs s ! i)" "length (procs s') = length (procs s)"
  using assms unfolding same_table_def by (metis length_map nth_map, metis length_map)

lemma kept_fork:
  assumes ok: "ptable_ok s" and cur: "cur < NPROC" "p_state (procs s ! cur) = RUNNING"
    and np: "np < NPROC" "p_state (procs s ! np) = EMBRYO" "p_parent (procs s ! np) = None" and f: "fork_fill cur np s = Ok (r, s')"
  shows "ptable_ok s'"
proof -
  note l = ptable_okD(1) [OF ok] and P = pidD [OF ok np(1)] and kids = dead_has_no_children [OF ok, of np]
  have ninit: "np \<noteq> initproc s" using ptable_okD(3) [OF ok] np(2) by auto
  obtain d k where d: "copyuvm (k_data s) (p_pgdir (procs s ! cur)) (p_sz (procs s ! cur)) (kmem (kfs s)) = Ok (d, k)"
    using f by (auto simp: fork_fill_def)
  show ?thesis
  proof (cases "d = 0")
    case True
    have s': "procs s' = (procs s)[np := (procs s ! np)\<lparr>p_pgdir := 0, p_kstack := 0, p_state := UNUSED\<rparr>]" "initproc s' = initproc s" "nextpid s' = nextpid s"
      using f d True l np by (auto simp: fork_fill_def Let_def)
    show ?thesis
      by (rule table_update [OF ok np(1) s'(1,2)]) (use s' P np l ninit kids in \<open>auto simp: entry_ok_def Let_def\<close>)
  next
    case False
    define s1 where "s1 = set_proc np (\<lambda>x. x\<lparr>p_sz := p_sz (procs s ! cur), p_parent := Some cur, p_tf := (p_tf (procs s ! cur))\<lparr>tr_eax := 0\<rparr>\<rparr>)
      (set_proc np (\<lambda>x. x\<lparr>p_pgdir := d\<rparr>) (put_kmem k s))"
    have ne: "cur \<noteq> np" using cur np by auto
    obtain s2 ip s3 where s2: "each_res (fork_file cur np) [0..<NOFILE] s1 = Ok s2" and s3: "fork_cwd (p_cwd (procs s2 ! cur)) s2 = Ok (ip, s3)"
      and s': "s' = set_proc np (\<lambda>x. x\<lparr>p_state := RUNNABLE\<rparr>) (set_proc np (\<lambda>x. x\<lparr>p_cwd := ip, p_name := safestrcpy (p_name x) (p_name (procs s3 ! cur)) 16\<rparr>) s3)"
      using f d False ne l np by (auto simp: fork_fill_def Let_def s1_def)
    have ok1: "ptable_ok s1"
      by (rule table_update [OF ok np(1), where p' = "procs s1 ! np"])
        (use P np l ninit kids cur ne False in \<open>auto simp: entry_ok_def Let_def s1_def\<close>)
    define s4 where "s4 = set_proc np (\<lambda>x. x\<lparr>p_cwd := ip, p_name := safestrcpy (p_name x) (p_name (procs s3 ! cur)) 16\<rparr>) s3"
    have sm: "same_table s1 s4"
      unfolding s4_def
      by (rule same_table_trans [OF same_table_trans [OF same_table_each [OF same_fork_file s2] same_fork_cwd [OF s3]] same_table_set]) (simp_all add: face_def)
    have ok4: "ptable_ok s4" by (rule same_table_ok [OF sm ok1])
    have np4: "p_state (procs s4 ! np) = EMBRYO" "p_parent (procs s4 ! np) = Some cur" "0 < p_pgdir (procs s4 ! np)"
      using same_table_nth [OF sm, of np] l np False by (simp_all add: face_def s1_def)
    show ?thesis
      by (rule table_update [OF ok4 np(1), where p' = "(procs s4 ! np)\<lparr>p_state := RUNNABLE\<rparr>"])
        (use pidD [OF ok4 np(1)] parentD [OF ok4 np(1) np4(2)] np4 np(1) ptable_okD(1,3,4) [OF ok4] dead_has_no_children [OF ok4, of np]
          in \<open>auto simp: entry_ok_def Let_def s' s4_def [symmetric]\<close>)
  qed
qed

lemma kept_grow:
  assumes "growproc cur n s = Ok (r, s')"
  shows "same_table s s'"
proof -
  have g: "same_table t (set_proc cur (\<lambda>x. x\<lparr>p_sz := sz\<rparr>) t)" for t sz by (rule same_table_set) (simp add: face_def)
  have v: "same_table t (put_vm v t)" for t v by (rule same_table_procs) simp_all
  have gv: "same_table t (put_vm v (set_proc cur (\<lambda>x. x\<lparr>p_sz := sz\<rparr>) t))" for t v sz by (rule same_table_trans [OF g v])
  have "same_table s (put_vm w (set_proc cur (\<lambda>x. x\<lparr>p_sz := sz\<rparr>) (put_vm v s)))" for v w sz by (rule same_table_trans [OF v gv])
  then show ?thesis using assms gv v by (auto simp: growproc_def Let_def split: if_splits)
qed

lemma same_exit_file: "exit_file cur fd s = Ok s' \<Longrightarrow> same_table s s'"
  by (auto simp: exit_file_def split: option.splits intro!: same_table_trans [OF _ same_table_set] same_table_procs simp: face_def)

lemma kept_close:
  assumes "exit_close cur s = Ok s'"
  shows "same_table s s'"
proof -
  obtain t f where t: "each_res (exit_file cur) [0..<NOFILE] (as_proc cur s) = Ok t"
    and s': "s' = set_proc cur (\<lambda>p. p\<lparr>p_cwd := None\<rparr>) (t\<lparr>kfs := f\<rparr>)"
    using assms by (auto simp: exit_close_def)
  have "same_table s (as_proc cur s)" "same_table t (t\<lparr>kfs := f\<rparr>)" by (rule same_table_procs; simp)+
  moreover have "same_table (as_proc cur s) t" by (rule same_table_each [OF same_exit_file t])
  moreover have "same_table (t\<lparr>kfs := f\<rparr>) s'" unfolding s' by (rule same_table_set) (simp add: face_def)
  ultimately show ?thesis using same_table_trans by blast
qed

lemma kept_wakeup1:
  assumes ok: "ptable_ok s"
  shows "ptable_ok (wakeup1 ch s)"
proof -
  note D = ptable_okD [OF ok]
  have n: "procs (wakeup1 ch s) ! i = woken ch (procs s ! i)" if "i < NPROC" for i using wakeup1_nth D(1) that by simp
  have "entry_ok (wakeup1 ch s) i" if i: "i < NPROC" for i
  proof (cases "p_parent (procs s ! i)")
    case None
    then show ?thesis using pidD [OF ok i] by (auto simp: entry_ok_def Let_def n [OF i])
  next
    case (Some q)
    then show ?thesis using pidD [OF ok i] parentD [OF ok i Some] woken_waits [of q ch "procs s ! q"]
      by (auto simp: entry_ok_def Let_def n [OF i] n)
  qed
  moreover have "pids_distinct (wakeup1 ch s)" using D(7) by (simp add: pids_distinct_def n)
  ultimately show ?thesis using D by (simp add: ptable_ok_def n)
qed

lemma sched_Ok: "p_state (procs s ! cur) \<noteq> RUNNING \<Longrightarrow> sched True 1 False cur s = Ok (set_proc cur (\<lambda>p. p\<lparr>p_context := Resume\<rparr>) s)"
  by (simp add: sched_def)

text \<open>A live process stays live and keeps its place in the family, whatever it does to its state and channel.\<close>

lemma kept_live:
  assumes ok: "ptable_ok s" and i: "i < NPROC" "live (p_state (procs s ! i))"
    and p: "procs s' = (procs s)[i := p']" "initproc s' = initproc s" "nextpid s' = nextpid s"
    and e: "p_pid p' = p_pid (procs s ! i)" "p_parent p' = p_parent (procs s ! i)" "p_kstack p' = p_kstack (procs s ! i)" "p_pgdir p' = p_pgdir (procs s ! i)"
    and l: "live (p_state p')"
    and w: "waits_for_child i p' \<Longrightarrow> \<forall>j < NPROC. \<not> (p_parent (procs s ! j) = Some i \<and> p_state (procs s ! j) = ZOMBIE)"
  shows "ptable_ok s'"
proof -
  have st: "p_state (procs s ! i) \<notin> {UNUSED, EMBRYO, ZOMBIE}" "p_state p' \<notin> {UNUSED, EMBRYO, ZOMBIE}" using i l by auto
  have "entry_ok s' i"
  proof (cases "p_parent (procs s ! i)")
    case None
    then show ?thesis using st pidD [OF ok i(1)] ptable_okD(1) [OF ok] i p e by (auto simp: entry_ok_def Let_def)
  next
    case (Some q)
    then show ?thesis using st pidD [OF ok i(1)] parentD [OF ok i(1) Some] ptable_okD(1) [OF ok] i p e by (auto simp: entry_ok_def Let_def)
  qed
  then show ?thesis by (intro table_update [OF ok i(1) p(1,2)]) (use p e l w ptable_okD(4) [OF ok] in auto)
qed

lemma kept_sleep:
  assumes ok: "ptable_ok s" and cur: "cur < NPROC" "p_state (procs s ! cur) = RUNNING"
    and w: "ch = ChProc cur \<Longrightarrow> \<forall>j < NPROC. \<not> (p_parent (procs s ! j) = Some cur \<and> p_state (procs s ! j) = ZOMBIE)"
    and e: "sleep_enter (Some cur) lk ch s = Ok s'"
  shows "ptable_ok s'"
  by (rule kept_live [OF ok cur(1), where p' = "(procs s ! cur)\<lparr>p_chan := ch, p_state := SLEEPING, p_context := Resume\<rparr>"])
    (use cur e w ptable_okD(1) [OF ok] in \<open>auto simp: sleep_enter_def sched_def waits_for_child_def split: if_splits\<close>)

lemma kept_awake:
  assumes ok: "ptable_ok s" and cur: "cur < NPROC" "p_state (procs s ! cur) = RUNNING"
  shows "ptable_ok (sleep_leave cur s)"
  by (rule kept_live [OF ok cur(1), where p' = "(procs s ! cur)\<lparr>p_chan := NoChan\<rparr>"]) (use cur in \<open>auto simp: sleep_leave_def waits_for_child_def\<close>)

lemma kept_yield:
  assumes ok: "ptable_ok s" and cur: "cur < NPROC" "p_state (procs s ! cur) = RUNNING" and y: "yield cur s = Ok s'"
  shows "ptable_ok s'"
  by (rule kept_live [OF ok cur(1), where p' = "(procs s ! cur)\<lparr>p_state := RUNNABLE, p_context := Resume\<rparr>"])
    (use cur y ptable_okD(1) [OF ok] in \<open>auto simp: yield_def sched_def waits_for_child_def split: if_splits\<close>)

lemma kept_run:
  assumes ok: "ptable_ok s" and i: "i < NPROC" and r: "scheduler_run i s = Ok s'"
  shows "ptable_ok s'"
proof (cases "p_state (procs s ! i) = RUNNABLE")
  case True
  show ?thesis
    by (rule kept_live [OF ok i, where p' = "(procs s ! i)\<lparr>p_state := RUNNING\<rparr>"])
      (use True r in \<open>auto simp: scheduler_run_def waits_for_child_def\<close>)
qed (use ok r in \<open>simp add: scheduler_run_def\<close>)

lemma kept_kill:
  assumes ok: "ptable_ok s" and k: "kill pid s = (r, s')"
  shows "ptable_ok s'"
proof (cases "first_idx (\<lambda>p. p_pid p = pid) (procs s)")
  case None
  then show ?thesis using ok k by (simp add: kill_def del: first_idx_None)
next
  case (Some i)
  then have i: "i < NPROC" using ptable_okD(1) [OF ok] by (simp add: first_idx_Some)
  define p' where "p' = (procs s ! i)\<lparr>p_killed := True, p_state := (if p_state (procs s ! i) = SLEEPING then RUNNABLE else p_state (procs s ! i))\<rparr>"
  have s': "procs s' = (procs s)[i := p']" "initproc s' = initproc s" "nextpid s' = nextpid s"
    using k Some by (auto simp: kill_def p'_def)
  show ?thesis
  proof (cases "p_state (procs s ! i) = SLEEPING")
    case True
    show ?thesis by (rule kept_live [OF ok i _ s']) (use True in \<open>auto simp: p'_def waits_for_child_def\<close>)
  next
    case False
    have "face p' = face (procs s ! i)" using False by (simp add: p'_def face_def)
    then have "same_table s s'" using s' by (simp add: same_table_def map_update) (metis list_update_id map_update)
    then show ?thesis using same_table_ok ok by blast
  qed
qed

lemma kept_exit_child:
  assumes ok: "ptable_ok s" and i: "i < NPROC"
  shows "ptable_ok (exit_child cur i s)"
proof (cases "p_parent (procs s ! i) = Some cur")
  case True
  define t where "t = set_proc i (\<lambda>p. p\<lparr>p_parent := Some (initproc s)\<rparr>) s"
  note D = ptable_okD [OF ok]
  have ni: "i \<noteq> initproc s" using True D(4) by auto
  show ?thesis
  proof (cases "p_state (procs s ! i) = ZOMBIE")
    case False
    have "ptable_ok t"
      by (rule table_update [OF ok i, where p' = "(procs s ! i)\<lparr>p_parent := Some (initproc s)\<rparr>"])
        (use ni D(1-4) pidD [OF ok i] parentD [OF ok i True] i False parentD(3,4) [OF ok, of _ i] in \<open>auto simp: t_def entry_ok_def Let_def waits_for_child_def\<close>)
    then show ?thesis using True False i D(1) by (simp add: exit_child_def t_def)
  next
    case z: True
    define u where "u = wakeup1 (ChProc (initproc s)) s"
    have ok': "ptable_ok u" unfolding u_def by (rule kept_wakeup1 [OF ok])
    have n: "procs u ! j = woken (ChProc (initproc s)) (procs s ! j)" if "j < NPROC" for j using D(1) that by (simp add: u_def wakeup1_nth)
    have uz: "p_state (procs u ! i) = ZOMBIE" using z i by (simp add: n)
    have w: "\<not> waits_for_child (initproc s) (procs u ! initproc s)" using woken_waits D(2) by (metis n)
    have l: "live (p_state (procs u ! initproc s))" using D(2,3) by (simp add: n)
    have iu: "initproc u = initproc s" by (simp add: u_def)
    have k: "p_parent (procs u ! j) \<noteq> Some i" if "j < NPROC" for j using dead_has_no_children [OF ok' _ that, of i] uz by simp
    have lu: "length (procs u) = NPROC" using ptable_okD(1) [OF ok'] .
    define v where "v = set_proc i (\<lambda>p. p\<lparr>p_parent := Some (initproc s)\<rparr>) u"
    have ok2: "ptable_ok v"
      by (rule table_update [OF ok' i, where p' = "(procs u ! i)\<lparr>p_parent := Some (initproc s)\<rparr>"])
        (use ni D(2) pidD [OF ok' i] w l uz iu k i lu in \<open>auto simp: v_def entry_ok_def Let_def\<close>)
    have "procs (exit_child cur i s) = procs v"
      by (rule nth_equalityI) (use True z i D(1) lu in \<open>auto simp: exit_child_def Let_def v_def wakeup1_nth n woken_def nth_list_update\<close>)
    moreover have "initproc (exit_child cur i s) = initproc v" "nextpid (exit_child cur i s) = nextpid v"
      using True by (simp_all add: exit_child_def Let_def v_def u_def)
    ultimately show ?thesis using same_table_ok [OF same_table_procs ok2] by simp
  qed
qed (use ok in \<open>simp add: exit_child_def\<close>)

lemma exit_child_facts:
  assumes "length (procs s) = NPROC" "i < NPROC" "j < NPROC"
  shows "p_parent (procs (exit_child cur i s) ! j) = (if j = i \<and> p_parent (procs s ! i) = Some cur then Some (initproc s) else p_parent (procs s ! j))"
    and "p_state (procs s ! j) = RUNNING \<Longrightarrow> p_state (procs (exit_child cur i s) ! j) = RUNNING"
    and "waits_for_child q (procs (exit_child cur i s) ! j) \<Longrightarrow> waits_for_child q (procs s ! j)"
    and "initproc (exit_child cur i s) = initproc s" "length (procs (exit_child cur i s)) = NPROC"
  using assms by (auto simp: exit_child_def Let_def wakeup1_nth woken_def waits_for_child_def nth_list_update split: if_splits)

text \<open>After the loop no process has \<open>cur\<close> as its parent any more.\<close>

lemma exit_children:
  assumes "ptable_ok s" "set xs \<subseteq> {..<NPROC}" "cur \<noteq> initproc s"
  shows "ptable_ok (fold (exit_child cur) xs s) \<and> initproc (fold (exit_child cur) xs s) = initproc s \<and>
    (\<forall>j < NPROC. (p_state (procs s ! j) = RUNNING \<longrightarrow> p_state (procs (fold (exit_child cur) xs s) ! j) = RUNNING) \<and>
      (\<forall>q. waits_for_child q (procs (fold (exit_child cur) xs s) ! j) \<longrightarrow> waits_for_child q (procs s ! j)) \<and>
      p_parent (procs (fold (exit_child cur) xs s) ! j) =
        (if j \<in> set xs \<and> p_parent (procs s ! j) = Some cur then Some (initproc s) else p_parent (procs s ! j)))"
  using assms
proof (induction xs arbitrary: s)
  case (Cons i xs)
  have i: "i < NPROC" using Cons.prems(2) by simp
  note F = exit_child_facts [OF ptable_okD(1) [OF Cons.prems(1)] i, where cur = cur]
  have n: "initproc (exit_child cur i s) = initproc s" using F(4) [of 0] by simp
  note IH = Cons.IH [of "exit_child cur i s", unfolded n, OF kept_exit_child [OF Cons.prems(1) i] _ Cons.prems(3)]
  have sub: "set xs \<subseteq> {..<NPROC}" using Cons.prems(2) by simp
  show ?case using IH [OF sub] F(1-3) Cons.prems(3) by (simp split: if_splits) (metis option.inject)
qed simp

lemma kept_exit:
  assumes ok: "ptable_ok s" and cur: "cur < NPROC" "p_state (procs s ! cur) = RUNNING" "cur \<noteq> initproc s" and e: "exit_table cur s = Ok s'"
  shows "ptable_ok s'"
proof -
  define s1 where "s1 = wakeup1 (parent_chan (p_parent (procs s ! cur))) s"
  define s2 where "s2 = fold (exit_child cur) [0..<NPROC] s1"
  have pc: "p_state (procs s ! cur) \<notin> {UNUSED, EMBRYO}" using cur by simp
  obtain q where q: "p_parent (procs s ! cur) = Some q" using pidD(7) [OF ok cur(1) pc cur(3)] by auto
  note Q = parentD [OF ok cur(1) q]
  have ok1: "ptable_ok s1" unfolding s1_def by (rule kept_wakeup1 [OF ok])
  have n: "procs s1 ! j = woken (ChProc q) (procs s ! j)" if "j < NPROC" for j
    using that ptable_okD(1) [OF ok] by (simp add: s1_def q parent_chan_def wakeup1_nth)
  have i1: "initproc s1 = initproc s" by (simp add: s1_def)
  have sub: "set [0..<NPROC] \<subseteq> {..<NPROC}" by auto
  have E: "ptable_ok s2" "initproc s2 = initproc s" "\<And>j. j < NPROC \<Longrightarrow> p_state (procs s1 ! j) = RUNNING \<Longrightarrow> p_state (procs s2 ! j) = RUNNING"
    "\<And>j r. j < NPROC \<Longrightarrow> waits_for_child r (procs s2 ! j) \<Longrightarrow> waits_for_child r (procs s1 ! j)"
    "\<And>j. j < NPROC \<Longrightarrow> p_parent (procs s2 ! j) = (if p_parent (procs s1 ! j) = Some cur then Some (initproc s) else p_parent (procs s1 ! j))"
    using exit_children [OF ok1 sub, of cur] cur(3) unfolding s2_def [symmetric] i1 by auto
  have run: "p_state (procs s2 ! cur) = RUNNING" using E(3) [OF cur(1)] cur by (simp add: n woken_def)
  have par: "p_parent (procs s2 ! cur) = Some q" using E(5) [OF cur(1)] q Q(2) cur(1) by (simp add: n)
  have nw: "\<not> waits_for_child q (procs s2 ! q)" using E(4) [OF Q(1)] woken_waits by (metis n Q(1))
  have nk: "p_parent (procs s2 ! j) \<noteq> Some cur" if "j < NPROC" for j using E(5) [OF that] cur(3) by auto
  have s': "s' = set_proc cur (\<lambda>p. p\<lparr>p_context := Resume\<rparr>) (set_proc cur (\<lambda>p. p\<lparr>p_state := ZOMBIE\<rparr>) s2)"
    using e cur ptable_okD(1) [OF E(1)] by (simp add: exit_table_def Let_def s2_def s1_def sched_Ok)
  show ?thesis
    by (rule table_update [OF E(1) cur(1), where p' = "(procs s2 ! cur)\<lparr>p_state := ZOMBIE, p_context := Resume\<rparr>"])
      (use E(2) par nw nk cur run pidD [OF E(1) cur(1)] parentD [OF E(1) cur(1) par] ptable_okD(1) [OF E(1)] in \<open>auto simp: s' entry_ok_def Let_def\<close>)
qed

lemma kept_wait:
  assumes ok: "ptable_ok s" and cur: "cur < NPROC" "p_state (procs s ! cur) = RUNNING" and w: "wait cur s = Ok (r, s')"
  shows "ptable_ok s'"
proof (cases "first_idx (\<lambda>p. p_parent p = Some cur \<and> p_state p = ZOMBIE) (procs s)")
  case None
  then have "\<forall>p \<in> set (procs s). \<not> (p_parent p = Some cur \<and> p_state p = ZOMBIE)" by simp
  then have nz: "\<forall>j < NPROC. \<not> (p_parent (procs s ! j) = Some cur \<and> p_state (procs s ! j) = ZOMBIE)"
    using ptable_okD(1) [OF ok] by (metis nth_mem)
  show ?thesis
  proof (cases "s' = s")
    case False
    then have "sleep_enter (Some cur) True (ChProc cur) s = Ok s'"
      using w None by (auto simp: wait_def simp del: first_idx_None split: if_splits)
    then show ?thesis using kept_sleep [OF ok cur, of "ChProc cur"] nz by blast
  qed (use ok in simp)
next
  case (Some i)
  then have i: "i < NPROC" "p_parent (procs s ! i) = Some cur" "p_state (procs s ! i) = ZOMBIE"
    using ptable_okD(1) [OF ok] by (simp_all add: first_idx_Some)
  define p' where "p' = (procs s ! i)\<lparr>p_kstack := 0, p_pid := 0, p_parent := None, p_name := (p_name (procs s ! i))(0 := 0), p_killed := False, p_state := UNUSED\<rparr>"
  have s': "procs s' = (procs s)[i := p']" "initproc s' = initproc s" "nextpid s' = nextpid s"
    using w Some i ptable_okD(1) [OF ok] by (auto simp: wait_def wait_reap_def Let_def p'_def)
  have ni: "i \<noteq> initproc s" using ptable_okD(4) [OF ok] i by auto
  show ?thesis
    by (rule table_update [OF ok i(1) s'(1,2)])
      (use s' ni i ptable_okD(1,5) [OF ok] dead_has_no_children [OF ok, of i] in \<open>auto simp: entry_ok_def Let_def p'_def\<close>)
qed

lemma kept_exec:
  assumes ok: "ptable_ok s" and cur: "cur < NPROC" "p_state (procs s ! cur) = RUNNING" and e: "exec cur path argv s = Ok (r, s')"
  shows "ptable_ok s'"
proof -
  obtain pd ent sz sp where x: "pd \<noteq> 0 \<and> procs s' = (procs s)[cur := exec_entry path ent pd sz sp (procs s ! cur)] \<or> procs s' = procs s"
    and n: "nextpid s' = nextpid s" "initproc s' = initproc s"
    using exec_outcome [OF e] by auto
  have "face (exec_entry path ent pd sz sp (procs s ! cur)) = face (procs s ! cur)" if "pd \<noteq> 0"
    using that pidD(6) [OF ok cur(1)] cur(2) by (simp add: face_def exec_entry_def)
  then have "same_table s s'" using x n by (simp add: same_table_def map_update) (metis list_update_id map_update)
  then show ?thesis using same_table_ok ok by blast
qed

lemma kept_first: "forkret b s = Ok (b', s') \<Longrightarrow> same_table s s'"
  by (auto simp: forkret_def split: if_splits intro: same_table_procs)

lemma kept_tick:
  assumes "ptable_ok s"
  shows "ptable_ok (timer_tick s)"
proof -
  have "same_table s (s\<lparr>ticks := ticks s + 1\<rparr>)" by (rule same_table_procs) simp_all
  then show ?thesis unfolding timer_tick_def wakeup_def using assms by (blast intro: kept_wakeup1 same_table_ok)
qed

lemma kept_step:
  assumes "kstep s s'" "ptable_ok s"
  shows "ptable_ok s'"
  using assms
proof (induction rule: kstep.induct)
  case (st_back s)
  then show ?case by (auto simp: scheduler_back_def intro: same_table_ok [OF same_table_procs])
next
  case (st_files s f)
  then show ?case by (auto intro: same_table_ok [OF same_table_procs])
qed (auto simp: wakeup_def intro: kept_alloc kept_fork kept_exec kept_exit kept_wait kept_sleep kept_awake kept_yield kept_run kept_kill kept_wakeup1 kept_tick
    same_table_ok [OF kept_grow] same_table_ok [OF kept_close] same_table_ok [OF kept_first])

section \<open>The first process\<close>

definition boot_table :: "kstate \<Rightarrow> bool" where
  "boot_table s \<longleftrightarrow> length (procs s) = NPROC \<and> nextpid s = 1 \<and> (\<forall>p \<in> set (procs s). p_state p = UNUSED \<and> p_pid p = 0 \<and> p_parent p = None)"

lemma userinit_ptable_ok:
  assumes b: "boot_table s" and u: "userinit code s = Ok s'"
  shows "ptable_ok s'"
proof -
  have l: "length (procs s) = NPROC" using b by (simp add: boot_table_def)
  have z: "p_state (procs s ! i) = UNUSED" "p_pid (procs s ! i) = 0" "p_parent (procs s ! i) = None" if "i < NPROC" for i
    using b that by (simp_all add: boot_table_def)
  obtain i t where a: "allocproc s = Ok (Some i, t)" using u by (auto simp: userinit_def split: option.splits)
  then have i: "i < NPROC" "initproc t = initproc s" "nextpid t = 2" "length (procs t) = NPROC"
      "p_pid (procs t ! i) = 1" "p_kstack (procs t ! i) \<noteq> 0" "p_parent (procs t ! i) = None" "\<And>j. j \<noteq> i \<Longrightarrow> procs t ! j = procs s ! j"
    using l b z by (auto simp: allocproc_def Let_def boot_table_def first_idx_Some simp del: first_idx_None split: option.splits if_splits prod.splits)
  obtain p' where s': "procs s' = (procs t)[i := p']" "initproc s' = i" "nextpid s' = nextpid t" "p_pid p' = 1" "p_kstack p' \<noteq> 0" "p_parent p' = None"
      "p_state p' = RUNNABLE" "p_pgdir p' \<noteq> 0"
    using u a i by (auto simp: userinit_def Let_def split: if_splits)
  have nth: "procs s' ! j = (if j = i then p' else procs s ! j)" if "j < NPROC" for j using s' i that by simp
  have "length (procs s') = NPROC" using s' i by simp
  then show ?thesis using i(1,3) s'(2-) z by (auto simp: ptable_ok_def pids_distinct_def entry_ok_def Let_def nth)
qed

section \<open>The property\<close>

lemma scheduler_runs:
  assumes "ptable_ok s" "i < NPROC"
  shows "\<exists>t. scheduler_run i s = Ok t"
  using pidD(4,6) [OF assms] by (auto simp: scheduler_run_def switchuvm_def)

text \<open>
  \<^bold>\<open>C1\<close>. The process table stays well-formed however the operations of proc.c and \<^verbatim>\<open>exec\<close> follow each other. No two
  processes have the same id; a process in use has a kernel stack; every process but the first has a parent, which is
  neither free nor a zombie itself, so that every zombie can be collected; and no parent sleeps in \<^verbatim>\<open>wait\<close> while one of its children
  is a zombie. In such a table the scheduler can run whatever it picks: \<^verbatim>\<open>switchuvm\<close> does not panic.
\<close>

theorem ptable_invariant:
  assumes "ptable_ok s" and "kstep\<^sup>*\<^sup>* s s'"
  shows "ptable_ok s' \<and> (\<forall>i < NPROC. \<exists>t. scheduler_run i s' = Ok t)"
  using assms(2,1) by (induction rule: rtranclp_induct) (auto intro: kept_step scheduler_runs)

definition unused_proc :: proc where
  "unused_proc = \<lparr>p_sz = 0, p_pgdir = 0, p_kstack = 0, p_state = UNUSED, p_pid = 0, p_parent = None, p_tf = zero_tf, p_context = Forkret,
     p_chan = NoChan, p_killed = False, p_ofile = replicate NOFILE None, p_cwd = None, p_name = (\<lambda>_. 0)\<rparr>"

text \<open>The first process waits for its only child, which runs.\<close>

definition two_procs :: kstate where
  "two_procs = \<lparr>kfs = boot_file_state, k_cr3 = 0, k_kpgdir = 0, k_esp0 = 0, k_msgs = [], k_data = 0,
     procs = unused_proc\<lparr>p_sz := 4096, p_pgdir := 2147483648, p_kstack := 2147487744, p_state := SLEEPING, p_pid := 1, p_chan := ChProc 0\<rparr> #
       unused_proc\<lparr>p_sz := 4096, p_pgdir := 2147491840, p_kstack := 2147495936, p_state := RUNNING, p_pid := 2, p_parent := Some 0\<rparr> #
       replicate 62 unused_proc,
     nextpid = 3, initproc = 0, ticks = 0\<rparr>"

lemma two_procs_ok: "ptable_ok two_procs"
proof -
  have n: "procs two_procs ! i = (if i = 0 then procs two_procs ! 0 else if i = 1 then procs two_procs ! 1 else unused_proc)" if "i < NPROC" for i
    using that by (auto simp: two_procs_def nth_Cons split: nat.splits)
  have "entry_ok two_procs i" if "i < NPROC" for i
    unfolding entry_ok_def Let_def n [OF that] by (auto simp: two_procs_def unused_proc_def waits_for_child_def)
  moreover have "pids_distinct two_procs"
    unfolding pids_distinct_def
  proof (intro allI impI)
    fix i j assume h: "i < NPROC" "j < NPROC" "i \<noteq> j" "p_pid (procs two_procs ! i) = p_pid (procs two_procs ! j)"
    show "p_pid (procs two_procs ! i) = 0"
      using h(3,4) unfolding n [OF h(1)] n [OF h(2)] by (auto simp: two_procs_def unused_proc_def split: if_splits)
  qed
  ultimately show ?thesis by (simp add: ptable_ok_def) (simp add: two_procs_def unused_proc_def)
qed

lemma length_fold_exit_child: "length (procs (fold (exit_child cur) xs s)) = length (procs s)"
  by (induction xs arbitrary: s) (simp_all add: exit_child_def Let_def)

lemma exit_table_returns: "cur < length (procs s) \<Longrightarrow> \<exists>s'. exit_table cur s = Ok s'"
  by (simp add: exit_table_def Let_def sched_Ok length_fold_exit_child)

theorem ptable_invariant_witness: "\<exists>s'. exit_table 1 two_procs = Ok s' \<and> ptable_ok s'"
proof -
  obtain s' where e: "exit_table 1 two_procs = Ok s'" using exit_table_returns [of 1 two_procs] by (auto simp: two_procs_def)
  have "kstep two_procs s'" by (rule st_exit [OF _ _ _ e]) (simp_all add: two_procs_def)
  then show ?thesis using ptable_invariant [OF two_procs_ok r_into_rtranclp] e by blast
qed

section \<open>A killed process before it exists\<close>

text \<open>
  The loop of \<^verbatim>\<open>kill\<close> looks at free entries too: \<open>kill 0\<close> succeeds on the first entry with process id 0, and when that is the next
  free entry, the next process created is killed from the start.
\<close>

lemma kill_zero_marks_next_child:
  assumes f: "first_idx (\<lambda>p. p_state p = UNUSED) (procs s) = Some i" and z: "first_idx (\<lambda>p. p_pid p = 0) (procs s) = Some i"
    and a: "allocproc (snd (kill 0 s)) = Ok (Some np, s')"
  shows "fst (kill 0 s) = 0 \<and> np = i \<and> p_killed (procs s' ! np)"
proof -
  have i: "i < length (procs s)" "p_state (procs s ! i) = UNUSED" "\<forall>j < i. p_state (procs s ! j) \<noteq> UNUSED" using f by (auto simp: first_idx_Some)
  have "procs (snd (kill 0 s)) = (procs s)[i := (procs s ! i)\<lparr>p_killed := True, p_state := UNUSED\<rparr>]" using i z by (simp add: kill_def)
  then have "first_idx (\<lambda>p. p_state p = UNUSED) (procs (snd (kill 0 s))) = Some i"
    using i by (simp add: first_idx_Some)
  then show ?thesis using a z i by (auto simp: allocproc_def Let_def kill_def split: if_splits prod.splits)
qed

text \<open>
  A process that gives up all its memory loses the pages, but is told that the call failed and keeps its old size.
\<close>

lemma growproc_all:
  assumes "p_sz (procs s ! cur) = sz" "0 < sz" "deallocuvm (p_pgdir (procs s ! cur)) sz 0 (vm_of s) = Ok (0, v)"
  shows "growproc cur (- int sz) s = Ok (- 1, put_vm v s) \<and> p_sz (procs (put_vm v s) ! cur) = sz"
  using assms by (simp add: growproc_def Let_def)

end
