(* ===== verification/Sleep.thy ===== *)
theory Sleep
  imports Ptable
begin

text \<open>
  \<^verbatim>\<open>sleep\<close> and \<^verbatim>\<open>wakeup\<close> of proc.c as they are used all over the kernel: a lock \<^verbatim>\<open>lk\<close> protects a condition, who needs the condition
  tests it and sleeps under the lock, and who makes it true wakes the sleepers under the lock. Processes on any number of
  processors take the steps below one at a time, in any order. The locks are taken atomically, which the theory Spinlock
  justifies.
\<close>

section \<open>Program counters and state\<close>

text \<open>
  \<open>Test\<close> holds \<^verbatim>\<open>lk\<close>. \<open>SAcq\<close> to \<open>SReacq\<close> are the lines of \<^verbatim>\<open>sleep\<close>: acquire \<^verbatim>\<open>ptable.lock\<close>, release \<^verbatim>\<open>lk\<close>, go to sleep, switch
  away, then asleep, back with \<^verbatim>\<open>ptable.lock\<close> held, reacquire \<^verbatim>\<open>lk\<close>. \<open>WAcq\<close> to \<open>WRel\<close> are the lines of \<^verbatim>\<open>wakeup\<close>.
\<close>

datatype spc = Idle | Test | SAcq | SRel | SMark | SSwitch | SAsleep | STidy | SReacq | WAcq | WScan | WRel | Unlock

record sl_state =
  sl_k :: kstate
  sl_lk :: "nat option"
  sl_pt :: "nat option"
  sl_pc :: "nat \<Rightarrow> spc"
  sl_ready :: bool

definition goto :: "nat \<Rightarrow> spc \<Rightarrow> sl_state \<Rightarrow> sl_state" where
  "goto p c s = s\<lparr>sl_pc := (sl_pc s)(p := c)\<rparr>"

definition asleep_on :: "chan \<Rightarrow> nat \<Rightarrow> sl_state \<Rightarrow> bool" where
  "asleep_on ch p s \<longleftrightarrow> p_state (procs (sl_k s) ! p) = SLEEPING \<and> p_chan (procs (sl_k s) ! p) = ch"

section \<open>The steps\<close>

text \<open>\<open>ch\<close> is the channel of the condition. A kill wakes a sleeper without the condition.\<close>

inductive sleep_step :: "chan \<Rightarrow> sl_state \<Rightarrow> sl_state \<Rightarrow> bool" for ch where
  sl_take: "\<lbrakk>p < NPROC; sl_pc s p = Idle; sl_lk s = None\<rbrakk> \<Longrightarrow> sleep_step ch s (goto p Test (s\<lparr>sl_lk := Some p\<rparr>))"
| sl_need: "\<lbrakk>p < NPROC; sl_pc s p = Test; \<not> sl_ready s\<rbrakk> \<Longrightarrow> sleep_step ch s (goto p SAcq s)"
| sl_use: "\<lbrakk>p < NPROC; sl_pc s p = Test; sl_ready s\<rbrakk> \<Longrightarrow> sleep_step ch s (goto p Unlock (s\<lparr>sl_ready := b\<rparr>))"
| sl_make: "\<lbrakk>p < NPROC; sl_pc s p = Test\<rbrakk> \<Longrightarrow> sleep_step ch s (goto p WAcq (s\<lparr>sl_ready := True\<rparr>))"
| sl_sacq: "\<lbrakk>p < NPROC; sl_pc s p = SAcq; sl_pt s = None\<rbrakk> \<Longrightarrow> sleep_step ch s (goto p SRel (s\<lparr>sl_pt := Some p\<rparr>))"
| sl_srel: "\<lbrakk>p < NPROC; sl_pc s p = SRel\<rbrakk> \<Longrightarrow> sleep_step ch s (goto p SMark (s\<lparr>sl_lk := None\<rparr>))"
| sl_mark: "\<lbrakk>p < NPROC; sl_pc s p = SMark; sleep_enter (Some p) True ch (sl_k s) = Ok k\<rbrakk> \<Longrightarrow> sleep_step ch s (goto p SSwitch (s\<lparr>sl_k := k\<rparr>))"
| sl_switch: "\<lbrakk>p < NPROC; sl_pc s p = SSwitch\<rbrakk> \<Longrightarrow> sleep_step ch s (goto p SAsleep (s\<lparr>sl_pt := None\<rparr>))"
| sl_run: "\<lbrakk>p < NPROC; sl_pc s p = SAsleep; sl_pt s = None; p_state (procs (sl_k s) ! p) = RUNNABLE; scheduler_run p (sl_k s) = Ok k\<rbrakk> \<Longrightarrow>
    sleep_step ch s (goto p STidy (s\<lparr>sl_k := k, sl_pt := Some p\<rparr>))"
| sl_tidy: "\<lbrakk>p < NPROC; sl_pc s p = STidy\<rbrakk> \<Longrightarrow> sleep_step ch s (goto p SReacq (s\<lparr>sl_k := sleep_leave p (sl_k s), sl_pt := None\<rparr>))"
| sl_reacq: "\<lbrakk>p < NPROC; sl_pc s p = SReacq; sl_lk s = None\<rbrakk> \<Longrightarrow> sleep_step ch s (goto p Test (s\<lparr>sl_lk := Some p\<rparr>))"
| sl_wacq: "\<lbrakk>p < NPROC; sl_pc s p = WAcq; sl_pt s = None\<rbrakk> \<Longrightarrow> sleep_step ch s (goto p WScan (s\<lparr>sl_pt := Some p\<rparr>))"
| sl_scan: "\<lbrakk>p < NPROC; sl_pc s p = WScan\<rbrakk> \<Longrightarrow> sleep_step ch s (goto p WRel (s\<lparr>sl_k := wakeup1 ch (sl_k s)\<rparr>))"
| sl_wrel: "\<lbrakk>p < NPROC; sl_pc s p = WRel\<rbrakk> \<Longrightarrow> sleep_step ch s (goto p Unlock (s\<lparr>sl_pt := None\<rparr>))"
| sl_unlock: "\<lbrakk>p < NPROC; sl_pc s p = Unlock\<rbrakk> \<Longrightarrow> sleep_step ch s (goto p Idle (s\<lparr>sl_lk := None\<rparr>))"
| sl_kill: "\<lbrakk>sl_pt s = None; kill pid (sl_k s) = (r, k)\<rbrakk> \<Longrightarrow> sleep_step ch s (s\<lparr>sl_k := k\<rparr>)"

section \<open>The invariant\<close>

fun holds_lk :: "spc \<Rightarrow> bool" where
  "holds_lk c \<longleftrightarrow> c \<in> {Test, SAcq, SRel, WAcq, WScan, WRel, Unlock}"

fun holds_pt :: "spc \<Rightarrow> bool" where
  "holds_pt c \<longleftrightarrow> c \<in> {SRel, SMark, SSwitch, STidy, WScan, WRel}"

definition some_at :: "spc set \<Rightarrow> (nat \<Rightarrow> spc) \<Rightarrow> bool" where
  "some_at A f \<longleftrightarrow> (\<exists>w < NPROC. f w \<in> A)"

definition sleep_inv :: "chan \<Rightarrow> sl_state \<Rightarrow> bool" where
  "sleep_inv ch s \<longleftrightarrow>
     length (procs (sl_k s)) = NPROC \<and>
     (\<forall>p < NPROC. holds_lk (sl_pc s p) \<longrightarrow> sl_lk s = Some p) \<and>
     (\<forall>p < NPROC. holds_pt (sl_pc s p) \<longrightarrow> sl_pt s = Some p) \<and>
     (\<forall>p < NPROC. sl_pc s p \<in> {SAcq, SRel} \<longrightarrow> \<not> sl_ready s) \<and>
     (\<forall>p < NPROC. sl_pc s p = SMark \<and> sl_ready s \<longrightarrow> some_at {WAcq} (sl_pc s)) \<and>
     (\<forall>p < NPROC. asleep_on ch p s \<and> sl_ready s \<longrightarrow> some_at {WAcq, WScan} (sl_pc s))"

lemma goto_simps [simp]: "sl_k (goto p c s) = sl_k s" "sl_lk (goto p c s) = sl_lk s" "sl_pt (goto p c s) = sl_pt s"
  "sl_ready (goto p c s) = sl_ready s" "sl_pc (goto p c s) = (sl_pc s)(p := c)"
  by (simp_all add: goto_def)

lemma some_at_keep: "some_at A f \<Longrightarrow> f p \<notin> A \<Longrightarrow> some_at A (f(p := c))"
  by (auto simp: some_at_def)

lemma some_at_new: "p < NPROC \<Longrightarrow> c \<in> A \<Longrightarrow> some_at A (f(p := c))"
  by (auto simp: some_at_def)

lemma some_at_mono: "some_at A f \<Longrightarrow> A \<subseteq> B \<Longrightarrow> some_at B f"
  by (auto simp: some_at_def)

lemma asleep_on_cong: "sl_k s' = sl_k s \<Longrightarrow> asleep_on ch q s' = asleep_on ch q s"
  by (simp add: asleep_on_def)

lemma mark_sleeps:
  assumes "sleep_enter (Some p) True ch k = Ok k'" "length (procs k) = NPROC" "p < NPROC"
  shows "length (procs k') = NPROC" "q \<noteq> p \<Longrightarrow> procs k' ! q = procs k ! q"
  using assms by (auto simp: sleep_enter_def sched_def split: if_splits)

lemma run_wakes:
  assumes "scheduler_run p k = Ok k'" "p_state (procs k ! p) = RUNNABLE" "length (procs k) = NPROC" "p < NPROC"
  shows "length (procs k') = NPROC" "q \<noteq> p \<Longrightarrow> procs k' ! q = procs k ! q" "p_state (procs k' ! p) = RUNNING"
  using assms by (auto simp: scheduler_run_def)

lemma kill_wakes:
  assumes "kill pid k = (r, k')" "p_state (procs k' ! q) = SLEEPING"
  shows "p_state (procs k ! q) = SLEEPING" "p_chan (procs k' ! q) = p_chan (procs k ! q)" "length (procs k') = length (procs k)"
proof -
  have "procs k' = procs k \<or> (\<exists>i < length (procs k). procs k' =
      (procs k)[i := (procs k ! i)\<lparr>p_killed := True, p_state := (if p_state (procs k ! i) = SLEEPING then RUNNABLE else p_state (procs k ! i))\<rparr>])"
    using assms(1) by (auto simp: kill_def first_idx_Some simp del: first_idx_None split: option.splits)
  then show "p_state (procs k ! q) = SLEEPING" "p_chan (procs k' ! q) = p_chan (procs k ! q)" "length (procs k') = length (procs k)"
    using assms(2) by (auto simp: nth_list_update split: if_splits)
qed

lemma kill_length: "kill pid k = (r, k') \<Longrightarrow> length (procs k') = length (procs k)"
  by (auto simp: kill_def simp del: first_idx_None split: option.splits)

lemma sleep_invD:
  assumes "sleep_inv ch s"
  shows "length (procs (sl_k s)) = NPROC"
    and "\<And>q. q < NPROC \<Longrightarrow> holds_lk (sl_pc s q) \<Longrightarrow> sl_lk s = Some q"
    and "\<And>q. q < NPROC \<Longrightarrow> holds_pt (sl_pc s q) \<Longrightarrow> sl_pt s = Some q"
    and "\<And>q. q < NPROC \<Longrightarrow> sl_pc s q \<in> {SAcq, SRel} \<Longrightarrow> \<not> sl_ready s"
    and "\<And>q. q < NPROC \<Longrightarrow> sl_pc s q = SMark \<Longrightarrow> sl_ready s \<Longrightarrow> some_at {WAcq} (sl_pc s)"
    and "\<And>q. q < NPROC \<Longrightarrow> asleep_on ch q s \<Longrightarrow> sl_ready s \<Longrightarrow> some_at {WAcq, WScan} (sl_pc s)"
  using assms unfolding sleep_inv_def by blast+

text \<open>A step of process \<open>p\<close> to \<open>c\<close>: what has to be looked at for the other processes and for \<open>p\<close> itself.\<close>

lemma sleep_inv_goto:
  assumes inv: "sleep_inv ch s" and p: "p < NPROC"
    and l: "length (procs (sl_k t)) = NPROC" and c: "sl_pc t = sl_pc s"
    and lk: "sl_lk t = sl_lk s \<or> (sl_lk s = None \<or> sl_lk s = Some p)"
    and lk': "holds_lk c \<Longrightarrow> sl_lk t = Some p"
    and pt: "sl_pt t = sl_pt s \<or> (sl_pt s = None \<or> sl_pt s = Some p)"
    and pt': "holds_pt c \<Longrightarrow> sl_pt t = Some p"
    and r: "sl_ready t \<Longrightarrow> \<not> sl_ready s \<Longrightarrow> c = WAcq \<and> sl_lk s = Some p"
    and n: "c \<in> {SAcq, SRel} \<Longrightarrow> \<not> sl_ready t"
    and m: "c = SMark \<Longrightarrow> \<not> sl_ready t"
    and w: "sl_pc s p = WAcq \<Longrightarrow> c = WScan \<and> sl_pt s = None"
    and w': "sl_pc s p = WScan \<Longrightarrow> \<forall>q < NPROC. \<not> asleep_on ch q t"
    and a: "\<And>q. q < NPROC \<Longrightarrow> asleep_on ch q t \<Longrightarrow> asleep_on ch q s \<or> (q = p \<and> sl_pc s p = SMark)"
  shows "sleep_inv ch (goto p c t)"
proof -
  note D = sleep_invD [OF inv]
  have 1: "sl_lk t = Some q" if "q < NPROC" "holds_lk (((sl_pc s)(p := c)) q)" for q
    using that D(2) [of q] lk lk' by (cases "q = p") auto
  have 2: "sl_pt t = Some q" if "q < NPROC" "holds_pt (((sl_pc s)(p := c)) q)" for q
    using that D(3) [of q] pt pt' by (cases "q = p") auto
  have 3: "\<not> sl_ready t" if q: "q < NPROC" "((sl_pc s)(p := c)) q \<in> {SAcq, SRel}" for q
  proof (cases "q = p")
    case False
    then have qs: "sl_pc s q \<in> {SAcq, SRel}" using q by simp
    then show ?thesis using D(2) [OF q(1)] D(4) [OF q(1) qs] r False by auto
  qed (use n q in simp)
  have 4: "some_at {WAcq} ((sl_pc s)(p := c))" if q: "q < NPROC" "((sl_pc s)(p := c)) q = SMark" "sl_ready t" for q
  proof (cases "q = p")
    case False
    then have qs: "sl_pc s q = SMark" using q by simp
    show ?thesis
    proof (cases "sl_ready s")
      case True
      have "sl_pc s p \<noteq> WAcq" using w D(3) [OF q(1)] qs by auto
      then show ?thesis using some_at_keep [OF D(5) [OF q(1) qs True]] by simp
    qed (use r q p in \<open>auto intro: some_at_new\<close>)
  qed (use m q in simp)
  have 5: "some_at {WAcq, WScan} ((sl_pc s)(p := c))" if q: "q < NPROC" "asleep_on ch q (goto p c t)" "sl_ready t" for q
  proof (cases "sl_ready s")
    case True
    have q': "asleep_on ch q t" using q(2) by (simp add: asleep_on_def)
    have "some_at {WAcq, WScan} (sl_pc s)"
      using a [OF q(1) q'] D(5) [OF p _ True] D(6) [OF q(1) _ True] some_at_mono [of "{WAcq}" "sl_pc s" "{WAcq, WScan}"] by blast
    then show ?thesis using some_at_keep [of _ "sl_pc s" p c] some_at_new [OF p, of c] w w' q(1) q' by blast
  qed (use r q p in \<open>auto intro: some_at_new\<close>)
  show ?thesis unfolding sleep_inv_def using l c 1 2 3 4 5 by simp
qed

lemma sleep_inv_step:
  assumes "sleep_step ch s s'" "sleep_inv ch s" "ch \<noteq> NoChan"
  shows "sleep_inv ch s'"
  using assms
proof (induction rule: sleep_step.induct)
  case (sl_mark p s k)
  note D = sleep_invD [OF sl_mark(4)]
  note k = mark_sleeps [OF sl_mark(3) D(1) sl_mark(1)]
  show ?case
    by (rule sleep_inv_goto [OF sl_mark(4,1)]) (use sl_mark k D(3) [OF sl_mark(1)] in \<open>auto simp: asleep_on_def\<close>)
next
  case (sl_run p s k)
  note D = sleep_invD [OF sl_run(6)]
  note k = run_wakes [OF sl_run(5,4) D(1) sl_run(1)]
  have "asleep_on ch q s" if "asleep_on ch q (s\<lparr>sl_k := k, sl_pt := Some p\<rparr>)" for q
    using that k(2,3) by (cases "q = p") (simp_all add: asleep_on_def)
  then show ?case by (intro sleep_inv_goto [OF sl_run(6,1)]) (use sl_run(2,3) k(1) in auto)
next
  case (sl_kill s pid r k)
  have "asleep_on ch q s" if "asleep_on ch q (s\<lparr>sl_k := k\<rparr>)" for q
    using kill_wakes [OF sl_kill(2), of q] that by (simp add: asleep_on_def)
  then show ?case using sleep_invD [OF sl_kill(3)] kill_length [OF sl_kill(2)] unfolding sleep_inv_def by simp
next
  case (sl_scan p s)
  note D = sleep_invD [OF sl_scan(3)]
  have "\<not> asleep_on ch q (s\<lparr>sl_k := wakeup1 ch (sl_k s)\<rparr>)" if "q < NPROC" for q
    using that D(1) by (auto simp: asleep_on_def wakeup1_nth woken_def)
  then show ?case by (intro sleep_inv_goto [OF sl_scan(3,1)]) (use sl_scan(2) D(1) D(2,3) [OF sl_scan(1)] in auto)
next
  case (sl_tidy p s)
  note D = sleep_invD [OF sl_tidy(3)]
  have "asleep_on ch q s" if "asleep_on ch q (s\<lparr>sl_k := sleep_leave p (sl_k s), sl_pt := None\<rparr>)" for q
    using that D(1) sl_tidy(1,4) by (cases "q = p") (auto simp: asleep_on_def sleep_leave_def)
  then show ?case by (intro sleep_inv_goto [OF sl_tidy(3,1)]) (use sl_tidy(2) D(1) D(3) [OF sl_tidy(1)] in \<open>auto simp: sleep_leave_def\<close>)
next
  case (sl_take p s)
  note D = sleep_invD [OF sl_take(4)]
  show ?case by (rule sleep_inv_goto [OF sl_take(4,1)]) (use sl_take D(1) in \<open>auto simp: asleep_on_def\<close>)
next
  case (sl_need p s)
  note D = sleep_invD [OF sl_need(4)]
  show ?case by (rule sleep_inv_goto [OF sl_need(4,1)]) (use sl_need D(1) D(2) [OF sl_need(1)] in \<open>auto simp: asleep_on_def\<close>)
next
  case (sl_use p s b)
  note D = sleep_invD [OF sl_use(4)]
  show ?case by (rule sleep_inv_goto [OF sl_use(4,1)]) (use sl_use D(1) D(2) [OF sl_use(1)] in \<open>auto simp: asleep_on_def\<close>)
next
  case (sl_make p s)
  note D = sleep_invD [OF sl_make(3)]
  show ?case by (rule sleep_inv_goto [OF sl_make(3,1)]) (use sl_make D(1) D(2) [OF sl_make(1)] in \<open>auto simp: asleep_on_def\<close>)
next
  case (sl_sacq p s)
  note D = sleep_invD [OF sl_sacq(4)]
  show ?case by (rule sleep_inv_goto [OF sl_sacq(4,1)]) (use sl_sacq D(1) D(2,4) [OF sl_sacq(1)] in \<open>auto simp: asleep_on_def\<close>)
next
  case (sl_srel p s)
  note D = sleep_invD [OF sl_srel(3)]
  show ?case by (rule sleep_inv_goto [OF sl_srel(3,1)]) (use sl_srel D(1) D(2-4) [OF sl_srel(1)] in \<open>auto simp: asleep_on_def\<close>)
next
  case (sl_switch p s)
  note D = sleep_invD [OF sl_switch(3)]
  show ?case by (rule sleep_inv_goto [OF sl_switch(3,1)]) (use sl_switch D(1) D(3) [OF sl_switch(1)] in \<open>auto simp: asleep_on_def\<close>)
next
  case (sl_reacq p s)
  note D = sleep_invD [OF sl_reacq(4)]
  show ?case by (rule sleep_inv_goto [OF sl_reacq(4,1)]) (use sl_reacq D(1) in \<open>auto simp: asleep_on_def\<close>)
next
  case (sl_wacq p s)
  note D = sleep_invD [OF sl_wacq(4)]
  show ?case by (rule sleep_inv_goto [OF sl_wacq(4,1)]) (use sl_wacq D(1) D(2) [OF sl_wacq(1)] in \<open>auto simp: asleep_on_def\<close>)
next
  case (sl_wrel p s)
  note D = sleep_invD [OF sl_wrel(3)]
  show ?case by (rule sleep_inv_goto [OF sl_wrel(3,1)]) (use sl_wrel D(1) D(2,3) [OF sl_wrel(1)] in \<open>auto simp: asleep_on_def\<close>)
next
  case (sl_unlock p s)
  note D = sleep_invD [OF sl_unlock(3)]
  show ?case by (rule sleep_inv_goto [OF sl_unlock(3,1)]) (use sl_unlock D(1) D(2) [OF sl_unlock(1)] in \<open>auto simp: asleep_on_def\<close>)
qed

section \<open>No wakeup is lost\<close>

text \<open>
  \<^bold>\<open>C2\<close>. \<^verbatim>\<open>sleep\<close> never misses a \<^verbatim>\<open>wakeup\<close>. Start where nobody is inside, both locks are free and no process sleeps on the
  channel; let any number of processes test the condition, sleep, make it true and wake, with \<^verbatim>\<open>kill\<close> waking sleepers in between, in
  any interleaving of the steps between their lock operations. Whenever the condition holds while a process is asleep on the channel, some process is still in front of the
  scan in \<^verbatim>\<open>wakeup\<close> that will wake it; so once the wakers are through, nobody sleeps although the condition holds. Only one process
  at a time is past its acquisition of \<^verbatim>\<open>lk\<close>, and only one past that of \<^verbatim>\<open>ptable.lock\<close>.
\<close>

theorem sleep_no_lost_wakeup:
  assumes "ch \<noteq> NoChan" and "length (procs (sl_k s)) = NPROC" and "\<forall>p < NPROC. sl_pc s p = Idle \<and> \<not> asleep_on ch p s"
    and "sl_lk s = None" and "sl_pt s = None" and "(sleep_step ch)\<^sup>*\<^sup>* s s'"
  shows "(\<forall>p < NPROC. sl_ready s' \<and> asleep_on ch p s' \<longrightarrow> (\<exists>w < NPROC. sl_pc s' w \<in> {WAcq, WScan})) \<and>
    (\<forall>p < NPROC. \<forall>q < NPROC. holds_lk (sl_pc s' p) \<and> holds_lk (sl_pc s' q) \<longrightarrow> p = q) \<and>
    (\<forall>p < NPROC. \<forall>q < NPROC. holds_pt (sl_pc s' p) \<and> holds_pt (sl_pc s' q) \<longrightarrow> p = q)"
proof -
  have "sleep_inv ch s" using assms(2-5) by (auto simp: sleep_inv_def)
  with assms(6) have i: "sleep_inv ch s'" by (induction rule: rtranclp_induct) (auto intro: sleep_inv_step [OF _ _ assms(1)])
  have "sl_ready s' \<and> asleep_on ch p s' \<longrightarrow> (\<exists>w < NPROC. sl_pc s' w \<in> {WAcq, WScan})" if "p < NPROC" for p
    using i that by (auto simp: sleep_inv_def some_at_def)
  moreover have "holds_lk (sl_pc s' p) \<and> holds_lk (sl_pc s' q) \<longrightarrow> p = q" if "p < NPROC" "q < NPROC" for p q
  proof -
    have "holds_lk (sl_pc s' p) \<longrightarrow> sl_lk s' = Some p" "holds_lk (sl_pc s' q) \<longrightarrow> sl_lk s' = Some q" using i that by (simp_all add: sleep_inv_def)
    then show ?thesis by (metis option.inject)
  qed
  moreover have "holds_pt (sl_pc s' p) \<and> holds_pt (sl_pc s' q) \<longrightarrow> p = q" if "p < NPROC" "q < NPROC" for p q
  proof -
    have "holds_pt (sl_pc s' p) \<longrightarrow> sl_pt s' = Some p" "holds_pt (sl_pc s' q) \<longrightarrow> sl_pt s' = Some q" using i that by (simp_all add: sleep_inv_def)
    then show ?thesis by (metis option.inject)
  qed
  ultimately show ?thesis by blast
qed

text \<open>Process 1 finds the condition false and goes to sleep; process 2 makes it true, with its \<^verbatim>\<open>wakeup\<close> still to come.\<close>

definition sleep_start :: sl_state where
  "sleep_start = \<lparr>sl_k = two_procs, sl_lk = None, sl_pt = None, sl_pc = (\<lambda>_. Idle), sl_ready = False\<rparr>"

lemma sleep_enter_returns:
  "p < length (procs k) \<Longrightarrow> \<exists>k'. sleep_enter (Some p) True ch k = Ok k' \<and> p_state (procs k' ! p) = SLEEPING \<and> p_chan (procs k' ! p) = ch"
  by (simp add: sleep_enter_def sched_Ok)

lemma sleep_run:
  "\<exists>s'. (sleep_step ChTicks)\<^sup>*\<^sup>* sleep_start s' \<and> sl_ready s' \<and> asleep_on ChTicks 1 s'"
proof -
  have l: "1 < length (procs two_procs)" by (simp add: two_procs_def)
  obtain k where k: "sleep_enter (Some 1) True ChTicks two_procs = Ok k" "p_state (procs k ! 1) = SLEEPING" "p_chan (procs k ! 1) = ChTicks"
    using sleep_enter_returns [OF l] by blast
  define s1 where "s1 = goto 1 Test (sleep_start\<lparr>sl_lk := Some 1\<rparr>)"
  define s2 where "s2 = goto 1 SAcq s1"
  define s3 where "s3 = goto 1 SRel (s2\<lparr>sl_pt := Some 1\<rparr>)"
  define s4 where "s4 = goto 1 SMark (s3\<lparr>sl_lk := None\<rparr>)"
  define s5 where "s5 = goto 1 SSwitch (s4\<lparr>sl_k := k\<rparr>)"
  define s6 where "s6 = goto 2 Test (s5\<lparr>sl_lk := Some 2\<rparr>)"
  define s7 where "s7 = goto 2 WAcq (s6\<lparr>sl_ready := True\<rparr>)"
  note st = sleep_start_def s1_def s2_def s3_def s4_def s5_def s6_def
  have "sleep_step ChTicks sleep_start s1" unfolding s1_def by (rule sl_take) (simp_all add: sleep_start_def)
  moreover have "sleep_step ChTicks s1 s2" unfolding s2_def by (rule sl_need) (simp_all add: st)
  moreover have "sleep_step ChTicks s2 s3" unfolding s3_def by (rule sl_sacq) (simp_all add: st)
  moreover have "sleep_step ChTicks s3 s4" unfolding s4_def by (rule sl_srel) (simp_all add: st)
  moreover have "sleep_step ChTicks s4 s5" unfolding s5_def by (rule sl_mark) (use k in \<open>simp_all add: st\<close>)
  moreover have "sleep_step ChTicks s5 s6" unfolding s6_def by (rule sl_take) (simp_all add: st)
  moreover have "sleep_step ChTicks s6 s7" unfolding s7_def by (rule sl_make) (simp_all add: st)
  ultimately have "(sleep_step ChTicks)\<^sup>*\<^sup>* sleep_start s7" by (meson converse_rtranclp_into_rtranclp rtranclp.rtrancl_refl)
  moreover have "sl_ready s7" "asleep_on ChTicks 1 s7" using k by (simp_all add: s7_def st asleep_on_def)
  ultimately show ?thesis by blast
qed

theorem sleep_no_lost_wakeup_witness:
  "\<exists>s'. (sleep_step ChTicks)\<^sup>*\<^sup>* sleep_start s' \<and> sl_ready s' \<and> asleep_on ChTicks 1 s' \<and> (\<exists>w < NPROC. sl_pc s' w \<in> {WAcq, WScan})"
proof -
  obtain s' where s: "(sleep_step ChTicks)\<^sup>*\<^sup>* sleep_start s'" "sl_ready s'" "asleep_on ChTicks 1 s'" using sleep_run by blast
  have n: "\<not> asleep_on ChTicks p sleep_start" if "p < NPROC" for p
    using that by (auto simp: asleep_on_def sleep_start_def two_procs_def unused_proc_def nth_Cons split: nat.splits)
  have h: "\<forall>p < NPROC. sl_pc sleep_start p = Idle \<and> \<not> asleep_on ChTicks p sleep_start"
  proof (intro allI impI conjI)
    show "sl_pc sleep_start p = Idle" for p by (simp add: sleep_start_def)
  qed (rule n)
  have l: "length (procs (sl_k sleep_start)) = NPROC" by (simp add: sleep_start_def two_procs_def)
  have f: "sl_lk sleep_start = None" "sl_pt sleep_start = None" by (simp_all add: sleep_start_def)
  have "(1 :: nat) < NPROC" by simp
  then show ?thesis using sleep_no_lost_wakeup [OF chan.distinct(3) [symmetric] l h f s(1)] s by blast
qed

end
