(* ===== verification/Bio.thy ===== *)
theory Bio
  imports Alloc
begin

text \<open>
  The buffer cache of bio.c and the two disk drivers it can be linked with, ide.c and memide.c. The cache is the
  array of buffers with the LRU list linked through \<^verbatim>\<open>prev\<close> and \<^verbatim>\<open>next\<close>; the ide driver has the queue of
  requests and the registers of the controller. The main result is that one process using the cache cannot tell it
  from the block layer of the theory Block, on which the rest of the file system is built.
\<close>

section \<open>State\<close>

text \<open>
  A buffer pointer is the index of the buffer, and \<open>HEAD\<close> stands for \<^verbatim>\<open>bcache.head\<close>. The queue linked through
  \<^verbatim>\<open>qnext\<close> is the list of its buffers.
\<close>

abbreviation (input) HEAD :: nat where "HEAD \<equiv> 30"

record buf =
  bf_flags :: uint
  bf_dev :: nat
  bf_blockno :: nat
  bf_lock :: sleeplock
  bf_refcnt :: uint
  bf_prev :: nat
  bf_next :: nat
  bf_data :: block

abbreviation (input) B_VALID :: uint where "B_VALID \<equiv> 2"
abbreviation (input) B_DIRTY :: uint where "B_DIRTY \<equiv> 4"

text \<open>
  The disk hardware: the task file registers, the contents of the two drives, and whether the status register
  reports an error.
\<close>

record bcache =
  bufs :: "nat \<Rightarrow> buf"
  idequeue :: "nat list"
  havedisk1 :: bool
  ide_reg :: "nat \<Rightarrow> nat"
  ide_err :: bool
  drive :: "nat \<times> nat \<Rightarrow> block"

definition upd :: "nat \<Rightarrow> (buf \<Rightarrow> buf) \<Rightarrow> bcache \<Rightarrow> bcache" where
  "upd b f c = c\<lparr>bufs := (bufs c)(b := f (bufs c b))\<rparr>"

section \<open>The ide driver\<close>

text \<open>The drive and sector the registers select; a block has the size of a sector.\<close>

definition ide_target :: "(nat \<Rightarrow> nat) \<Rightarrow> nat \<times> nat" where
  "ide_target r =
     (r 0x1f6 div 16 mod 2, r 0x1f3 + 256 * r 0x1f4 + 65536 * r 0x1f5 + 16777216 * (r 0x1f6 mod 16))"

definition ide_regs :: "nat \<Rightarrow> nat \<Rightarrow> (nat \<Rightarrow> nat) \<Rightarrow> nat \<Rightarrow> nat" where
  "ide_regs dev sector r =
     r(0x3f6 := 0, 0x1f2 := BSIZE div 512, 0x1f3 := sector mod 256, 0x1f4 := sector div 256 mod 256,
       0x1f5 := sector div 65536 mod 256, 0x1f6 := 0xe0 + 16 * (dev mod 2) + sector div 16777216 mod 16)"

text \<open>
  A buffer is an index, so none is null, and a block is one sector: the two panics of \<^verbatim>\<open>idestart\<close>
  on a null buffer and on more than seven sectors per block cannot occur.
\<close>

definition idestart :: "nat \<Rightarrow> bcache \<Rightarrow> bcache res" where
  "idestart b c =
     (let bp = bufs c b in
      if FSSIZE \<le> bf_blockno bp then Panic ''incorrect blockno''
      else
        let c = c\<lparr>ide_reg := ide_regs (bf_dev bp) (bf_blockno bp * (BSIZE div 512)) (ide_reg c)\<rparr> in
        if bf_flags bp AND B_DIRTY \<noteq> 0
        then Ok (c\<lparr>ide_reg := (ide_reg c)(0x1f7 := 0x30), drive := (drive c)(ide_target (ide_reg c) := bf_data bp)\<rparr>)
        else Ok (c\<lparr>ide_reg := (ide_reg c)(0x1f7 := 0x20)\<rparr>))"

definition ideintr :: "bcache \<Rightarrow> bcache res" where
  "ideintr c =
     (case idequeue c of
        [] \<Rightarrow> Ok c
      | b # q \<Rightarrow>
          let c = c\<lparr>idequeue := q\<rparr>;
              c = (if bf_flags (bufs c b) AND B_DIRTY = 0 \<and> \<not> ide_err c
                   then upd b (\<lambda>bp. bp\<lparr>bf_data := drive c (ide_target (ide_reg c))\<rparr>) c else c);
              c = upd b (\<lambda>bp. bp\<lparr>bf_flags := (bf_flags bp OR B_VALID) AND NOT B_DIRTY\<rparr>) c
          in if q \<noteq> [] then idestart (hd q) c else Ok c)"

text \<open>\<open>status i\<close> is the \<open>i\<close>-th status read while drive 1 is selected.\<close>

definition ideinit :: "(nat \<Rightarrow> nat) \<Rightarrow> bcache \<Rightarrow> bcache" where
  "ideinit status c =
     (let c = c\<lparr>ide_reg := (ide_reg c)(0x1f6 := 0xe0 + 16)\<rparr>;
          c = (if list_ex (\<lambda>i. status i \<noteq> 0) [0..<1000] then c\<lparr>havedisk1 := True\<rparr> else c)
      in c\<lparr>ide_reg := (ide_reg c)(0x1f6 := 0xe0)\<rparr>)"

text \<open>The wait for the request: the interrupts of the requests queued before it arrive in order.\<close>

primrec iderw_wait :: "nat \<Rightarrow> nat \<Rightarrow> bcache \<Rightarrow> bcache res" where
  "iderw_wait 0 b c = (if bf_flags (bufs c b) AND (B_VALID OR B_DIRTY) = B_VALID then Ok c else Sleeps ''ide'')"
| "iderw_wait (Suc n) b c =
     (if bf_flags (bufs c b) AND (B_VALID OR B_DIRTY) = B_VALID then Ok c else rbind (ideintr c) (iderw_wait n b))"

definition iderw :: "nat \<Rightarrow> nat \<Rightarrow> bcache \<Rightarrow> bcache res" where
  "iderw pid b c =
     (let bp = bufs c b in
      if \<not> holdingsleep pid (bf_lock bp) then Panic ''iderw: buf not locked''
      else if bf_flags bp AND (B_VALID OR B_DIRTY) = B_VALID then Panic ''iderw: nothing to do''
      else if bf_dev bp \<noteq> 0 \<and> \<not> havedisk1 c then Panic ''iderw: ide disk 1 not present''
      else
        let c = c\<lparr>idequeue := idequeue c @ [b]\<rparr> in
        rbind (if hd (idequeue c) = b then idestart b c else Ok c) (\<lambda>c. iderw_wait (length (idequeue c)) b c))"

text \<open>The driver of memide.c, with the image in memory as drive 1.\<close>

definition memide_iderw :: "nat \<Rightarrow> nat \<Rightarrow> nat \<Rightarrow> bcache \<Rightarrow> bcache res" where
  "memide_iderw disksize pid b c =
     (let bp = bufs c b in
      if \<not> holdingsleep pid (bf_lock bp) then Panic ''iderw: buf not locked''
      else if bf_flags bp AND (B_VALID OR B_DIRTY) = B_VALID then Panic ''iderw: nothing to do''
      else if bf_dev bp \<noteq> 1 then Panic ''iderw: request not for disk 1''
      else if disksize \<le> bf_blockno bp then Panic ''iderw: block out of range''
      else
        let c = (if bf_flags bp AND B_DIRTY \<noteq> 0
                 then (upd b (\<lambda>bp. bp\<lparr>bf_flags := bf_flags bp AND NOT B_DIRTY\<rparr>) c)
                        \<lparr>drive := (drive c)((1, bf_blockno bp) := bf_data bp)\<rparr>
                 else upd b (\<lambda>bp'. bp'\<lparr>bf_data := drive c (1, bf_blockno bp)\<rparr>) c)
        in Ok (upd b (\<lambda>bp. bp\<lparr>bf_flags := bf_flags bp OR B_VALID\<rparr>) c))"

section \<open>The cache\<close>

definition binit_buf :: "nat \<Rightarrow> bcache \<Rightarrow> bcache" where
  "binit_buf b c =
     (let c = upd b (\<lambda>bp. bp\<lparr>bf_next := bf_next (bufs c HEAD)\<rparr>) c;
          c = upd b (\<lambda>bp. bp\<lparr>bf_prev := HEAD\<rparr>) c;
          c = upd b (\<lambda>bp. bp\<lparr>bf_lock := initsleeplock (bf_lock bp)\<rparr>) c;
          c = upd (bf_next (bufs c HEAD)) (\<lambda>bp. bp\<lparr>bf_prev := b\<rparr>) c
      in upd HEAD (\<lambda>bp. bp\<lparr>bf_next := b\<rparr>) c)"

definition binit :: "bcache \<Rightarrow> bcache" where
  "binit c = fold binit_buf [0..<NBUF] (upd HEAD (\<lambda>bp. bp\<lparr>bf_prev := HEAD, bf_next := HEAD\<rparr>) c)"

text \<open>A scan of the list along \<^verbatim>\<open>next\<close> or \<^verbatim>\<open>prev\<close>, with a bound on its length.\<close>

primrec walk :: "(buf \<Rightarrow> nat) \<Rightarrow> nat \<Rightarrow> nat \<Rightarrow> (buf \<Rightarrow> bool) \<Rightarrow> bcache \<Rightarrow> nat option res" where
  "walk link 0 b P c = Undef ''bcache list''"
| "walk link (Suc n) b P c =
     (if b = HEAD then Ok None
      else if P (bufs c b) then Ok (Some b)
      else walk link n (link (bufs c b)) P c)"

definition lock_buf :: "nat \<Rightarrow> nat \<Rightarrow> bcache \<Rightarrow> (nat \<times> bcache) res" where
  "lock_buf pid b c =
     rbind (acquiresleep pid (bf_lock (bufs c b))) (\<lambda>l. Ok (b, upd b (\<lambda>bp. bp\<lparr>bf_lock := l\<rparr>) c))"

definition bget :: "nat \<Rightarrow> nat \<Rightarrow> nat \<Rightarrow> bcache \<Rightarrow> (nat \<times> bcache) res" where
  "bget pid dev blockno c =
     rbind (walk bf_next (NBUF + 1) (bf_next (bufs c HEAD)) (\<lambda>b. bf_dev b = dev \<and> bf_blockno b = blockno) c) (\<lambda>r.
     case r of
       Some b \<Rightarrow> lock_buf pid b (upd b (\<lambda>bp. bp\<lparr>bf_refcnt := bf_refcnt bp + 1\<rparr>) c)
     | None \<Rightarrow>
         rbind (walk bf_prev (NBUF + 1) (bf_prev (bufs c HEAD)) (\<lambda>b. bf_refcnt b = 0 \<and> bf_flags b AND B_DIRTY = 0) c) (\<lambda>r.
         case r of
           Some b \<Rightarrow>
             lock_buf pid b
               (upd b (\<lambda>bp. bp\<lparr>bf_dev := dev, bf_blockno := blockno, bf_flags := 0, bf_refcnt := 1\<rparr>) c)
         | None \<Rightarrow> Panic ''bget: no buffers''))"

text \<open>\<open>rw\<close> is the \<^verbatim>\<open>iderw\<close> of the driver the kernel is linked with.\<close>

definition bio_bread :: "(nat \<Rightarrow> nat \<Rightarrow> bcache \<Rightarrow> bcache res) \<Rightarrow> nat \<Rightarrow> nat \<Rightarrow> nat \<Rightarrow> bcache \<Rightarrow> (nat \<times> bcache) res" where
  "bio_bread rw pid dev blockno c =
     rbind (bget pid dev blockno c) (\<lambda>(b, c).
     if bf_flags (bufs c b) AND B_VALID = 0 then rbind (rw pid b c) (\<lambda>c. Ok (b, c)) else Ok (b, c))"

definition bio_bwrite :: "(nat \<Rightarrow> nat \<Rightarrow> bcache \<Rightarrow> bcache res) \<Rightarrow> nat \<Rightarrow> nat \<Rightarrow> bcache \<Rightarrow> bcache res" where
  "bio_bwrite rw pid b c =
     (if \<not> holdingsleep pid (bf_lock (bufs c b)) then Panic ''bwrite''
      else rw pid b (upd b (\<lambda>bp. bp\<lparr>bf_flags := bf_flags bp OR B_DIRTY\<rparr>) c))"

definition mru_move :: "nat \<Rightarrow> bcache \<Rightarrow> bcache" where
  "mru_move b c =
     (let c = upd (bf_next (bufs c b)) (\<lambda>bp. bp\<lparr>bf_prev := bf_prev (bufs c b)\<rparr>) c;
          c = upd (bf_prev (bufs c b)) (\<lambda>bp. bp\<lparr>bf_next := bf_next (bufs c b)\<rparr>) c;
          c = upd b (\<lambda>bp. bp\<lparr>bf_next := bf_next (bufs c HEAD)\<rparr>) c;
          c = upd b (\<lambda>bp. bp\<lparr>bf_prev := HEAD\<rparr>) c;
          c = upd (bf_next (bufs c HEAD)) (\<lambda>bp. bp\<lparr>bf_prev := b\<rparr>) c
      in upd HEAD (\<lambda>bp. bp\<lparr>bf_next := b\<rparr>) c)"

definition bio_brelse :: "nat \<Rightarrow> nat \<Rightarrow> bcache \<Rightarrow> bcache res" where
  "bio_brelse pid b c =
     (if \<not> holdingsleep pid (bf_lock (bufs c b)) then Panic ''brelse''
      else
        let c = upd b (\<lambda>bp. bp\<lparr>bf_lock := releasesleep (bf_lock bp)\<rparr>) c;
            c = upd b (\<lambda>bp. bp\<lparr>bf_refcnt := bf_refcnt bp - 1\<rparr>) c
        in if bf_refcnt (bufs c b) = 0 then Ok (mru_move b c) else Ok c)"

text \<open>What a holder does to a buffer: it stores bytes, and \<^verbatim>\<open>log_write\<close> pins the buffer.\<close>

definition buf_store :: "nat \<Rightarrow> block \<Rightarrow> bcache \<Rightarrow> bcache" where
  "buf_store b d c = upd b (\<lambda>bp. bp\<lparr>bf_data := d\<rparr>) c"

definition buf_pin :: "nat \<Rightarrow> bcache \<Rightarrow> bcache" where
  "buf_pin b c = upd b (\<lambda>bp. bp\<lparr>bf_flags := bf_flags bp OR B_DIRTY\<rparr>) c"

section \<open>Linked lists\<close>

text \<open>\<open>lseg f a xs z\<close>: following \<open>f\<close> from \<open>a\<close> visits \<open>xs\<close> and then reaches \<open>z\<close>.\<close>

primrec lseg :: "(nat \<Rightarrow> nat) \<Rightarrow> nat \<Rightarrow> nat list \<Rightarrow> nat \<Rightarrow> bool" where
  "lseg f a [] z \<longleftrightarrow> f a = z"
| "lseg f a (x # xs) z \<longleftrightarrow> f a = x \<and> lseg f x xs z"

lemma lseg_append: "lseg f a (us @ b # vs) z \<longleftrightarrow> lseg f a us b \<and> lseg f b vs z"
  by (induction us arbitrary: a) auto

lemma lseg_hd: "lseg f a xs z \<Longrightarrow> f a = hd (xs @ [z])"
  by (cases xs) auto

lemma lseg_upd [simp]: "y \<notin> set (a # xs) \<Longrightarrow> lseg (f(y := v)) a xs z = lseg f a xs z"
  by (induction xs arbitrary: a) auto

lemma lseg_unlink:
  "lseg f a (us @ b # vs) z \<Longrightarrow> distinct (a # us @ b # vs) \<Longrightarrow>
     lseg (f(last (a # us) := f b)) a (us @ vs) z"
proof (induction us arbitrary: a)
  case Nil
  then show ?case
  proof (cases vs)
    case (Cons v ws)
    have "lseg (f(a := f b)) v ws z = lseg f v ws z" by (rule lseg_upd) (use Nil Cons in auto)
    moreover have "f b = v" "lseg f v ws z" using Nil(1) Cons by simp_all
    ultimately have "lseg (f(a := f b)) a (v # ws) z" by simp
    then show ?thesis by (simp only: Cons append_Nil last.simps simp_thms if_True)
  qed simp
next
  case (Cons u us)
  have "lseg (f(last (u # us) := f b)) u (us @ vs) z"
    by (rule Cons.IH) (use Cons.prems in simp_all)
  moreover have "last (u # us) \<noteq> a" using Cons.prems(2) last_in_set [of "u # us"] by auto
  ultimately show ?case using Cons.prems by (simp del: last.simps add: last_ConsR fun_upd_def [symmetric])
qed

lemma lseg_push: "lseg f a xs z \<Longrightarrow> distinct (a # b # xs) \<Longrightarrow> lseg (f(b := f a, a := b)) a (b # xs) z"
  by (cases xs) auto

lemma lseg_snoc:
  "lseg f a xs y \<Longrightarrow> distinct (a # b # xs) \<Longrightarrow> lseg (f(b := z, last (a # xs) := b)) a (xs @ [b]) z"
proof (induction xs arbitrary: a)
  case (Cons u us)
  have "lseg (f(b := z, last (u # us) := b)) u (us @ [b]) z"
    by (rule Cons.IH) (use Cons.prems in simp_all)
  moreover have "last (u # us) \<noteq> a" using Cons.prems(2) last_in_set [of "u # us"] by auto
  ultimately show ?case using Cons.prems by (simp del: last.simps add: last_ConsR fun_upd_def [symmetric])
qed auto

text \<open>The doubly linked ring through \<open>HEAD\<close>, given by its two link functions.\<close>

definition dring :: "(nat \<Rightarrow> nat) \<Rightarrow> (nat \<Rightarrow> nat) \<Rightarrow> nat list \<Rightarrow> bool" where
  "dring n p xs \<longleftrightarrow> distinct (HEAD # xs) \<and> lseg n HEAD xs HEAD \<and> lseg p HEAD (rev xs) HEAD"

lemma dring_push:
  assumes "dring n p xs" "b \<noteq> HEAD" "b \<notin> set xs"
  shows "dring (n(b := n HEAD, HEAD := b)) (p(b := HEAD, n HEAD := b)) (b # xs)"
proof -
  have "n HEAD = last (HEAD # rev xs)" using assms(1) lseg_hd [of n HEAD xs HEAD] by (cases xs) (auto simp: dring_def)
  then show ?thesis
    using assms lseg_push [of n HEAD xs HEAD b] lseg_snoc [of p HEAD "rev xs" HEAD b HEAD] by (simp add: dring_def)
qed

lemma dring_unlink:
  assumes "dring n p (us @ b # vs)"
  shows "dring (n(p b := n b)) (p(n b := p b)) (us @ vs)"
    and "n b \<noteq> b" "p b \<noteq> b"
proof -
  have n: "lseg n HEAD (us @ b # vs) HEAD" and p: "lseg p HEAD (rev vs @ b # rev us) HEAD"
    and d: "distinct (HEAD # us @ b # vs)" using assms by (simp_all add: dring_def)
  have nb: "n b = last (HEAD # rev vs)"
    using n lseg_hd [of n b vs HEAD] unfolding lseg_append by (cases vs) auto
  have pb: "p b = last (HEAD # us)"
    using p lseg_hd [of p b "rev us" HEAD] unfolding lseg_append by (cases us rule: rev_cases) auto
  have d': "distinct (HEAD # rev vs @ b # rev us)" using d by auto
  show "dring (n(p b := n b)) (p(n b := p b)) (us @ vs)"
    using lseg_unlink [OF n d] lseg_unlink [OF p d'] d unfolding dring_def nb [symmetric] pb [symmetric] by simp
  show "n b \<noteq> b" "p b \<noteq> b"
    using d last_in_set [of "HEAD # rev vs"] last_in_set [of "HEAD # us"] unfolding nb pb by (auto simp del: last.simps)
qed

section \<open>The invariant of the cache\<close>

definition nx :: "bcache \<Rightarrow> nat \<Rightarrow> nat" where "nx c i = bf_next (bufs c i)"
definition pv :: "bcache \<Rightarrow> nat \<Rightarrow> nat" where "pv c i = bf_prev (bufs c i)"

lemma upd_simps [simp]:
  "idequeue (upd b f c) = idequeue c" "havedisk1 (upd b f c) = havedisk1 c" "ide_err (upd b f c) = ide_err c"
  "ide_reg (upd b f c) = ide_reg c" "drive (upd b f c) = drive c"
  "bufs (upd b f c) = (bufs c)(b := f (bufs c b))"
  by (simp_all add: upd_def)

text \<open>A buffer that was never used, or one that caches a block of the disk for its holder or for nobody.\<close>

definition buf_ok :: "nat \<Rightarrow> buf \<Rightarrow> bool" where
  "buf_ok pid b \<longleftrightarrow>
     (bf_dev b = 0 \<and> bf_flags b = 0 \<and> bf_refcnt b = 0 \<and> \<not> locked (bf_lock b)) \<or>
     (bf_dev b = 1 \<and> bf_blockno b < FSSIZE \<and> (bf_flags b = 2 \<or> bf_flags b = 6) \<and>
      (locked (bf_lock b) \<and> lk_pid (bf_lock b) = pid \<and> bf_refcnt b = 1 \<or>
       \<not> locked (bf_lock b) \<and> bf_refcnt b = 0))"

definition quiet :: "bcache \<Rightarrow> bool" where
  "quiet c \<longleftrightarrow> idequeue c = [] \<and> havedisk1 c \<and> \<not> ide_err c"

definition binv :: "nat \<Rightarrow> bcache \<Rightarrow> bool" where
  "binv pid c \<longleftrightarrow>
     quiet c \<and> (\<exists>xs. dring (nx c) (pv c) xs \<and> set xs = {..<NBUF}) \<and>
     (\<forall>i < NBUF. buf_ok pid (bufs c i)) \<and>
     (\<forall>i < NBUF. \<forall>j < NBUF. bf_dev (bufs c i) = 1 \<longrightarrow> bf_dev (bufs c j) = 1 \<longrightarrow>
        bf_blockno (bufs c i) = bf_blockno (bufs c j) \<longrightarrow> i = j)"

lemma binv_unique:
  "binv pid c \<Longrightarrow> i < NBUF \<Longrightarrow> j < NBUF \<Longrightarrow> bf_dev (bufs c i) = 1 \<Longrightarrow> bf_dev (bufs c j) = 1 \<Longrightarrow>
     bf_blockno (bufs c i) = bf_blockno (bufs c j) \<Longrightarrow> i = j"
  by (simp only: binv_def simp_thms)

lemma walk_find:
  "lseg (\<lambda>i. link (bufs c i)) a xs HEAD \<Longrightarrow> HEAD \<notin> set xs \<Longrightarrow> length xs < n \<Longrightarrow>
     walk link n (link (bufs c a)) P c = Ok (find (\<lambda>i. P (bufs c i)) xs)"
proof (induction xs arbitrary: a n)
  case Nil
  then show ?case by (cases n) auto
next
  case (Cons x xs)
  then show ?case by (cases n) auto
qed

lemma find_scan:
  assumes "set xs = {..<N}"
  obtains "find P xs = None" "\<forall>i < N. \<not> P i" | i where "find P xs = Some i" "i < N" "P i"
proof (cases "find P xs")
  case None
  then show ?thesis using assms that(1) by (auto simp: find_None_iff)
next
  case (Some i)
  then show ?thesis using assms that(2) [of i] by (auto simp: find_Some_iff) (metis lessThan_iff nth_mem)
qed

lemma walk_both:
  assumes "binv pid c"
  shows "\<exists>xs. set xs = {..<NBUF} \<and>
    (\<forall>P. walk bf_next (NBUF + 1) (bf_next (bufs c HEAD)) P c = Ok (find (\<lambda>i. P (bufs c i)) xs)) \<and>
    (\<forall>P. walk bf_prev (NBUF + 1) (bf_prev (bufs c HEAD)) P c = Ok (find (\<lambda>i. P (bufs c i)) (rev xs)))"
proof -
  obtain xs where xs: "dring (nx c) (pv c) xs" "set xs = {..<NBUF}" using assms by (auto simp: binv_def)
  have l: "length xs = NBUF" using xs distinct_card [of xs] by (simp add: dring_def)
  have "lseg (\<lambda>i. bf_next (bufs c i)) HEAD xs HEAD" "lseg (\<lambda>i. bf_prev (bufs c i)) HEAD (rev xs) HEAD"
    using xs(1) unfolding dring_def nx_def [abs_def] pv_def [abs_def] by auto
  then have "walk bf_next (NBUF + 1) (bf_next (bufs c HEAD)) P c = Ok (find (\<lambda>i. P (bufs c i)) xs)"
    and "walk bf_prev (NBUF + 1) (bf_prev (bufs c HEAD)) P c = Ok (find (\<lambda>i. P (bufs c i)) (rev xs))" for P
    using l xs(2) by (intro walk_find; simp)+
  then show ?thesis using xs(2) by blast
qed

lemma binv_change:
  assumes "binv pid c" "b < NBUF" "quiet c'" "bufs c' = (bufs c)(b := bp)"
    and "bf_next bp = bf_next (bufs c b)" "bf_prev bp = bf_prev (bufs c b)" "buf_ok pid bp"
    and "\<And>j. j < NBUF \<Longrightarrow> j \<noteq> b \<Longrightarrow> bf_dev (bufs c j) = 1 \<Longrightarrow> bf_dev bp = 1 \<Longrightarrow> bf_blockno (bufs c j) \<noteq> bf_blockno bp"
  shows "binv pid c'"
proof -
  have "nx c' = nx c" "pv c' = pv c" using assms(4-6) by (auto simp: nx_def pv_def)
  moreover have "i = j" if "i < NBUF" "j < NBUF" "bf_dev (bufs c' i) = 1" "bf_dev (bufs c' j) = 1"
    "bf_blockno (bufs c' i) = bf_blockno (bufs c' j)" for i j
    using that assms(1) assms(8) [of i] assms(8) [of j] unfolding assms(4) binv_def by (auto split: if_splits)
  ultimately show ?thesis using assms(1,3,7) unfolding binv_def by (auto simp: assms(4))
qed

section \<open>The drivers\<close>

lemma ide_target_regs:
  assumes "sector < FSSIZE"
  shows "ide_target (ide_regs dev sector r) = (dev mod 2, sector)"
proof -
  have "sector div 256 mod 256 = sector div 256" "sector div 65536 = 0" "sector div 16777216 = 0"
    using assms by simp_all
  moreover have "sector mod 256 + 256 * (sector div 256) = sector" by simp
  moreover have "dev mod 2 = 0 \<or> dev mod 2 = 1" by (rule parity_cases) auto
  then have "(224 + 16 * (dev mod 2)) div 16 mod 2 = dev mod 2" "(224 + 16 * (dev mod 2)) mod 16 = 0" by fastforce+
  ultimately show ?thesis by (simp add: ide_target_def ide_regs_def)
qed

lemma ide_target_cmd [simp]: "ide_target (r(0x1f7 := v)) = ide_target r"
  by (simp add: ide_target_def)

text \<open>
  What the cache needs of its driver, for a request on block \<open>n\<close> of disk 1 by the holder of the buffer: a read fills
  the buffer from the drive, a write puts it there, and both leave a valid clean buffer and a quiet driver.
\<close>

locale disk_driver =
  fixes rw :: "nat \<Rightarrow> nat \<Rightarrow> bcache \<Rightarrow> bcache res"
  assumes rw_read: "quiet c \<Longrightarrow> holdingsleep pid (bf_lock (bufs c b)) \<Longrightarrow> bf_dev (bufs c b) = 1 \<Longrightarrow>
      bf_blockno (bufs c b) < FSSIZE \<Longrightarrow> bf_flags (bufs c b) = 0 \<Longrightarrow>
      \<exists>r. rw pid b c = Ok ((upd b (\<lambda>bp. bp\<lparr>bf_data := drive c (1, bf_blockno bp), bf_flags := 2\<rparr>) c)\<lparr>ide_reg := r\<rparr>)"
    and rw_write: "quiet c \<Longrightarrow> holdingsleep pid (bf_lock (bufs c b)) \<Longrightarrow> bf_dev (bufs c b) = 1 \<Longrightarrow>
      bf_blockno (bufs c b) < FSSIZE \<Longrightarrow> bf_flags (bufs c b) = 6 \<Longrightarrow>
      \<exists>r. rw pid b c = Ok ((upd b (\<lambda>bp. bp\<lparr>bf_flags := 2\<rparr>) c)
        \<lparr>drive := (drive c)((1, bf_blockno (bufs c b)) := bf_data (bufs c b)), ide_reg := r\<rparr>)"

lemma flag_bits [simp]:
  "(0 :: uint) AND 6 = 0" "(6 :: uint) AND 6 = 6" "(2 :: uint) AND 6 = 2" "(6 :: uint) AND 4 = 4" "(2 :: uint) AND 4 = 0"
  "(0 :: uint) OR 2 = 2" "(6 :: uint) OR 2 = 6" "(2 :: uint) AND NOT 4 = 2" "(6 :: uint) AND NOT 4 = 2"
  "(2 :: uint) OR 4 = 6" "(6 :: uint) OR 4 = 6" "(2 :: uint) AND 2 = 2" "(6 :: uint) AND 2 = 2" "(2 :: uint) OR 2 = 2"
  by simp_all

interpretation ide: disk_driver iderw
proof
  fix c pid b
  assume a: "quiet c" "holdingsleep pid (bf_lock (bufs c b))" "bf_dev (bufs c b) = 1" "bf_blockno (bufs c b) < FSSIZE"
  note t = ide_target_regs [OF a(4), of 1]
  { assume "bf_flags (bufs c b) = 0"
    then show "\<exists>r. iderw pid b c =
        Ok ((upd b (\<lambda>bp. bp\<lparr>bf_data := drive c (1, bf_blockno bp), bf_flags := 2\<rparr>) c)\<lparr>ide_reg := r\<rparr>)"
      using a t by (cases c) (simp add: iderw_def idestart_def ideintr_def quiet_def Let_def upd_def) }
  { assume "bf_flags (bufs c b) = 6"
    then show "\<exists>r. iderw pid b c = Ok ((upd b (\<lambda>bp. bp\<lparr>bf_flags := 2\<rparr>) c)
        \<lparr>drive := (drive c)((1, bf_blockno (bufs c b)) := bf_data (bufs c b)), ide_reg := r\<rparr>)"
      using a t by (cases c) (simp add: iderw_def idestart_def ideintr_def quiet_def Let_def upd_def) }
qed

interpretation memide: disk_driver "memide_iderw FSSIZE"
proof
  fix c pid b
  assume a: "quiet c" "holdingsleep pid (bf_lock (bufs c b))" "bf_dev (bufs c b) = 1" "bf_blockno (bufs c b) < FSSIZE"
  { assume "bf_flags (bufs c b) = 0"
    then have "memide_iderw FSSIZE pid b c =
        Ok ((upd b (\<lambda>bp. bp\<lparr>bf_data := drive c (1, bf_blockno bp), bf_flags := 2\<rparr>) c)\<lparr>ide_reg := ide_reg c\<rparr>)"
      using a by (simp add: memide_iderw_def Let_def upd_def)
    then show "\<exists>r. memide_iderw FSSIZE pid b c =
        Ok ((upd b (\<lambda>bp. bp\<lparr>bf_data := drive c (1, bf_blockno bp), bf_flags := 2\<rparr>) c)\<lparr>ide_reg := r\<rparr>)" by blast }
  { assume "bf_flags (bufs c b) = 6"
    then have "memide_iderw FSSIZE pid b c = Ok ((upd b (\<lambda>bp. bp\<lparr>bf_flags := 2\<rparr>) c)
        \<lparr>drive := (drive c)((1, bf_blockno (bufs c b)) := bf_data (bufs c b)), ide_reg := ide_reg c\<rparr>)"
      using a by (simp add: memide_iderw_def Let_def upd_def)
    then show "\<exists>r. memide_iderw FSSIZE pid b c = Ok ((upd b (\<lambda>bp. bp\<lparr>bf_flags := 2\<rparr>) c)
        \<lparr>drive := (drive c)((1, bf_blockno (bufs c b)) := bf_data (bufs c b)), ide_reg := r\<rparr>)" by blast }
qed

section \<open>The cache implements the block layer\<close>

declare One_nat_def [simp del]

definition bio_rel :: "nat \<Rightarrow> bcache \<Rightarrow> blk_state \<Rightarrow> bool" where
  "bio_rel pid c s \<longleftrightarrow>
     binv pid c \<and> distinct (held s) \<and>
     (\<forall>a. a \<in> set (held s) \<longleftrightarrow> (\<exists>i < NBUF. locked (bf_lock (bufs c i)) \<and> a = (1, bf_blockno (bufs c i)))) \<and>
     (\<forall>a. a \<in> set (dirty s) \<longleftrightarrow> (\<exists>i < NBUF. bf_flags (bufs c i) = 6 \<and> a = (1, bf_blockno (bufs c i)))) \<and>
     (\<forall>n < FSSIZE. drive c (1, n) = disk s (1, n)) \<and>
     (\<forall>i < NBUF. bf_dev (bufs c i) = 1 \<longrightarrow> bf_data (bufs c i) = blks s (1, bf_blockno (bufs c i))) \<and>
     (\<forall>n < FSSIZE. (1, n) \<notin> set (dirty s) \<longrightarrow> blks s (1, n) = disk s (1, n))"

lemma bio_rel_dest:
  assumes "bio_rel pid c s"
  shows "binv pid c" "distinct (held s)"
    "a \<in> set (held s) \<longleftrightarrow> (\<exists>i < NBUF. locked (bf_lock (bufs c i)) \<and> a = (1, bf_blockno (bufs c i)))"
    "a \<in> set (dirty s) \<longleftrightarrow> (\<exists>i < NBUF. bf_flags (bufs c i) = 6 \<and> a = (1, bf_blockno (bufs c i)))"
    "n < FSSIZE \<Longrightarrow> drive c (1, n) = disk s (1, n)"
    "i < NBUF \<Longrightarrow> bf_dev (bufs c i) = 1 \<Longrightarrow> bf_data (bufs c i) = blks s (1, bf_blockno (bufs c i))"
    "n < FSSIZE \<Longrightarrow> (1, n) \<notin> set (dirty s) \<Longrightarrow> blks s (1, n) = disk s (1, n)"
    "i < NBUF \<Longrightarrow> buf_ok pid (bufs c i)" "quiet c"
    "i < NBUF \<Longrightarrow> j < NBUF \<Longrightarrow> bf_dev (bufs c i) = 1 \<Longrightarrow> bf_dev (bufs c j) = 1 \<Longrightarrow>
       bf_blockno (bufs c i) = bf_blockno (bufs c j) \<Longrightarrow> i = j"
proof -
  have inv: "binv pid c" using assms by (simp only: bio_rel_def)
  then show "binv pid c" .
  show "i < NBUF \<Longrightarrow> buf_ok pid (bufs c i)" "quiet c" using inv by (simp_all only: binv_def simp_thms)
  show "i < NBUF \<Longrightarrow> j < NBUF \<Longrightarrow> bf_dev (bufs c i) = 1 \<Longrightarrow> bf_dev (bufs c j) = 1 \<Longrightarrow>
       bf_blockno (bufs c i) = bf_blockno (bufs c j) \<Longrightarrow> i = j"
    by (rule binv_unique [OF inv])
qed (use assms in \<open>simp_all only: bio_rel_def simp_thms\<close>)

text \<open>The buffers in use are as many as the blocks locked or dirty.\<close>

lemma busy_card:
  assumes "bio_rel pid c s"
  shows "NBUF \<le> card (set (held s) \<union> set (dirty s)) \<longleftrightarrow>
    (\<forall>i < NBUF. locked (bf_lock (bufs c i)) \<or> bf_flags (bufs c i) = 6)"
proof -
  let ?B = "{i. i < NBUF \<and> (locked (bf_lock (bufs c i)) \<or> bf_flags (bufs c i) = 6)}"
  have eq: "set (held s) \<union> set (dirty s) = (\<lambda>i. (1, bf_blockno (bufs c i))) ` ?B"
    using assms unfolding bio_rel_def by auto
  have one: "bf_dev (bufs c i) = 1" if "i \<in> ?B" for i
    using that bio_rel_dest(8) [OF assms, of i] by (auto simp: buf_ok_def)
  have "inj_on (\<lambda>i. (1 :: nat, bf_blockno (bufs c i))) ?B"
    using bio_rel_dest(1) [OF assms] one unfolding inj_on_def binv_def by auto
  then have card: "card (set (held s) \<union> set (dirty s)) = card ?B" unfolding eq by (rule card_image)
  have sub: "?B \<subseteq> {..<NBUF}" by auto
  show ?thesis
  proof
    assume "NBUF \<le> card (set (held s) \<union> set (dirty s))"
    then have "?B = {..<NBUF}" using card card_subset_eq [OF _ sub] card_mono [OF _ sub] by simp
    then show "\<forall>i < NBUF. locked (bf_lock (bufs c i)) \<or> bf_flags (bufs c i) = 6" by auto
  next
    assume "\<forall>i < NBUF. locked (bf_lock (bufs c i)) \<or> bf_flags (bufs c i) = 6"
    then have "?B = {..<NBUF}" by auto
    then show "NBUF \<le> card (set (held s) \<union> set (dirty s))" using card by simp
  qed
qed

lemma buf_ok_used: "buf_ok pid b \<Longrightarrow> locked (bf_lock b) \<or> bf_flags b = 6 \<Longrightarrow> bf_dev b = 1 \<and> bf_blockno b < FSSIZE"
  by (auto simp: buf_ok_def)

text \<open>The relation after a change of one buffer.\<close>

lemma bio_rel_change:
  assumes R: "bio_rel pid c s" and b: "b < NBUF" and inv: "binv pid c'" and bufs: "bufs c' = (bufs c)(b := bp)"
    and dist: "distinct (held t)"
    and held: "\<And>a. a \<in> set (held t) \<longleftrightarrow> locked (bf_lock bp) \<and> a = (1, bf_blockno bp) \<or>
      a \<in> set (held s) \<and> \<not> (locked (bf_lock (bufs c b)) \<and> a = (1, bf_blockno (bufs c b)))"
    and dirty: "\<And>a. a \<in> set (dirty t) \<longleftrightarrow> bf_flags bp = 6 \<and> a = (1, bf_blockno bp) \<or>
      a \<in> set (dirty s) \<and> \<not> (bf_flags (bufs c b) = 6 \<and> a = (1, bf_blockno (bufs c b)))"
    and disk: "\<And>n. n < FSSIZE \<Longrightarrow> drive c' (1, n) = disk t (1, n)"
    and data: "bf_dev bp = 1" "bf_data bp = blks t (1, bf_blockno bp)" "\<And>a. a \<noteq> (1, bf_blockno bp) \<Longrightarrow> blks t a = blks s a"
    and clean: "\<And>n. n < FSSIZE \<Longrightarrow> (1, n) \<notin> set (dirty t) \<Longrightarrow> blks t (1, n) = disk t (1, n)"
  shows "bio_rel pid c' t"
proof -
  note r = bio_rel_dest [OF R]
  have other: "(\<exists>i < NBUF. i \<noteq> b \<and> P (bufs c i) \<and> a = (1, bf_blockno (bufs c i))) \<longleftrightarrow>
      (\<exists>i < NBUF. P (bufs c i) \<and> a = (1, bf_blockno (bufs c i))) \<and> \<not> (P (bufs c b) \<and> a = (1, bf_blockno (bufs c b)))"
    if P: "\<And>i. i < NBUF \<Longrightarrow> P (bufs c i) \<Longrightarrow> bf_dev (bufs c i) = 1" for P and a :: baddr
  proof -
    have "i = b" if "i < NBUF" "P (bufs c i)" "P (bufs c b)" "bf_blockno (bufs c i) = bf_blockno (bufs c b)" for i
      using r(10) [OF that(1) b] P [OF that(1,2)] P [OF b that(3)] that(4) by blast
    then show ?thesis by auto
  qed
  have upd: "(\<exists>i < NBUF. P (bufs c' i) \<and> a = (1, bf_blockno (bufs c' i))) \<longleftrightarrow>
      P bp \<and> a = (1, bf_blockno bp) \<or> (\<exists>i < NBUF. i \<noteq> b \<and> P (bufs c i) \<and> a = (1, bf_blockno (bufs c i)))"
    for P and a :: baddr
    using b unfolding bufs by (auto split: if_splits)
  have used: "bf_dev (bufs c i) = 1" if "i < NBUF" "locked (bf_lock (bufs c i)) \<or> bf_flags (bufs c i) = 6" for i
    using buf_ok_used [OF r(8) [OF that(1)] that(2)] by simp
  have "a \<in> set (held t) \<longleftrightarrow> (\<exists>i < NBUF. locked (bf_lock (bufs c' i)) \<and> a = (1, bf_blockno (bufs c' i)))" for a
    unfolding upd [of "\<lambda>b. locked (bf_lock b)"] held r(3)
    by (subst other [of "\<lambda>b. locked (bf_lock b)" a], rule used, assumption, erule disjI1, rule refl)
  moreover have "a \<in> set (dirty t) \<longleftrightarrow> (\<exists>i < NBUF. bf_flags (bufs c' i) = 6 \<and> a = (1, bf_blockno (bufs c' i)))" for a
    unfolding upd [of "\<lambda>b. bf_flags b = 6"] dirty r(4)
    by (subst other [of "\<lambda>b. bf_flags b = 6" a], rule used, assumption, erule disjI2, rule refl)
  moreover have "bf_data (bufs c' i) = blks t (1, bf_blockno (bufs c' i))" if "i < NBUF" "bf_dev (bufs c' i) = 1" for i
  proof (cases "i = b")
    case False
    have "bf_dev (bufs c' b) = 1" using data(1) by (simp add: bufs)
    then have "bf_blockno (bufs c' i) \<noteq> bf_blockno (bufs c' b)" using binv_unique [OF inv that(1) b that(2)] False by blast
    then show ?thesis using False that data(3) r(6) [of i] unfolding bufs by simp
  qed (simp add: bufs data(2))
  ultimately show ?thesis unfolding bio_rel_def
    by (intro conjI allI impI inv dist disk clean; assumption?)
qed

text \<open>
  A read of the cache matches one of the layer: same data, a locked buffer of the block, and the buffers
  locked before are as they were; or the same failure.
\<close>

definition same_read :: "nat \<Rightarrow> nat \<Rightarrow> bcache \<Rightarrow> (bufh \<times> blk_state) res \<Rightarrow> (nat \<times> bcache) res \<Rightarrow> bool" where
  "same_read pid n c ra rc =
     (case ra of
        Ok (bp, s') \<Rightarrow>
          (\<exists>b c'. rc = Ok (b, c') \<and> bio_rel pid c' s' \<and> b < NBUF \<and> bf_data (bufs c' b) = b_data bp \<and>
             bf_blockno (bufs c' b) = n \<and> locked (bf_lock (bufs c' b)) \<and>
             (\<forall>i < NBUF. locked (bf_lock (bufs c i)) \<longrightarrow> bufs c' i = bufs c i))
      | Panic m \<Rightarrow> rc = Panic m
      | Sleeps m \<Rightarrow> rc = Sleeps m
      | Undef m \<Rightarrow> False)"

lemma bread_free:
  assumes "bio_rel pid c s" "b < NBUF" "\<not> locked (bf_lock (bufs c b))" "bf_flags (bufs c b) \<noteq> 6"
    and "(1, n) \<notin> set (held s)" "n < FSSIZE"
  shows "bread 1 n s = Ok (\<lparr>b_dev = 1, b_blockno = n, b_data = blks s (1, n)\<rparr>, s\<lparr>held := (1, n) # held s\<rparr>)"
proof -
  have "\<not> NBUF \<le> card (set (held s) \<union> set (dirty s))" using assms(2-4) unfolding busy_card [OF assms(1)] by blast
  then show ?thesis using assms(5,6) by (simp add: bread_def)
qed

text \<open>The block is cached.\<close>

lemma bread_hit:
  assumes R: "bio_rel pid c s" and b: "b < NBUF" "bf_dev (bufs c b) = 1" "bf_blockno (bufs c b) = n"
    and w: "walk bf_next (NBUF + 1) (bf_next (bufs c HEAD)) (\<lambda>b. bf_dev b = 1 \<and> bf_blockno b = n) c = Ok (Some b)"
  shows "same_read pid n c (bread 1 n s) (bio_bread rw pid 1 n c)"
proof -
  note r = bio_rel_dest [OF R]
  have n: "n < FSSIZE" and fl: "bf_flags (bufs c b) = 2 \<or> bf_flags (bufs c b) = 6"
    using r(8) [OF b(1)] b(2,3) by (auto simp: buf_ok_def)
  show ?thesis
  proof (cases "locked (bf_lock (bufs c b))")
    case True
    then have "(1, n) \<in> set (held s)" unfolding r(3) using b by blast
    then have "bread 1 n s = Sleeps ''sleeplock''" by (simp add: bread_def)
    moreover have "bio_bread rw pid 1 n c = Sleeps ''sleeplock''"
      unfolding bio_bread_def bget_def w using True by (simp add: lock_buf_def acquiresleep_def)
    ultimately show ?thesis by (simp add: same_read_def)
  next
    case False
    define bp where "bp = (bufs c b)\<lparr>bf_refcnt := 1, bf_lock := (bf_lock (bufs c b))\<lparr>locked := True, lk_pid := pid\<rparr>\<rparr>"
    define c' where "c' = c\<lparr>bufs := (bufs c)(b := bp)\<rparr>"
    have rc: "bf_refcnt (bufs c b) = 0" using r(8) [OF b(1)] b(2) False by (auto simp: buf_ok_def)
    have nh: "(1, n) \<notin> set (held s)"
    proof
      assume "(1, n) \<in> set (held s)"
      then obtain i where i: "i < NBUF" "locked (bf_lock (bufs c i))" "n = bf_blockno (bufs c i)" unfolding r(3) by blast
      have "bf_dev (bufs c i) = 1" using buf_ok_used [OF r(8) [OF i(1)] disjI1 [OF i(2)]] by (rule conjunct1)
      then have "i = b" using r(10) [OF i(1) b(1) _ b(2)] unfolding i(3) [symmetric] b(3) by blast
      then show False using i(2) False by simp
    qed
    have ab: "bread 1 n s = Ok (\<lparr>b_dev = 1, b_blockno = n, b_data = blks s (1, n)\<rparr>, s\<lparr>held := (1, n) # held s\<rparr>)"
    proof (cases "bf_flags (bufs c b) = 6")
      case True
      then have "(1, n) \<in> set (dirty s)" unfolding r(4) using b by blast
      then show ?thesis using nh n by (simp add: bread_def)
    qed (rule bread_free [OF R b(1) False _ nh n])
    have "bget pid 1 n c = Ok (b, c')"
      unfolding bget_def w using False rc by (simp add: lock_buf_def acquiresleep_def c'_def bp_def upd_def)
    then have co: "bio_bread rw pid 1 n c = Ok (b, c')"
      using fl by (auto simp: bio_bread_def c'_def bp_def)
    have inv: "binv pid c'"
    proof (rule binv_change [OF r(1) b(1), of c' bp])
      show "bf_blockno (bufs c j) \<noteq> bf_blockno bp" if "j < NBUF" "j \<noteq> b" "bf_dev (bufs c j) = 1" for j
        using r(10) [OF that(1) b(1) that(3) b(2)] that(2) by (auto simp: bp_def)
    qed (use r(8) [OF b(1)] r(9) b(2) in \<open>auto simp: c'_def bp_def buf_ok_def quiet_def\<close>)
    have "bio_rel pid c' (s\<lparr>held := (1, n) # held s\<rparr>)"
      by (rule bio_rel_change [OF R b(1) inv, of bp])
        (use b nh r(2) r(5) r(6) [OF b(1,2)] r(7) False in \<open>auto simp: c'_def bp_def r(4)\<close>)
    then show ?thesis
      using r(6) [OF b(1,2)] b False unfolding same_read_def ab co by (auto simp: c'_def bp_def)
  qed
qed

text \<open>Storing into a locked buffer and pinning it, as \<^verbatim>\<open>log_write\<close> does.\<close>

definition layer_pin :: "nat \<Rightarrow> block \<Rightarrow> blk_state \<Rightarrow> blk_state" where
  "layer_pin n d s = s\<lparr>blks := (blks s)((1, n) := d), dirty := List.insert (1, n) (dirty s)\<rparr>"

lemma pin_sim:
  assumes R: "bio_rel pid c s" and b: "b < NBUF" "locked (bf_lock (bufs c b))" "bf_blockno (bufs c b) = n"
  shows "bio_rel pid (buf_pin b (buf_store b d c)) (layer_pin n d s)"
proof -
  note r = bio_rel_dest [OF R]
  have ok: "bf_dev (bufs c b) = 1" "bf_blockno (bufs c b) < FSSIZE" "bf_flags (bufs c b) = 2 \<or> bf_flags (bufs c b) = 6"
    using r(8) [OF b(1)] b(2) by (auto simp: buf_ok_def)
  define bp where "bp = (bufs c b)\<lparr>bf_data := d, bf_flags := 6\<rparr>"
  have bufs: "bufs (buf_pin b (buf_store b d c)) = (bufs c)(b := bp)"
    using ok(3) by (auto simp: buf_pin_def buf_store_def bp_def)
  have inv: "binv pid (buf_pin b (buf_store b d c))"
  proof (rule binv_change [OF r(1) b(1), of _ bp])
    show "bf_blockno (bufs c j) \<noteq> bf_blockno bp" if "j < NBUF" "j \<noteq> b" "bf_dev (bufs c j) = 1" for j
      using r(10) [OF that(1) b(1) that(3) ok(1)] that(2) by (auto simp: bp_def)
  qed (use r(8) [OF b(1)] r(9) ok(1) bufs in \<open>auto simp: bp_def buf_ok_def quiet_def buf_pin_def buf_store_def\<close>)
  show ?thesis
    by (rule bio_rel_change [OF R b(1) inv, of bp])
      (use b ok r(2) r(5) r(7) bufs in \<open>auto simp: bp_def layer_pin_def r(3,4) buf_pin_def buf_store_def\<close>)
qed

lemma nx_upd: "nx (upd i f c) = (nx c)(i := bf_next (f (bufs c i)))"
  and pv_upd: "pv (upd i f c) = (pv c)(i := bf_prev (f (bufs c i)))"
  by (auto simp: nx_def pv_def)

lemma mru_move_links:
  assumes "nx c b \<noteq> b" "b \<noteq> HEAD"
  shows "nx (mru_move b c) = (nx c)(pv c b := nx c b, b := ((nx c)(pv c b := nx c b)) HEAD, HEAD := b)"
    and "pv (mru_move b c) = (pv c)(nx c b := pv c b, b := HEAD, ((nx c)(pv c b := nx c b)) HEAD := b)"
proof -
  have f: "bf_next (bufs c i) = nx c i" "bf_prev (bufs c i) = pv c i" for c i by (simp_all add: nx_def pv_def)
  have s: "nx (upd i (\<lambda>bp. bp\<lparr>bf_prev := v\<rparr>) c) = nx c" "pv (upd i (\<lambda>bp. bp\<lparr>bf_next := v\<rparr>) c) = pv c"
    "nx (upd i (\<lambda>bp. bp\<lparr>bf_next := v\<rparr>) c) = (nx c)(i := v)"
    "pv (upd i (\<lambda>bp. bp\<lparr>bf_prev := v\<rparr>) c) = (pv c)(i := v)" for i v c
    by (simp_all add: nx_upd pv_upd f)
  show "nx (mru_move b c) = (nx c)(pv c b := nx c b, b := ((nx c)(pv c b := nx c b)) HEAD, HEAD := b)"
    and "pv (mru_move b c) = (pv c)(nx c b := pv c b, b := HEAD, ((nx c)(pv c b := nx c b)) HEAD := b)"
    using assms by (simp_all only: mru_move_def Let_def f s fun_upd_apply if_False if_True if_cancel simp_thms not_sym [OF assms(2)])
qed

lemma mru_move_field:
  assumes "\<And>b v. F (b\<lparr>bf_next := v\<rparr>) = F b" "\<And>b v. F (b\<lparr>bf_prev := v\<rparr>) = F b"
  shows "F (bufs (mru_move b c) i) = F (bufs c i)"
proof -
  have "F (bufs (upd j (\<lambda>bp. bp\<lparr>bf_next := v\<rparr>) c) i) = F (bufs c i)"
    "F (bufs (upd j (\<lambda>bp. bp\<lparr>bf_prev := v\<rparr>) c) i) = F (bufs c i)" for j v c
    using assms by simp_all
  then show ?thesis by (simp only: mru_move_def Let_def)
qed

lemma mru_move_fields:
  "quiet (mru_move b c) = quiet c" "drive (mru_move b c) = drive c"
  "bf_data (bufs (mru_move b c) i) = bf_data (bufs c i)" "bf_dev (bufs (mru_move b c) i) = bf_dev (bufs c i)"
  "bf_blockno (bufs (mru_move b c) i) = bf_blockno (bufs c i)" "bf_flags (bufs (mru_move b c) i) = bf_flags (bufs c i)"
  "bf_lock (bufs (mru_move b c) i) = bf_lock (bufs c i)" "bf_refcnt (bufs (mru_move b c) i) = bf_refcnt (bufs c i)"
proof -
  show "quiet (mru_move b c) = quiet c" "drive (mru_move b c) = drive c"
    by (simp_all only: mru_move_def Let_def quiet_def upd_simps)
qed (rule mru_move_field; simp)+

lemma mru_move_ring:
  assumes "dring (nx c) (pv c) xs" "set xs = {..<NBUF}" "b < NBUF"
  shows "\<exists>ys. dring (nx (mru_move b c)) (pv (mru_move b c)) ys \<and> set ys = {..<NBUF}"
proof -
  obtain us vs where sp: "xs = us @ b # vs" using assms(2,3) split_list [of b xs] by auto
  have un: "dring ((nx c)(pv c b := nx c b)) ((pv c)(nx c b := pv c b)) (us @ vs)" and ne: "nx c b \<noteq> b"
    using dring_unlink assms(1) unfolding sp by blast+
  have d: "b \<noteq> HEAD" "b \<notin> set (us @ vs)" using assms(1,3) sp by (auto simp: dring_def)
  have "set (b # us @ vs) = {..<NBUF}" using assms(2) sp by auto
  then show ?thesis using dring_push [OF un d] mru_move_links [OF ne d(1)] by auto
qed

lemma brelse_sim:
  assumes R: "bio_rel pid c s" and b: "b < NBUF" "locked (bf_lock (bufs c b))" "bf_blockno (bufs c b) = n"
  shows "\<exists>c'. bio_brelse pid b c = Ok c' \<and> bio_rel pid c' (s\<lparr>held := remove1 (1, n) (held s)\<rparr>) \<and>
    (\<forall>i. locked (bf_lock (bufs c' i)) \<longleftrightarrow> i \<noteq> b \<and> locked (bf_lock (bufs c i))) \<and>
    (\<forall>i. bf_blockno (bufs c' i) = bf_blockno (bufs c i))"
proof -
  note r = bio_rel_dest [OF R]
  have ok: "bf_dev (bufs c b) = 1" "bf_refcnt (bufs c b) = 1" "lk_pid (bf_lock (bufs c b)) = pid"
    using r(8) [OF b(1)] b(2) by (auto simp: buf_ok_def)
  define bp where "bp = (bufs c b)\<lparr>bf_lock := releasesleep (bf_lock (bufs c b)), bf_refcnt := 0\<rparr>"
  define c1 where "c1 = c\<lparr>bufs := (bufs c)(b := bp)\<rparr>"
  have run: "bio_brelse pid b c = Ok (mru_move b c1)"
    using b(2) ok by (simp add: bio_brelse_def holdingsleep_def Let_def c1_def bp_def upd_def)
  have inv1: "binv pid c1"
  proof (rule binv_change [OF r(1) b(1), of c1 bp])
    show "bf_blockno (bufs c j) \<noteq> bf_blockno bp" if "j < NBUF" "j \<noteq> b" "bf_dev (bufs c j) = 1" for j
      using r(10) [OF that(1) b(1) that(3) ok(1)] that(2) by (auto simp: bp_def)
  qed (use r(8) [OF b(1)] r(9) ok(1) in \<open>auto simp: c1_def bp_def buf_ok_def quiet_def releasesleep_def\<close>)
  have rel1: "bio_rel pid c1 (s\<lparr>held := remove1 (1, n) (held s)\<rparr>)"
    by (rule bio_rel_change [OF R b(1) inv1, of bp])
      (use b ok r(2) r(5) r(6) [OF b(1) ok(1)] r(7) in \<open>auto simp: c1_def bp_def releasesleep_def r(4)\<close>)
  obtain xs where xs: "dring (nx c1) (pv c1) xs" "set xs = {..<NBUF}" using inv1 by (auto simp: binv_def)
  have "binv pid (mru_move b c1)"
    using inv1 mru_move_ring [OF xs b(1)] unfolding binv_def buf_ok_def mru_move_fields by blast
  then have "bio_rel pid (mru_move b c1) (s\<lparr>held := remove1 (1, n) (held s)\<rparr>)"
    using rel1 unfolding bio_rel_def mru_move_fields by blast
  then show ?thesis using run by (auto simp: mru_move_fields c1_def bp_def releasesleep_def)
qed

section \<open>Sequences of operations\<close>

text \<open>
  What a process can do with blocks: read one, write one it holds, pin one it holds with new contents, release
  one it holds. \<open>run_layer\<close> and \<open>run_cache\<close> give the data the reads return, or how the sequence fails; \<open>h\<close> has the
  buffer pointers the process got. \<open>uses_held\<close> is the rule that only held blocks are used.
\<close>

datatype bop = BRead nat | BWrite nat block | BPin nat block | BRelse nat

primrec run_layer :: "bop list \<Rightarrow> blk_state \<Rightarrow> block list res" where
  "run_layer [] s = Ok []"
| "run_layer (x # ops) s =
     (case x of
        BRead n \<Rightarrow> rbind (bread 1 n s) (\<lambda>(bp, s). rbind (run_layer ops s) (\<lambda>ds. Ok (b_data bp # ds)))
      | BWrite n d \<Rightarrow> rbind (bwrite \<lparr>b_dev = 1, b_blockno = n, b_data = d\<rparr> s) (run_layer ops)
      | BPin n d \<Rightarrow> run_layer ops (layer_pin n d s)
      | BRelse n \<Rightarrow> rbind (brelse \<lparr>b_dev = 1, b_blockno = n, b_data = blks s (1, n)\<rparr> s) (run_layer ops))"

primrec run_cache :: "(nat \<Rightarrow> nat \<Rightarrow> bcache \<Rightarrow> bcache res) \<Rightarrow> nat \<Rightarrow> bop list \<Rightarrow> (nat \<Rightarrow> nat) \<Rightarrow> bcache \<Rightarrow> block list res" where
  "run_cache rw pid [] h c = Ok []"
| "run_cache rw pid (x # ops) h c =
     (case x of
        BRead n \<Rightarrow> rbind (bio_bread rw pid 1 n c) (\<lambda>(b, c).
          rbind (run_cache rw pid ops (h(n := b)) c) (\<lambda>ds. Ok (bf_data (bufs c b) # ds)))
      | BWrite n d \<Rightarrow> rbind (bio_bwrite rw pid (h n) (buf_store (h n) d c)) (run_cache rw pid ops h)
      | BPin n d \<Rightarrow> run_cache rw pid ops h (buf_pin (h n) (buf_store (h n) d c))
      | BRelse n \<Rightarrow> rbind (bio_brelse pid (h n) c) (run_cache rw pid ops h))"

primrec uses_held :: "nat list \<Rightarrow> bop list \<Rightarrow> bool" where
  "uses_held H [] \<longleftrightarrow> True"
| "uses_held H (x # ops) \<longleftrightarrow>
     (case x of
        BRead n \<Rightarrow> n < FSSIZE \<and> uses_held (n # H) ops
      | BWrite n d \<Rightarrow> n \<in> set H \<and> uses_held H ops
      | BPin n d \<Rightarrow> n \<in> set H \<and> uses_held H ops
      | BRelse n \<Rightarrow> n \<in> set H \<and> uses_held (removeAll n H) ops)"

definition holds :: "(nat \<Rightarrow> nat) \<Rightarrow> nat list \<Rightarrow> bcache \<Rightarrow> bool" where
  "holds h H c \<longleftrightarrow> (\<forall>n \<in> set H. h n < NBUF \<and> locked (bf_lock (bufs c (h n))) \<and> bf_blockno (bufs c (h n)) = n)"

context disk_driver begin

text \<open>The block is not cached: the least recently used free buffer is filled from the disk.\<close>

lemma bread_miss:
  assumes R: "bio_rel pid c s" and n: "n < FSSIZE"
    and none: "\<forall>i < NBUF. \<not> (bf_dev (bufs c i) = 1 \<and> bf_blockno (bufs c i) = n)"
    and b: "b < NBUF" "bf_refcnt (bufs c b) = 0" "bf_flags (bufs c b) AND B_DIRTY = 0"
    and w: "walk bf_next (NBUF + 1) (bf_next (bufs c HEAD)) (\<lambda>b. bf_dev b = 1 \<and> bf_blockno b = n) c = Ok None"
      "walk bf_prev (NBUF + 1) (bf_prev (bufs c HEAD)) (\<lambda>b. bf_refcnt b = 0 \<and> bf_flags b AND B_DIRTY = 0) c = Ok (Some b)"
  shows "same_read pid n c (bread 1 n s) (bio_bread rw pid 1 n c)"
proof -
  note r = bio_rel_dest [OF R]
  have free: "\<not> locked (bf_lock (bufs c b))" "bf_flags (bufs c b) \<noteq> 6" using r(8) [OF b(1)] b(2,3) by (auto simp: buf_ok_def)
  have used: "bf_dev (bufs c i) = 1" if "i < NBUF" "locked (bf_lock (bufs c i)) \<or> bf_flags (bufs c i) = 6" for i
    using buf_ok_used [OF r(8) [OF that(1)] that(2)] by simp
  have nh: "(1, n) \<notin> set (held s)" unfolding r(3) using none used by blast
  have nd: "(1, n) \<notin> set (dirty s)" unfolding r(4) using none used by blast
  note ab = bread_free [OF R b(1) free nh n]
  define bp where "bp = (bufs c b)\<lparr>bf_dev := 1, bf_blockno := n, bf_flags := 0, bf_refcnt := 1,
    bf_lock := (bf_lock (bufs c b))\<lparr>locked := True, lk_pid := pid\<rparr>\<rparr>"
  define c1 where "c1 = c\<lparr>bufs := (bufs c)(b := bp)\<rparr>"
  have get: "bget pid 1 n c = Ok (b, c1)"
    unfolding bget_def w using free(1) w(2) by (simp add: lock_buf_def acquiresleep_def c1_def bp_def upd_def)
  obtain g where rw: "rw pid b c1 = Ok ((upd b (\<lambda>bp. bp\<lparr>bf_data := drive c1 (1, bf_blockno bp), bf_flags := 2\<rparr>) c1)\<lparr>ide_reg := g\<rparr>)"
    using rw_read [of c1 pid b] r(9) n by (auto simp: c1_def bp_def quiet_def holdingsleep_def)
  define bp' where "bp' = bp\<lparr>bf_data := drive c (1, n), bf_flags := 2\<rparr>"
  define c' where "c' = c\<lparr>bufs := (bufs c)(b := bp'), ide_reg := g\<rparr>"
  have co: "bio_bread rw pid 1 n c = Ok (b, c')"
    by (simp add: bio_bread_def get rw) (simp add: c'_def c1_def bp'_def bp_def upd_def)
  have inv: "binv pid c'"
    by (rule binv_change [OF r(1) b(1), of c' bp'])
      (use none r(9) n in \<open>auto simp: c'_def bp'_def bp_def buf_ok_def quiet_def\<close>)
  have "bio_rel pid c' (s\<lparr>held := (1, n) # held s\<rparr>)"
    by (rule bio_rel_change [OF R b(1) inv, of bp'])
      (use free nh nd n r(2) r(5) r(7) in \<open>auto simp: c'_def bp'_def bp_def\<close>)
  then show ?thesis
    using b(1) r(5) [OF n] r(7) [OF n nd] free(1) unfolding same_read_def ab co by (auto simp: c'_def bp'_def bp_def)
qed

lemma bread_sim:
  assumes R: "bio_rel pid c s" and n: "n < FSSIZE"
  shows "same_read pid n c (bread 1 n s) (bio_bread rw pid 1 n c)"
proof -
  note r = bio_rel_dest [OF R]
  let ?P = "\<lambda>b. bf_dev b = 1 \<and> bf_blockno b = n" and ?Q = "\<lambda>b. bf_refcnt b = 0 \<and> bf_flags b AND B_DIRTY = 0"
  obtain xs where xs: "set xs = {..<NBUF}"
    and w: "\<forall>P. walk bf_next (NBUF + 1) (bf_next (bufs c HEAD)) P c = Ok (find (\<lambda>i. P (bufs c i)) xs)"
      "\<forall>P. walk bf_prev (NBUF + 1) (bf_prev (bufs c HEAD)) P c = Ok (find (\<lambda>i. P (bufs c i)) (rev xs))"
    using walk_both [OF r(1)] by blast
  note wn = w(1) [rule_format] and wp = w(2) [rule_format]
  have xs': "set (rev xs) = {..<NBUF}" using xs by simp
  show ?thesis
  proof (rule find_scan [OF xs, of "\<lambda>i. ?P (bufs c i)"])
    fix b assume f: "find (\<lambda>i. ?P (bufs c i)) xs = Some b" and b: "b < NBUF" and bn: "?P (bufs c b)"
    show ?thesis by (rule bread_hit [OF R b conjunct1 [OF bn] conjunct2 [OF bn]]) (simp only: wn f)
  next
    assume f: "find (\<lambda>i. ?P (bufs c i)) xs = None" and none: "\<forall>i < NBUF. \<not> ?P (bufs c i)"
    show ?thesis
    proof (rule find_scan [OF xs', of "\<lambda>i. ?Q (bufs c i)"])
      fix b assume g: "find (\<lambda>i. ?Q (bufs c i)) (rev xs) = Some b" and b: "b < NBUF" and bq: "?Q (bufs c b)"
      show ?thesis
        by (rule bread_miss [OF R n none b conjunct1 [OF bq] conjunct2 [OF bq]]) (simp_all only: wn f wp g)
    next
      assume g: "find (\<lambda>i. ?Q (bufs c i)) (rev xs) = None" and full: "\<forall>i < NBUF. \<not> ?Q (bufs c i)"
      have busy: "locked (bf_lock (bufs c i)) \<or> bf_flags (bufs c i) = 6" if "i < NBUF" for i
        using full r(8) [OF that] that by (auto simp: buf_ok_def)
      have used: "bf_dev (bufs c i) = 1" if "i < NBUF" for i
        using buf_ok_used [OF r(8) [OF that] busy [OF that]] by simp
      have "(1, n) \<notin> set (held s)" "(1, n) \<notin> set (dirty s)" unfolding r(3,4) using none used by blast+
      moreover have "NBUF \<le> card (set (held s) \<union> set (dirty s))" unfolding busy_card [OF R] using busy by blast
      ultimately have "bread 1 n s = Panic ''bget: no buffers''" by (simp add: bread_def)
      moreover have "bio_bread rw pid 1 n c = Panic ''bget: no buffers''"
        unfolding bio_bread_def bget_def wn f wp by (simp only: rbind.simps option.case wp g)
      ultimately show ?thesis by (simp add: same_read_def)
    qed
  qed
qed

lemma bwrite_sim:
  assumes R: "bio_rel pid c s" and b: "b < NBUF" "locked (bf_lock (bufs c b))" "bf_blockno (bufs c b) = n"
  shows "\<exists>c' s'. bio_bwrite rw pid b (buf_store b d c) = Ok c' \<and>
    bwrite \<lparr>b_dev = 1, b_blockno = n, b_data = d\<rparr> s = Ok s' \<and> bio_rel pid c' s' \<and>
    (\<forall>i. bf_lock (bufs c' i) = bf_lock (bufs c i) \<and> bf_blockno (bufs c' i) = bf_blockno (bufs c i))"
proof -
  note r = bio_rel_dest [OF R]
  have ok: "bf_dev (bufs c b) = 1" "n < FSSIZE" "bf_flags (bufs c b) = 2 \<or> bf_flags (bufs c b) = 6"
    "lk_pid (bf_lock (bufs c b)) = pid"
    using r(8) [OF b(1)] b(2,3) by (auto simp: buf_ok_def)
  define c1 where "c1 = c\<lparr>bufs := (bufs c)(b := (bufs c b)\<lparr>bf_data := d, bf_flags := 6\<rparr>)\<rparr>"
  have run: "bio_bwrite rw pid b (buf_store b d c) = rw pid b c1"
    using ok(3,4) b(2) by (auto simp: bio_bwrite_def buf_store_def holdingsleep_def c1_def upd_def)
  obtain g where rw: "rw pid b c1 = Ok ((upd b (\<lambda>bp. bp\<lparr>bf_flags := 2\<rparr>) c1)
      \<lparr>drive := (drive c1)((1, bf_blockno (bufs c1 b)) := bf_data (bufs c1 b)), ide_reg := g\<rparr>)"
    using rw_write [of c1 pid b] ok b r(9) by (auto simp: c1_def quiet_def holdingsleep_def)
  define bp where "bp = (bufs c b)\<lparr>bf_data := d, bf_flags := 2\<rparr>"
  define c' where "c' = c\<lparr>bufs := (bufs c)(b := bp), drive := (drive c)((1, n) := d), ide_reg := g\<rparr>"
  have co: "bio_bwrite rw pid b (buf_store b d c) = Ok c'"
    unfolding run rw using b(3) by (simp add: c'_def c1_def bp_def upd_def)
  have inv: "binv pid c'"
  proof (rule binv_change [OF r(1) b(1), of c' bp])
    show "bf_blockno (bufs c j) \<noteq> bf_blockno bp" if "j < NBUF" "j \<noteq> b" "bf_dev (bufs c j) = 1" for j
      using r(10) [OF that(1) b(1) that(3) ok(1)] that(2) by (auto simp: bp_def)
  qed (use r(8) [OF b(1)] r(9) ok(1) in \<open>auto simp: c'_def bp_def buf_ok_def quiet_def\<close>)
  have h: "(1, n) \<in> set (held s)" unfolding r(3) using b by blast
  define s' where "s' = s\<lparr>blks := (blks s)((1, n) := d), disk := (disk s)((1, n) := d),
    dirty := removeAll (1, n) (dirty s), wtrace := wtrace s @ [((1, n), d)]\<rparr>"
  have "bwrite \<lparr>b_dev = 1, b_blockno = n, b_data = d\<rparr> s = Ok s'" using h by (simp add: bwrite_def s'_def)
  moreover have "bio_rel pid c' s'"
  proof (rule bio_rel_change [OF R b(1) inv, of bp])
    show "a \<in> set (dirty s') \<longleftrightarrow> bf_flags bp = 6 \<and> a = (1, bf_blockno bp) \<or>
      a \<in> set (dirty s) \<and> \<not> (bf_flags (bufs c b) = 6 \<and> a = (1, bf_blockno (bufs c b)))" for a
    proof (cases "bf_flags (bufs c b) = 6")
      case False
      have "(1, n) \<notin> set (dirty s)"
      proof
        assume "(1, n) \<in> set (dirty s)"
        then obtain i where i: "i < NBUF" "bf_flags (bufs c i) = 6" "n = bf_blockno (bufs c i)" unfolding r(4) by blast
        have "bf_dev (bufs c i) = 1" using buf_ok_used [OF r(8) [OF i(1)] disjI2 [OF i(2)]] by (rule conjunct1)
        then have "i = b" using r(10) [OF i(1) b(1) _ ok(1)] unfolding i(3) [symmetric] b(3) by blast
        then show False using i(2) False by simp
      qed
      then show ?thesis using False by (auto simp: s'_def bp_def)
    qed (auto simp: s'_def bp_def b(3))
  qed (use b ok h r(2) r(5) r(7) in \<open>auto simp: c'_def bp_def s'_def\<close>)
  ultimately show ?thesis using co by (auto simp: c'_def bp_def)
qed

lemma run_sim:
  "bio_rel pid c s \<Longrightarrow> holds h H c \<Longrightarrow> uses_held H ops \<Longrightarrow> run_cache rw pid ops h c = run_layer ops s"
proof (induction ops arbitrary: c s h H)
  case (Cons x ops)
  note R = Cons.prems(1)
  show ?case
  proof (cases x)
    case (BRead n)
    note sim = bread_sim [OF R, of n] and u = Cons.prems(3) [unfolded BRead, simplified]
    show ?thesis
    proof (cases "bread 1 n s")
      case (Ok p)
      obtain bp s' where p: "p = (bp, s')" by (cases p)
      obtain b c' where b: "bio_bread rw pid 1 n c = Ok (b, c')" "bio_rel pid c' s'" "b < NBUF"
        "bf_data (bufs c' b) = b_data bp" "bf_blockno (bufs c' b) = n" "locked (bf_lock (bufs c' b))"
        "\<forall>i < NBUF. locked (bf_lock (bufs c i)) \<longrightarrow> bufs c' i = bufs c i"
        using sim u Ok p by (auto simp: same_read_def)
      have "holds (h(n := b)) (n # H) c'" using Cons.prems(2) b by (auto simp: holds_def)
      then have "run_cache rw pid ops (h(n := b)) c' = run_layer ops s'" using Cons.IH [OF b(2)] u by blast
      then show ?thesis using BRead Ok p b(1,4) by simp
    qed (use sim u BRead in \<open>auto simp: same_read_def\<close>)
  next
    case (BWrite n d)
    then have n: "n \<in> set H" "uses_held H ops" using Cons.prems(3) by simp_all
    then have hn: "h n < NBUF" "locked (bf_lock (bufs c (h n)))" "bf_blockno (bufs c (h n)) = n"
      using Cons.prems(2) by (auto simp: holds_def)
    obtain c' s' where c': "bio_bwrite rw pid (h n) (buf_store (h n) d c) = Ok c'"
      "bwrite \<lparr>b_dev = 1, b_blockno = n, b_data = d\<rparr> s = Ok s'" "bio_rel pid c' s'"
      "\<forall>i. bf_lock (bufs c' i) = bf_lock (bufs c i) \<and> bf_blockno (bufs c' i) = bf_blockno (bufs c i)"
      using bwrite_sim [OF R hn] by blast
    have "holds h H c'" using Cons.prems(2) c'(4) by (simp add: holds_def)
    then show ?thesis using Cons.IH [OF c'(3) _ n(2)] c'(1,2) BWrite by simp
  next
    case (BPin n d)
    then have n: "n \<in> set H" "uses_held H ops" using Cons.prems(3) by simp_all
    then have hn: "h n < NBUF" "locked (bf_lock (bufs c (h n)))" "bf_blockno (bufs c (h n)) = n"
      using Cons.prems(2) by (auto simp: holds_def)
    have "holds h H (buf_pin (h n) (buf_store (h n) d c))"
      using Cons.prems(2) by (auto simp: holds_def buf_pin_def buf_store_def)
    then show ?thesis using Cons.IH [OF pin_sim [OF R hn] _ n(2)] BPin by simp
  next
    case (BRelse n)
    then have n: "n \<in> set H" "uses_held (removeAll n H) ops" using Cons.prems(3) by simp_all
    then have hn: "h n < NBUF" "locked (bf_lock (bufs c (h n)))" "bf_blockno (bufs c (h n)) = n"
      using Cons.prems(2) by (auto simp: holds_def)
    obtain c' where c': "bio_brelse pid (h n) c = Ok c'" "bio_rel pid c' (s\<lparr>held := remove1 (1, n) (held s)\<rparr>)"
      "\<forall>i. locked (bf_lock (bufs c' i)) \<longleftrightarrow> i \<noteq> h n \<and> locked (bf_lock (bufs c i))"
      "\<forall>i. bf_blockno (bufs c' i) = bf_blockno (bufs c i)"
      using brelse_sim [OF R hn] by blast
    have "(1, n) \<in> set (held s)" unfolding bio_rel_dest(3) [OF R] using hn by (intro exI [of _ "h n"]) simp
    then have "brelse \<lparr>b_dev = 1, b_blockno = n, b_data = blks s (1, n)\<rparr> s = Ok (s\<lparr>held := remove1 (1, n) (held s)\<rparr>)"
      by (simp add: brelse_def)
    moreover have "holds h (removeAll n H) c'" using Cons.prems(2) hn(3) c'(3,4) by (auto simp: holds_def)
    ultimately show ?thesis using Cons.IH [OF c'(2) _ n(2)] c'(1) BRelse by simp
  qed
qed simp

end

section \<open>Booting the cache\<close>

text \<open>The static zero initialisation of the buffers.\<close>

definition zero_buf :: buf where
  "zero_buf = \<lparr>bf_flags = 0, bf_dev = 0, bf_blockno = 0, bf_lock = \<lparr>locked = False, lk_pid = 0\<rparr>, bf_refcnt = 0,
     bf_prev = 0, bf_next = 0, bf_data = (\<lambda>_. 0)\<rparr>"

definition blank :: "buf \<Rightarrow> bool" where
  "blank b \<longleftrightarrow> bf_dev b = 0 \<and> bf_flags b = 0 \<and> bf_refcnt b = 0 \<and> \<not> locked (bf_lock b)"

lemma binit_buf_links:
  assumes "b \<noteq> HEAD" "nx c HEAD \<noteq> b"
  shows "nx (binit_buf b c) = (nx c)(b := nx c HEAD, HEAD := b)"
    and "pv (binit_buf b c) = (pv c)(b := HEAD, nx c HEAD := b)"
proof -
  have f: "bf_next (bufs c i) = nx c i" "bf_prev (bufs c i) = pv c i" for c i by (simp_all add: nx_def pv_def)
  have s: "nx (upd i (\<lambda>bp. bp\<lparr>bf_prev := v\<rparr>) c) = nx c" "pv (upd i (\<lambda>bp. bp\<lparr>bf_next := v\<rparr>) c) = pv c"
    "nx (upd i (\<lambda>bp. bp\<lparr>bf_lock := g bp\<rparr>) c) = nx c" "pv (upd i (\<lambda>bp. bp\<lparr>bf_lock := g bp\<rparr>) c) = pv c"
    "nx (upd i (\<lambda>bp. bp\<lparr>bf_next := v\<rparr>) c) = (nx c)(i := v)"
    "pv (upd i (\<lambda>bp. bp\<lparr>bf_prev := v\<rparr>) c) = (pv c)(i := v)" for i v g c
    by (simp_all add: nx_upd pv_upd f)
  show "nx (binit_buf b c) = (nx c)(b := nx c HEAD, HEAD := b)" "pv (binit_buf b c) = (pv c)(b := HEAD, nx c HEAD := b)"
    by (simp_all only: binit_buf_def Let_def f s fun_upd_apply if_False not_sym [OF assms(1)])
qed

lemma binit_fold:
  assumes "dring (nx c) (pv c) []" "quiet c" "\<forall>i. blank (bufs c i)" "k \<le> NBUF"
  shows "let c' = fold binit_buf [0..<k] c in
    dring (nx c') (pv c') (rev [0..<k]) \<and> quiet c' \<and> drive c' = drive c \<and> (\<forall>i. blank (bufs c' i))"
  using assms(4)
proof (induction k)
  case (Suc k)
  define c' where "c' = fold binit_buf [0..<k] c"
  have IH: "dring (nx c') (pv c') (rev [0..<k])" "quiet c'" "drive c' = drive c" "\<forall>i. blank (bufs c' i)"
    using Suc by (simp_all add: Let_def c'_def)
  have k: "k \<noteq> HEAD" "k \<notin> set (rev [0..<k])" using Suc.prems by simp_all
  have "nx c' HEAD \<in> set (HEAD # rev [0..<k])"
    using IH(1) lseg_hd [of "nx c'" HEAD "rev [0..<k]" HEAD] hd_in_set [of "rev [0..<k] @ [HEAD]"] by (auto simp: dring_def)
  then have ne: "nx c' HEAD \<noteq> k" using k by auto
  have "quiet (binit_buf k c')" "drive (binit_buf k c') = drive c'"
    using IH(2) by (simp_all add: binit_buf_def quiet_def Let_def)
  moreover have "blank (bufs (binit_buf k c') i)" for i
    using IH(4) by (auto simp: binit_buf_def Let_def blank_def initsleeplock_def)
  moreover have "dring (nx (binit_buf k c')) (pv (binit_buf k c')) (k # rev [0..<k])"
    unfolding binit_buf_links [OF k(1) ne] by (rule dring_push [OF IH(1) k])
  ultimately show ?case using IH(3) by (simp add: Let_def c'_def)
qed (use assms in simp)

lemma binit_rel:
  fixes s :: blk_state
  assumes "held s = []" "dirty s = []" "blks s = disk s" "\<forall>n < FSSIZE. drive c (1, n) = disk s (1, n)"
    and "bufs c = (\<lambda>_. zero_buf)" "quiet c"
  shows "bio_rel pid (binit c) s"
proof -
  define c0 where "c0 = upd HEAD (\<lambda>bp. bp\<lparr>bf_prev := HEAD, bf_next := HEAD\<rparr>) c"
  have c0: "dring (nx c0) (pv c0) []" "quiet c0" "\<forall>i. blank (bufs c0 i)" "drive c0 = drive c"
    using assms(5,6) by (simp_all add: c0_def dring_def nx_def pv_def quiet_def blank_def zero_buf_def)
  have b: "dring (nx (binit c)) (pv (binit c)) (rev [0..<NBUF])" "quiet (binit c)" "drive (binit c) = drive c"
    "\<And>i. blank (bufs (binit c) i)"
    using binit_fold [OF c0(1-3), of NBUF] c0(4) by (simp_all only: Let_def binit_def c0_def order_refl simp_thms)
  have blank: "\<not> locked (bf_lock (bufs (binit c) i))" "bf_flags (bufs (binit c) i) \<noteq> 6" "bf_dev (bufs (binit c) i) \<noteq> 1"
    "buf_ok pid (bufs (binit c) i)" for i
    using b(4) [of i] by (auto simp: blank_def buf_ok_def)
  have "set (rev [0..<NBUF]) = {..<NBUF}" by auto
  then have "binv pid (binit c)" using b(1,2) blank(3,4) unfolding binv_def by blast
  then show ?thesis using assms(1-4) blank(1-3) b(3) by (simp add: bio_rel_def)
qed

text \<open>
  \<^bold>\<open>C13\<close>. The buffer cache implements the block layer the file system is verified against: after \<^verbatim>\<open>binit\<close>, any
  sequence of reads, writes, pins (\<^verbatim>\<open>log_write\<close>) and releases of blocks the process holds returns the same data from
  the cache, with its 30 recycled buffers, LRU list and disk queue, as from the layer, panics with the same
  message when all buffers are in use, and sleeps in the same case; with the ide driver and with the memory disk.
\<close>

theorem bio_refines_block_layer:
  assumes "held s = []" "dirty s = []" "blks s = disk s" "\<forall>n < FSSIZE. drive c (1, n) = disk s (1, n)"
    and "bufs c = (\<lambda>_. zero_buf)" "idequeue c = []" "havedisk1 c" "\<not> ide_err c" "uses_held [] ops"
  shows "run_cache iderw pid ops h (binit c) = run_layer ops s \<and>
    run_cache (memide_iderw FSSIZE) pid ops h (binit c) = run_layer ops s"
proof -
  have rel: "bio_rel pid (binit c) s"
    by (rule binit_rel) (use assms in \<open>simp_all add: quiet_def\<close>)
  have h: "holds h [] (binit c)" by (simp add: holds_def)
  show ?thesis using ide.run_sim [OF rel h assms(9)] memide.run_sim [OF rel h assms(9)] by blast
qed

definition boot_blk :: "blk_state" where
  "boot_blk = \<lparr>blks = (\<lambda>_ _. 0), disk = (\<lambda>_ _. 0), held = [], dirty = [], wtrace = [],
     klog = \<lparr>log_start = 2, log_size = 30, outstanding = 0, committing = False, log_dev = 1, lh_block = []\<rparr>\<rparr>"

definition boot_cache :: bcache where
  "boot_cache = \<lparr>bufs = (\<lambda>_. zero_buf), idequeue = [], havedisk1 = True, ide_reg = (\<lambda>_. 0), ide_err = False, drive = (\<lambda>_ _. 0)\<rparr>"

theorem bio_refines_block_layer_witness:
  "run_cache iderw 1 [BRead 5, BPin 5 (\<lambda>_. 7), BRelse 5, BRead 6, BRead 5, BWrite 5 (\<lambda>_. 8), BRelse 5, BRead 5] id (binit boot_cache) =
     Ok [\<lambda>_. 0, \<lambda>_. 0, \<lambda>_. 7, \<lambda>_. 8] \<and>
   run_cache (memide_iderw FSSIZE) 1 [BRead 5, BRead 5] id (binit boot_cache) = Sleeps ''sleeplock''"
proof -
  have l: "run_layer [BRead 5, BPin 5 (\<lambda>_. 7), BRelse 5, BRead 6, BRead 5, BWrite 5 (\<lambda>_. 8), BRelse 5, BRead 5] boot_blk =
      Ok [\<lambda>_. 0, \<lambda>_. 0, \<lambda>_. 7, \<lambda>_. 8]" "run_layer [BRead 5, BRead 5] boot_blk = Sleeps ''sleeplock''"
    by (simp_all add: bread_def bwrite_def brelse_def layer_pin_def boot_blk_def)
  show ?thesis
    using bio_refines_block_layer [of boot_blk boot_cache
        "[BRead 5, BPin 5 (\<lambda>_. 7), BRelse 5, BRead 6, BRead 5, BWrite 5 (\<lambda>_. 8), BRelse 5, BRead 5]" 1 id]
      bio_refines_block_layer [of boot_blk boot_cache "[BRead 5, BRead 5]" 1 id] l
    by (simp add: boot_blk_def boot_cache_def)
qed

declare One_nat_def [simp]

end
