(* ===== verification/Grep.thy ===== *)
theory Grep
  imports Prelude
begin

text \<open>
  The matcher and the line loop of grep.c. A C string is the list of its bytes before the terminating zero, so the
  byte a pointer leads to is the head of the list, or 0 at its end. The lemmas give the meaning of a pattern
  as a sequence of items and show that the backtracking matcher decides it, and that the loop over the
  buffer prints the matching lines however the input arrives.
\<close>

section \<open>The matcher\<close>

text \<open>\<^verbatim>\<open>^\<close> is 94, \<^verbatim>\<open>*\<close> 42, \<^verbatim>\<open>$\<close> 36, \<^verbatim>\<open>.\<close> 46.\<close>

function (sequential) matchhere :: "byte list \<Rightarrow> byte list \<Rightarrow> bool"
  and matchstar :: "byte \<Rightarrow> byte list \<Rightarrow> byte list \<Rightarrow> bool" where
  "matchhere [] str = True"
| "matchhere (c # re) str =
     (if re \<noteq> [] \<and> hd re = 42 then matchstar c (tl re) str
      else if c = 36 \<and> re = [] then str = []
      else
        (case str of
           [] \<Rightarrow> False
         | d # str \<Rightarrow> if c = 46 \<or> c = d then matchhere re str else False))"
| "matchstar c re str =
     (if matchhere re str then True
      else
        (case str of
           [] \<Rightarrow> False
         | d # str \<Rightarrow> if d = c \<or> c = 46 then matchstar c re str else False))"
  by pat_completeness auto
termination
  by (relation "measures [\<lambda>x. case x of Inl (re, t) \<Rightarrow> length re | Inr (c, re, t) \<Rightarrow> length re,
       \<lambda>x. case x of Inl (re, t) \<Rightarrow> length t | Inr (c, re, t) \<Rightarrow> length t,
       \<lambda>x. case x of Inl _ \<Rightarrow> 0 | Inr _ \<Rightarrow> 1]") auto

declare matchhere.simps(2) [simp del] matchstar.simps [simp del]

text \<open>The loop of \<^verbatim>\<open>match\<close>, which also tries the empty rest.\<close>

fun match_loop :: "byte list \<Rightarrow> byte list \<Rightarrow> bool" where
  "match_loop re str =
     (if matchhere re str then True else (case str of [] \<Rightarrow> False | _ # str \<Rightarrow> match_loop re str))"

declare match_loop.simps [simp del]

definition re_match :: "byte list \<Rightarrow> byte list \<Rightarrow> bool" where
  "re_match re str = (if re \<noteq> [] \<and> hd re = 94 then matchhere (tl re) str else match_loop re str)"

section \<open>The meaning of patterns\<close>

datatype item = One byte | Star byte | End

fun items :: "byte list \<Rightarrow> item list" where
  "items [] = []"
| "items [c] = (if c = 36 then [End] else [One c])"
| "items (c # d # re) = (if d = 42 then Star c # items re else One c # items (d # re))"

definition fits :: "byte \<Rightarrow> byte \<Rightarrow> bool" where
  "fits c d \<longleftrightarrow> c = 46 \<or> c = d"

text \<open>A prefix of the text has the shape of the items (all of the text, if the items end with \<open>End\<close>).\<close>

primrec begins :: "item list \<Rightarrow> byte list \<Rightarrow> bool" where
  "begins [] str \<longleftrightarrow> True"
| "begins (i # is) str \<longleftrightarrow>
     (case i of
        One c \<Rightarrow> (\<exists>d rest. str = d # rest \<and> fits c d \<and> begins is rest)
      | Star c \<Rightarrow> (\<exists>u rest. str = u @ rest \<and> (\<forall>d \<in> set u. fits c d) \<and> begins is rest)
      | End \<Rightarrow> str = [])"

lemma begins_Star:
  "begins (Star c # is) str \<longleftrightarrow>
     begins is str \<or> (case str of [] \<Rightarrow> False | d # rest \<Rightarrow> fits c d \<and> begins (Star c # is) rest)"
proof (cases str)
  case (Cons d rest)
  have "begins (Star c # is) str \<longleftrightarrow>
      begins is str \<or> (\<exists>u v. str = d # u @ v \<and> fits c d \<and> (\<forall>x \<in> set u. fits c x) \<and> begins is v)"
  proof
    assume "begins (Star c # is) str"
    then obtain u v where "str = u @ v" "\<forall>x \<in> set u. fits c x" "begins is v" by auto
    then show "begins is str \<or> (\<exists>u v. str = d # u @ v \<and> fits c d \<and> (\<forall>x \<in> set u. fits c x) \<and> begins is v)"
      using Cons by (cases u) auto
  next
    assume "begins is str \<or> (\<exists>u v. str = d # u @ v \<and> fits c d \<and> (\<forall>x \<in> set u. fits c x) \<and> begins is v)"
    then show "begins (Star c # is) str"
    proof
      assume "\<exists>u v. str = d # u @ v \<and> fits c d \<and> (\<forall>x \<in> set u. fits c x) \<and> begins is v"
      then obtain u v where "str = (d # u) @ v" "\<forall>x \<in> set (d # u). fits c x" "begins is v" by auto
      then show ?thesis unfolding begins.simps item.case by blast
    qed (auto intro: exI [of _ "[]"])
  qed
  then show ?thesis using Cons by auto
qed simp

lemma matchhere_items:
  "matchhere re str \<longleftrightarrow> begins (items re) str"
  "matchstar c re str \<longleftrightarrow> begins (Star c # items re) str"
proof (induction re str and c re str rule: matchhere_matchstar.induct)
  case (2 c re str)
  show ?case
  proof (cases re)
    case Nil
    then show ?thesis using 2 by (auto simp: matchhere.simps(2) fits_def split: list.splits)
  next
    case (Cons d re')
    show ?thesis
    proof (cases "d = 42")
      case True
      then show ?thesis using 2(1) Cons by (simp add: matchhere.simps(2))
    next
      case False
      then show ?thesis using 2(2) Cons by (auto simp: matchhere.simps(2) fits_def split: list.splits)
    qed
  qed
next
  case (3 c re str)
  show ?case
    unfolding begins_Star [of c "items re" str] using 3
    by (cases str) (auto simp: matchstar.simps fits_def)
qed simp

lemma match_loop_iff: "match_loop re str \<longleftrightarrow> (\<exists>u v. str = u @ v \<and> matchhere re v)"
proof (induction str)
  case Nil
  show ?case by (simp add: match_loop.simps)
next
  case (Cons d rest)
  have "(\<exists>u v. d # rest = u @ v \<and> matchhere re v) \<longleftrightarrow>
      matchhere re (d # rest) \<or> (\<exists>u v. rest = u @ v \<and> matchhere re v)"
    unfolding Cons_eq_append_conv by blast
  then show ?case using Cons by (simp add: match_loop.simps [of re "d # rest"])
qed

text \<open>
  \<^bold>\<open>C36\<close>. The matcher of grep decides the meaning of its patterns: \<open>re_match\<close> accepts exactly if the items of
  the pattern fit the text from its start (pattern with \<^verbatim>\<open>^\<close>) or from some position, where a letter fits itself,
  \<^verbatim>\<open>.\<close> fits every byte, \<^verbatim>\<open>c*\<close> fits every run (also the empty one), and a final \<^verbatim>\<open>$\<close> fits only the end. It
  terminates on every pattern and text.
\<close>

theorem re_match_meaning:
  "re_match re str \<longleftrightarrow>
     (case re of
        [] \<Rightarrow> True
      | c # re' \<Rightarrow> if c = 94 then begins (items re') str else (\<exists>u v. str = u @ v \<and> begins (items re) v))"
  by (cases re) (auto simp: re_match_def match_loop_iff matchhere_items)

section \<open>The line loop\<close>

text \<open>
  The inner loop on the bytes of the buffer from \<^verbatim>\<open>p\<close> on: what it prints, and the bytes left behind the last
  newline. \<^verbatim>\<open>strchr\<close> stops at a zero byte.
\<close>

function grep_lines :: "byte list \<Rightarrow> byte list \<Rightarrow> byte list \<times> byte list" where
  "grep_lines re q =
     (case first_idx (\<lambda>c. c = 10) (takeWhile (\<lambda>c. c \<noteq> 0) q) of
        None \<Rightarrow> ([], q)
      | Some k \<Rightarrow>
          (case grep_lines re (drop (Suc k) q) of
             (out, rest) \<Rightarrow> ((if re_match re (take k q) then take (Suc k) q else []) @ out, rest)))"
  by auto
termination
  by (relation "measure (\<lambda>(re, q). length q)")
     (auto simp: first_idx_Some dest!: length_takeWhile_le [THEN [2] less_le_trans])

declare grep_lines.simps [simp del]

text \<open>
  The outer loop: \<open>rd k inp\<close> is the number of bytes \<^verbatim>\<open>read\<close> returns when asked for \<open>k\<close> bytes with \<open>inp\<close> still to
  come; \<open>buf\<close> are the bytes kept from the last round.
\<close>

function grep_loop :: "byte list \<Rightarrow> (nat \<Rightarrow> byte list \<Rightarrow> nat) \<Rightarrow> byte list \<Rightarrow> byte list \<Rightarrow> byte list" where
  "grep_loop re rd buf inp =
     (let n = min (length inp) (rd (1024 - length buf - 1) inp) in
      if n = 0 then []
      else
        let buf = buf @ take n inp in
        (case grep_lines re buf of
           (out, rest) \<Rightarrow> out @ grep_loop re rd (if rest = buf then [] else rest) (drop n inp)))"
  by auto
termination
  by (relation "measure (\<lambda>(re, rd, buf, inp). length inp)") auto

declare grep_loop.simps [simp del]

definition grep :: "byte list \<Rightarrow> (nat \<Rightarrow> byte list \<Rightarrow> nat) \<Rightarrow> byte list \<Rightarrow> byte list" where
  "grep pattern rd inp = grep_loop pattern rd [] inp"

section \<open>The lines printed\<close>

text \<open>The text of a list of lines, each with its newline, and the lines a pattern selects.\<close>

definition unlines :: "byte list list \<Rightarrow> byte list" where
  "unlines ls = concat (map (\<lambda>l. l @ [10]) ls)"

lemma unlines_simps [simp]:
  "unlines [] = []"
  "unlines (l # ls) = l @ 10 # unlines ls"
  "unlines (ls @ ms) = unlines ls @ unlines ms"
  by (simp_all add: unlines_def)

definition line :: "byte list \<Rightarrow> bool" where
  "line l \<longleftrightarrow> 0 \<notin> set l \<and> 10 \<notin> set l \<and> length l \<le> 1022"

lemma first_newline:
  fixes l :: "byte list"
  assumes "0 \<notin> set l" "10 \<notin> set l"
  shows "first_idx (\<lambda>c. c = 10) (takeWhile (\<lambda>c. c \<noteq> 0) (l @ 10 # r)) = Some (length l)"
    and "first_idx (\<lambda>c. c = 10) (takeWhile (\<lambda>c. c \<noteq> 0) l) = None"
proof -
  have tw: "takeWhile (\<lambda>c. c \<noteq> 0) (l @ r') = l @ takeWhile (\<lambda>c. c \<noteq> 0) r'" for r'
    using assms(1) by (induction l) auto
  show "first_idx (\<lambda>c. c = 10) (takeWhile (\<lambda>c. c \<noteq> 0) (l @ 10 # r)) = Some (length l)"
    using assms(2) unfolding tw first_idx_Some by (auto simp: nth_append in_set_conv_nth)
  show "first_idx (\<lambda>c. c = 10) (takeWhile (\<lambda>c. c \<noteq> 0) l) = None"
    using assms(2) by (auto dest: set_takeWhileD)
qed

lemma grep_lines_unlines:
  "\<forall>l \<in> set (r # ls). line l \<Longrightarrow> grep_lines re (unlines ls @ r) = (unlines (filter (re_match re) ls), r)"
proof (induction ls)
  case Nil
  then show ?case by (subst grep_lines.simps) (simp add: first_newline(2) line_def)
next
  case (Cons l ls)
  then show ?case by (subst grep_lines.simps) (simp add: first_newline(1) line_def)
qed

text \<open>A buffer of 1023 bytes holds at least one whole line and ends with a part of a line.\<close>

lemma take_unlines:
  assumes "\<forall>l \<in> set (r # ls). line l"
  shows "\<exists>j q. take n (unlines ls @ r) = unlines (take j ls) @ q \<and>
    q @ drop n (unlines ls @ r) = unlines (drop j ls) @ r \<and> line q \<and> j \<le> length ls \<and>
    (ls \<noteq> [] \<longrightarrow> 1023 \<le> n \<longrightarrow> 0 < j)"
  using assms
proof (induction ls arbitrary: n)
  case Nil
  then have "line (take n r)" by (auto simp: line_def dest: in_set_takeD)
  then show ?case by (intro exI [of _ 0] exI [of _ "take n r"]) simp
next
  case (Cons l ls)
  show ?case
  proof (cases "n \<le> length l")
    case True
    have "line (take n l)" using Cons.prems by (auto simp: line_def dest: in_set_takeD)
    moreover have "length l \<le> 1022" using Cons.prems by (simp add: line_def)
    ultimately show ?thesis using True by (intro exI [of _ 0] exI [of _ "take n l"]) simp
  next
    case False
    obtain m where m: "n = length l + Suc m" using False by (metis add_Suc_right less_imp_Suc_add not_le)
    obtain j q where "take m (unlines ls @ r) = unlines (take j ls) @ q"
      "q @ drop m (unlines ls @ r) = unlines (drop j ls) @ r" "line q" "j \<le> length ls"
      using Cons.IH [of m] Cons.prems by auto
    then show ?thesis using m by (intro exI [of _ "Suc j"] exI [of _ q]) simp
  qed
qed

lemma grep_loop_unlines:
  assumes "buf @ inp = unlines ls @ r" "\<forall>l \<in> set (r # ls). line l" "line buf"
  shows "grep_loop re (\<lambda>k _. k) buf inp = unlines (filter (re_match re) ls)"
  using assms
proof (induction "length inp" arbitrary: buf inp ls rule: less_induct)
  case less
  have buf: "10 \<notin> set buf" "length buf \<le> 1022" using less.prems(3) by (simp_all add: line_def)
  show ?case
  proof (cases "inp = []")
    case True
    then have "ls = []" using less.prems(1) buf(1) by (cases ls) auto
    then show ?thesis using True by (simp add: grep_loop.simps)
  next
    case False
    define n where "n = min (length inp) (1023 - length buf)"
    have n: "0 < n" using False buf(2) by (simp add: n_def)
    define whole where "whole = unlines ls @ r"
    have b: "buf @ take n inp = take 1023 whole" and d: "drop n inp = drop 1023 whole"
      using buf(2) unfolding whole_def n_def less.prems(1) [symmetric] by (simp_all add: min_def)
    obtain j q where jq: "take 1023 whole = unlines (take j ls) @ q" "q @ drop 1023 whole = unlines (drop j ls) @ r"
      "line q" "j \<le> length ls" "ls \<noteq> [] \<longrightarrow> 0 < j"
      using take_unlines [OF less.prems(2), of 1023] unfolding whole_def by auto
    have dl: "\<forall>l \<in> set (r # drop j ls). line l" "\<forall>l \<in> set (q # take j ls). line l"
      using less.prems(2) jq(3) by (auto dest: in_set_dropD in_set_takeD)
    have fl: "filter (re_match re) ls = filter (re_match re) (take j ls) @ filter (re_match re) (drop j ls)"
      by (metis append_take_drop_id filter_append)
    have step: "grep_loop re (\<lambda>k _. k) buf inp = unlines (filter (re_match re) (take j ls)) @
        grep_loop re (\<lambda>k _. k) (if q = unlines (take j ls) @ q then [] else q) (drop 1023 whole)"
      using n grep_lines_unlines [OF dl(2)]
      by (subst grep_loop.simps) (simp add: Let_def n_def [symmetric] b d jq(1))
    show ?thesis
    proof (cases "ls = []")
      case True
      then have "drop 1023 whole = []" using less.prems(2) by (simp add: whole_def line_def)
      then show ?thesis using step True by (simp add: grep_loop.simps)
    next
      case False
      then have "q \<noteq> unlines (take j ls) @ q" using jq(4,5) by (cases "take j ls") auto
      moreover have "grep_loop re (\<lambda>k _. k) q (drop 1023 whole) = unlines (filter (re_match re) (drop j ls))"
        by (rule less.hyps [OF _ jq(2) dl(1) jq(3)]) (use n \<open>inp \<noteq> []\<close> in \<open>simp add: d [symmetric]\<close>)
      ultimately show ?thesis using step fl by simp
    qed
  qed
qed

text \<open>
  \<^bold>\<open>C37\<close>. grep prints exactly the lines of a file its pattern selects, in order and with their newlines: for a
  file of zero-free lines of at most 1022 bytes, read with full reads into the buffer of 1024 bytes, also
  where a read ends within a line. An unterminated last line is not printed.
\<close>

theorem grep_selects_lines:
  assumes "\<forall>l \<in> set ls. 0 \<notin> set l \<and> 10 \<notin> set l \<and> length l \<le> 1022"
    and "0 \<notin> set r" "10 \<notin> set r" "length r \<le> 1022"
  shows "grep pattern (\<lambda>k _. k) (concat (map (\<lambda>l. l @ [10]) ls) @ r) =
    concat (map (\<lambda>l. l @ [10]) (filter (re_match pattern) ls))"
proof -
  have "grep_loop pattern (\<lambda>k _. k) [] (unlines ls @ r) = unlines (filter (re_match pattern) ls)"
    by (rule grep_loop_unlines) (use assms in \<open>auto simp: line_def\<close>)
  then show ?thesis by (simp add: grep_def unlines_def)
qed

theorem grep_selects_lines_witness:
  "grep [94, 98, 42, 99] (\<lambda>k _. k) ([97, 98, 10] @ [98, 99, 10] @ (99 # replicate 1000 97) @ [10] @ [98, 98] @ [10, 98, 99]) =
     [98, 99, 10] @ (99 # replicate 1000 97) @ [10]"
  using grep_selects_lines [of "[[97, 98], [98, 99], 99 # replicate 1000 97, [98, 98]]" "[98, 99]" "[94, 98, 42, 99]"]
  by (simp add: re_match_def matchhere.simps matchstar.simps)

end
