(* ===== verification/Sh.thy ===== *)
theory Sh
  imports Strings
begin

text \<open>
  The command parser of the shell, sh.c. Pointers into the command line are positions in its buffer; the trees the parser
  builds hold such positions, and at the end the words are cut by zero bytes stored into the buffer. The main property is that
  the parser reads back every command from its printed form.
\<close>

section \<open>Tokens\<close>

definition whitespace :: "byte list" where
  "whitespace = [32, 9, 13, 10, 11]"

definition symbols :: "byte list" where
  "symbols = lit ''<|>&;()''"

function skip_white :: "block \<Rightarrow> nat \<Rightarrow> nat \<Rightarrow> nat" where
  "skip_white b es s = (if s < es \<and> b s \<in> set whitespace then skip_white b es (s + 1) else s)"
  by auto
termination
  by (relation "measure (\<lambda>(b, es, s). es - s)") auto

function skip_word :: "block \<Rightarrow> nat \<Rightarrow> nat \<Rightarrow> nat" where
  "skip_word b es s = (if s < es \<and> b s \<notin> set whitespace \<and> b s \<notin> set symbols then skip_word b es (s + 1) else s)"
  by auto
termination
  by (relation "measure (\<lambda>(b, es, s). es - s)") auto

declare skip_white.simps [simp del]
declare skip_word.simps [simp del]

text \<open>The token, where it starts and ends, and the new position. A word is 97 (\<^verbatim>\<open>'a'\<close>) and \<^verbatim>\<open>>>\<close> is 43 (\<^verbatim>\<open>'+'\<close>).\<close>

definition gettoken :: "block \<Rightarrow> nat \<Rightarrow> nat \<Rightarrow> byte \<times> nat \<times> nat \<times> nat" where
  "gettoken b es s =
     (let q = skip_white b es s;
          (ret, eq) =
            (if b q = 0 then (0, q)
             else if b q \<in> set (lit ''|();&<'') then (b q, q + 1)
             else if b q = 62 then (if b (q + 1) = 62 then (43, q + 2) else (62, q + 1))
             else (97, skip_word b es q))
      in (ret, q, eq, skip_white b es eq))"

definition peek :: "block \<Rightarrow> nat \<Rightarrow> nat \<Rightarrow> byte list \<Rightarrow> bool \<times> nat" where
  "peek b es s toks = (let s = skip_white b es s in (b s \<noteq> 0 \<and> b s \<in> set toks, s))"

section \<open>Commands\<close>

text \<open>A word is given by the positions of its first byte and of the byte after it.\<close>

datatype cmd =
    EXEC "(nat \<times> nat) list"
  | REDIR cmd "nat \<times> nat" nat nat
  | PIPE cmd cmd
  | LIST cmd cmd
  | BACK cmd

abbreviation (input) MAXARGS :: nat where "MAXARGS \<equiv> 10"
abbreviation (input) O_RDONLY :: nat where "O_RDONLY \<equiv> 0"
abbreviation (input) O_CREAT_WR :: nat where "O_CREAT_WR \<equiv> 513"

text \<open>
  The redirections \<^verbatim>\<open>parseredirs\<close> wraps around its command, innermost first. All loops and recursive calls of the parser
  count down; running out is \<open>Undef\<close>.
\<close>

fun parseredirs :: "nat \<Rightarrow> block \<Rightarrow> nat \<Rightarrow> nat \<Rightarrow> (((nat \<times> nat) \<times> nat \<times> nat) list \<times> nat) res" where
  "parseredirs 0 b es s = Undef ''parseredirs''"
| "parseredirs (Suc n) b es s =
     (case peek b es s (lit ''<>'') of
        (False, s) \<Rightarrow> Ok ([], s)
      | (True, s) \<Rightarrow>
          (case gettoken b es s of (tok, _, _, s) \<Rightarrow>
          (case gettoken b es s of (w, q, eq, s) \<Rightarrow>
             if w \<noteq> 97 then Panic ''missing file for redirection''
             else
               let r = (if tok = 60 then [((q, eq), O_RDONLY, 0)]
                        else if tok = 62 \<or> tok = 43 then [((q, eq), O_CREAT_WR, 1)]
                        else [])
               in rbind (parseredirs n b es s) (\<lambda>(rs, s). Ok (r @ rs, s)))))"

definition redirs :: "cmd \<Rightarrow> ((nat \<times> nat) \<times> nat \<times> nat) list \<Rightarrow> cmd" where
  "redirs c rs = foldl (\<lambda>c (w, mode, fd). REDIR c w mode fd) c rs"

text \<open>
  The loop of \<^verbatim>\<open>parseexec\<close> over the arguments; \<open>argv\<close> are those so far. The node of the command is filled in place while
  redirections are already wrapped around it, so arguments and redirections are returned separately.
\<close>

fun parseargs :: "nat \<Rightarrow> block \<Rightarrow> nat \<Rightarrow> (nat \<times> nat) list \<Rightarrow> ((nat \<times> nat) \<times> nat \<times> nat) list \<Rightarrow> nat \<Rightarrow> (cmd \<times> nat) res" where
  "parseargs 0 b es argv rs s = Undef ''parseexec''"
| "parseargs (Suc n) b es argv rs s =
     (case peek b es s (lit ''|)&;'') of
        (True, s) \<Rightarrow> Ok (redirs (EXEC argv) rs, s)
      | (False, s) \<Rightarrow>
          (case gettoken b es s of (tok, q, eq, s) \<Rightarrow>
             if tok = 0 then Ok (redirs (EXEC argv) rs, s)
             else if tok \<noteq> 97 then Panic ''syntax''
             else if MAXARGS \<le> length argv + 1 then Panic ''too many args''
             else rbind (parseredirs n b es s) (\<lambda>(rs', s). parseargs n b es (argv @ [(q, eq)]) (rs @ rs') s)))"

text \<open>The loop of \<^verbatim>\<open>parseline\<close> over ampersands.\<close>

fun parsebacks :: "nat \<Rightarrow> block \<Rightarrow> nat \<Rightarrow> cmd \<Rightarrow> nat \<Rightarrow> (cmd \<times> nat) res" where
  "parsebacks 0 b es c s = Undef ''parseline''"
| "parsebacks (Suc n) b es c s =
     (case peek b es s (lit ''&'') of
        (False, s) \<Rightarrow> Ok (c, s)
      | (True, s) \<Rightarrow> (case gettoken b es s of (_, _, _, s) \<Rightarrow> parsebacks n b es (BACK c) s))"

fun parseline :: "nat \<Rightarrow> block \<Rightarrow> nat \<Rightarrow> nat \<Rightarrow> (cmd \<times> nat) res"
  and parsepipe :: "nat \<Rightarrow> block \<Rightarrow> nat \<Rightarrow> nat \<Rightarrow> (cmd \<times> nat) res"
  and parseblock :: "nat \<Rightarrow> block \<Rightarrow> nat \<Rightarrow> nat \<Rightarrow> (cmd \<times> nat) res"
  and parseexec :: "nat \<Rightarrow> block \<Rightarrow> nat \<Rightarrow> nat \<Rightarrow> (cmd \<times> nat) res" where
  "parseline 0 b es s = Undef ''parseline''"
| "parseline (Suc n) b es s =
     rbind (parsepipe n b es s) (\<lambda>(c, s).
     rbind (parsebacks n b es c s) (\<lambda>(c, s).
     case peek b es s (lit '';'') of
       (False, s) \<Rightarrow> Ok (c, s)
     | (True, s) \<Rightarrow>
         (case gettoken b es s of (_, _, _, s) \<Rightarrow>
         rbind (parseline n b es s) (\<lambda>(r, s). Ok (LIST c r, s)))))"
| "parsepipe 0 b es s = Undef ''parsepipe''"
| "parsepipe (Suc n) b es s =
     rbind (parseexec n b es s) (\<lambda>(c, s).
     case peek b es s (lit ''|'') of
       (False, s) \<Rightarrow> Ok (c, s)
     | (True, s) \<Rightarrow>
         (case gettoken b es s of (_, _, _, s) \<Rightarrow>
         rbind (parsepipe n b es s) (\<lambda>(r, s). Ok (PIPE c r, s))))"
| "parseblock 0 b es s = Undef ''parseblock''"
| "parseblock (Suc n) b es s =
     (case peek b es s (lit ''('') of
        (False, s) \<Rightarrow> Panic ''parseblock''
      | (True, s) \<Rightarrow>
          (case gettoken b es s of (_, _, _, s) \<Rightarrow>
          rbind (parseline n b es s) (\<lambda>(c, s).
          case peek b es s (lit '')'') of
            (False, s) \<Rightarrow> Panic ''syntax - missing )''
          | (True, s) \<Rightarrow>
              (case gettoken b es s of (_, _, _, s) \<Rightarrow>
              rbind (parseredirs n b es s) (\<lambda>(rs, s). Ok (redirs c rs, s))))))"
| "parseexec 0 b es s = Undef ''parseexec''"
| "parseexec (Suc n) b es s =
     (case peek b es s (lit ''('') of
        (True, s) \<Rightarrow> parseblock n b es s
      | (False, s) \<Rightarrow> rbind (parseredirs n b es s) (\<lambda>(rs, s). parseargs n b es [] rs s))"

fun nulterminate :: "cmd \<Rightarrow> block \<Rightarrow> block" where
  "nulterminate (EXEC argv) b = foldl (\<lambda>b (q, eq). b(eq := 0)) b argv"
| "nulterminate (REDIR c (q, eq) mode fd) b = (nulterminate c b)(eq := 0)"
| "nulterminate (PIPE l r) b = nulterminate r (nulterminate l b)"
| "nulterminate (LIST l r) b = nulterminate r (nulterminate l b)"
| "nulterminate (BACK c) b = nulterminate c b"

definition parsecmd :: "block \<Rightarrow> (cmd \<times> block) res" where
  "parsecmd b =
     (case strlen b of
        None \<Rightarrow> Undef ''strlen''
      | Some es \<Rightarrow>
          rbind (parseline (4 * es + 4) b es 0) (\<lambda>(c, s).
          case peek b es s [] of (_, s) \<Rightarrow> if s \<noteq> es then Panic ''syntax'' else Ok (c, nulterminate c b)))"

section \<open>What is left of the line\<close>

text \<open>\<open>rest_at b es s l\<close>: from position \<open>s\<close> to the end the buffer holds \<open>l\<close>; \<open>at\<close> does not look at leading white space.\<close>

definition rest_at :: "block \<Rightarrow> nat \<Rightarrow> nat \<Rightarrow> byte list \<Rightarrow> bool" where
  "rest_at b es s l \<longleftrightarrow> s + length l = es \<and> (\<forall>i < length l. b (s + i) = l ! i) \<and> b es = 0 \<and> 0 \<notin> set l"

abbreviation (input) trim :: "byte list \<Rightarrow> byte list" where "trim l \<equiv> dropWhile (\<lambda>c. c \<in> set whitespace) l"

definition at :: "block \<Rightarrow> nat \<Rightarrow> nat \<Rightarrow> byte list \<Rightarrow> bool" where
  "at b es s l \<longleftrightarrow> (\<exists>l'. rest_at b es s l' \<and> trim l' = trim l)"

definition wordchar :: "byte \<Rightarrow> bool" where
  "wordchar c \<longleftrightarrow> c \<noteq> 0 \<and> c \<notin> set whitespace \<and> c \<notin> set symbols"

definition word :: "byte list \<Rightarrow> bool" where
  "word w \<longleftrightarrow> w \<noteq> [] \<and> list_all wordchar w"

text \<open>The word \<open>w\<close> stands between two positions and ends there.\<close>

definition word_at :: "block \<Rightarrow> nat \<times> nat \<Rightarrow> byte list \<Rightarrow> bool" where
  "word_at b p w \<longleftrightarrow> snd p = fst p + length w \<and> (\<forall>i < length w. b (fst p + i) = w ! i) \<and> \<not> wordchar (b (snd p)) \<and> word w"

lemma rest_at_Nil [simp]: "rest_at b es s [] \<longleftrightarrow> s = es \<and> b es = 0"
  by (auto simp: rest_at_def)

lemma rest_at_Cons: "rest_at b es s (c # l) \<longleftrightarrow> s < es \<and> b s = c \<and> c \<noteq> 0 \<and> rest_at b es (s + 1) l"
  by (fastforce simp: rest_at_def nth_Cons split: nat.splits intro: gr0_implies_Suc)

lemma rest_at_append: "rest_at b es s (w @ l) \<Longrightarrow> rest_at b es (s + length w) l"
proof (induction w arbitrary: s)
  case (Cons c w)
  then show ?case using Cons.IH [of "s + 1"] by (simp add: rest_at_Cons)
qed simp

lemma rest_at_prefix: "rest_at b es s (w @ l) \<Longrightarrow> i < length w \<Longrightarrow> b (s + i) = w ! i"
  by (auto simp: rest_at_def nth_append)

lemma skip_white_at: "rest_at b es s l \<Longrightarrow> rest_at b es (skip_white b es s) (trim l)"
proof (induction l arbitrary: s)
  case (Cons c l)
  then show ?case by (subst skip_white.simps) (auto simp: rest_at_Cons)
qed (subst skip_white.simps, simp)

lemma skip_word_at:
  assumes "rest_at b es s (w @ l)" "list_all wordchar w" "l = [] \<or> \<not> wordchar (hd l)"
  shows "skip_word b es s = s + length w"
  using assms
proof (induction w arbitrary: s)
  case Nil
  then show ?case by (subst skip_word.simps, cases l) (auto simp: rest_at_Cons wordchar_def)
next
  case (Cons c w)
  then show ?case by (subst skip_word.simps) (auto simp: rest_at_Cons wordchar_def)
qed

lemma trim_trim [simp]: "trim (trim l) = trim l"
  by (induction l) auto

lemma at_skip: "at b es s l \<Longrightarrow> rest_at b es (skip_white b es s) (trim l)"
  unfolding at_def by (metis skip_white_at)

lemma at_rest: "rest_at b es s l \<Longrightarrow> at b es s l"
  by (auto simp: at_def)

lemma at_cong: "trim l = trim l' \<Longrightarrow> at b es s l = at b es s l'"
  by (simp add: at_def)

lemma rest_at_hd: "rest_at b es s l \<Longrightarrow> b s = (if l = [] then 0 else hd l)"
  by (cases l) (auto simp: rest_at_Cons)

lemma peek_at:
  assumes "at b es s l"
  shows "\<exists>s'. peek b es s toks = (trim l \<noteq> [] \<and> hd (trim l) \<in> set toks, s') \<and> at b es s' l"
proof -
  note r = at_skip [OF assms]
  have "b (skip_white b es s) \<noteq> 0 \<longleftrightarrow> trim l \<noteq> []" using r by (cases "trim l") (auto simp: rest_at_Cons)
  moreover have "at b es (skip_white b es s) l" using at_rest [OF r] by (simp add: at_cong [OF trim_trim])
  ultimately show ?thesis using rest_at_hd [OF r] by (auto simp: peek_def Let_def)
qed

lemma peek_no: "at b es s l \<Longrightarrow> trim l = [] \<or> hd (trim l) \<notin> set toks \<Longrightarrow> \<exists>s'. peek b es s toks = (False, s') \<and> at b es s' l"
  using peek_at [of b es s l toks] by auto

lemma peek_yes: "at b es s l \<Longrightarrow> trim l = c # r \<Longrightarrow> c \<in> set toks \<Longrightarrow> \<exists>s'. peek b es s toks = (True, s') \<and> at b es s' l"
  using peek_at [of b es s l toks] by auto

lemma gettoken_end:
  assumes "at b es s l" "trim l = []"
  shows "\<exists>q eq s'. gettoken b es s = (0, q, eq, s') \<and> at b es s' l"
proof -
  have r: "rest_at b es (skip_white b es s) []" using at_skip [OF assms(1)] unfolding assms(2) .
  then have q: "skip_white b es s = es" "b es = 0" by simp_all
  have "skip_white b es es = es" by (subst skip_white.simps) simp
  moreover have "at b es es l" unfolding at_def assms(2) using q(2) by (intro exI [of _ "[]"]) simp
  ultimately show ?thesis using q by (simp add: gettoken_def Let_def)
qed

lemma gettoken_sym:
  assumes "at b es s l" "trim l = c # r" "c \<in> set (lit ''|();&<'')"
  shows "\<exists>q eq s'. gettoken b es s = (c, q, eq, s') \<and> at b es s' r"
proof -
  have r: "rest_at b es (skip_white b es s) (c # r)" using at_skip [OF assms(1)] assms(2) by simp
  then have "rest_at b es (skip_white b es s + 1) r" by (simp add: rest_at_Cons)
  from at_rest [OF skip_white_at [OF this]] have "at b es (skip_white b es (skip_white b es s + 1)) r" by (simp add: at_cong [OF trim_trim])
  then show ?thesis using r assms(3) by (auto simp: gettoken_def Let_def rest_at_Cons)
qed

lemma gettoken_gt:
  assumes "at b es s l" "trim l = 62 # r" "r = [] \<or> hd r \<noteq> 62"
  shows "\<exists>q eq s'. gettoken b es s = (62, q, eq, s') \<and> at b es s' r"
proof -
  have r: "rest_at b es (skip_white b es s) (62 # r)" using at_skip [OF assms(1)] assms(2) by simp
  then have r1: "rest_at b es (skip_white b es s + 1) r" by (simp add: rest_at_Cons)
  from at_rest [OF skip_white_at [OF this]] have "at b es (skip_white b es (skip_white b es s + 1)) r" by (simp add: at_cong [OF trim_trim])
  moreover have "b (skip_white b es s + 1) \<noteq> 62" using rest_at_hd [OF r1] assms(3) by (auto split: if_splits)
  moreover have "(62 :: byte) \<notin> set (lit ''|();&<'')" by (simp add: lit_def)
  ultimately show ?thesis using r by (auto simp: gettoken_def Let_def rest_at_Cons)
qed

lemma gettoken_word:
  assumes "at b es s l" "trim l = w @ r" "word w" "r = [] \<or> \<not> wordchar (hd r)"
  shows "\<exists>q s'. gettoken b es s = (97, q, q + length w, s') \<and> at b es s' r \<and> word_at b (q, q + length w) w"
proof -
  define q where "q = skip_white b es s"
  have r: "rest_at b es q (w @ r)" using at_skip [OF assms(1)] assms(2) by (simp add: q_def)
  obtain c w' where w: "w = c # w'" "wordchar c" using assms(3) by (cases w) (auto simp: word_def)
  have bq: "b q = c" using r w by (simp add: rest_at_Cons)
  have n: "b q \<noteq> 0" "b q \<notin> set (lit ''|();&<'')" "b q \<noteq> 62"
    using bq w(2) by (auto simp: wordchar_def symbols_def lit_def)
  have k: "skip_word b es q = q + length w" using skip_word_at [OF r _ assms(4)] assms(3) by (simp add: word_def)
  have r2: "rest_at b es (q + length w) r" using rest_at_append [OF r] .
  have "at b es (skip_white b es (q + length w)) r" using at_rest [OF skip_white_at [OF r2]] by (simp add: at_cong [OF trim_trim])
  moreover have "\<not> wordchar (b (q + length w))" using rest_at_hd [OF r2] assms(4) by (auto simp: wordchar_def split: if_splits)
  ultimately show ?thesis using n k assms(3) rest_at_prefix [OF r] by (auto simp: gettoken_def Let_def q_def [symmetric] word_at_def)
qed

section \<open>Commands as text\<close>

text \<open>Commands with the words themselves; a redirection is of input (\<^const>\<open>False\<close>) or output (\<^const>\<open>True\<close>).\<close>

datatype scmd =
    SExec "byte list list"
  | SRedir scmd "byte list" bool
  | SPipe scmd scmd
  | SList scmd scmd
  | SBack scmd

text \<open>What the parser accepts: words of ordinary characters, fewer than \<^const>\<open>MAXARGS\<close> arguments.\<close>

fun sh_ok :: "scmd \<Rightarrow> bool" where
  "sh_ok (SExec ws) \<longleftrightarrow> list_all word ws \<and> length ws < MAXARGS"
| "sh_ok (SRedir c f out) \<longleftrightarrow> sh_ok c \<and> word f"
| "sh_ok (SPipe l r) \<longleftrightarrow> sh_ok l \<and> sh_ok r"
| "sh_ok (SList l r) \<longleftrightarrow> sh_ok l \<and> sh_ok r"
| "sh_ok (SBack c) \<longleftrightarrow> sh_ok c"

definition paren :: "bool \<Rightarrow> byte list \<Rightarrow> byte list" where
  "paren p x = (if p then 40 # x @ [41] else x)"

definition show_args :: "byte list list \<Rightarrow> byte list" where
  "show_args ws = concat (map ((#) 32) ws)"

definition show_redirs :: "(byte list \<times> bool) list \<Rightarrow> byte list" where
  "show_redirs rs = concat (map (\<lambda>(f, out). (if out then 62 else 60) # f) rs)"

text \<open>Printing, with parentheses where the grammar needs them: 0 a simple command, 1 a pipeline, 2 with ampersands, 3 a line.\<close>

fun show_cmd :: "nat \<Rightarrow> scmd \<Rightarrow> byte list" where
  "show_cmd n (SExec ws) = show_args ws"
| "show_cmd n (SRedir c f out) = show_cmd 0 c @ show_redirs [(f, out)]"
| "show_cmd n (SPipe l r) = paren (n < 1) (show_cmd 0 l @ 124 # show_cmd 1 r)"
| "show_cmd n (SBack c) = paren (n < 2) (show_cmd 2 c @ [38])"
| "show_cmd n (SList l r) = paren (n < 3) (show_cmd 2 l @ 59 # show_cmd 3 r)"

text \<open>A tree of the parser stands for a command, given which positions stand for a word.\<close>

fun spells :: "(nat \<times> nat \<Rightarrow> byte list \<Rightarrow> bool) \<Rightarrow> cmd \<Rightarrow> scmd \<Rightarrow> bool" where
  "spells R (EXEC ps) (SExec ws) \<longleftrightarrow> list_all2 R ps ws"
| "spells R (REDIR t p mode fd) (SRedir c f out) \<longleftrightarrow> spells R t c \<and> R p f \<and> (mode, fd) = (if out then (O_CREAT_WR, 1) else (O_RDONLY, 0))"
| "spells R (PIPE t u) (SPipe l r) \<longleftrightarrow> spells R t l \<and> spells R u r"
| "spells R (LIST t u) (SList l r) \<longleftrightarrow> spells R t l \<and> spells R u r"
| "spells R (BACK t) (SBack c) \<longleftrightarrow> spells R t c"
| "spells R _ _ \<longleftrightarrow> False"

definition sredirs :: "scmd \<Rightarrow> (byte list \<times> bool) list \<Rightarrow> scmd" where
  "sredirs c rs = foldl (\<lambda>c (f, out). SRedir c f out) c rs"

section \<open>The parser reads what was printed\<close>

text \<open>What follows: nothing, or one of some symbols.\<close>

definition fol :: "string \<Rightarrow> byte list \<Rightarrow> bool" where
  "fol S l \<longleftrightarrow> l = [] \<or> hd l \<in> set (lit S)"

definition redir_at :: "block \<Rightarrow> (nat \<times> nat) \<times> nat \<times> nat \<Rightarrow> byte list \<times> bool \<Rightarrow> bool" where
  "redir_at b r f \<longleftrightarrow> word_at b (fst r) (fst f) \<and> snd r = (if snd f then (O_CREAT_WR, 1) else (O_RDONLY, 0))"

lemma fol_trim: "fol S l \<Longrightarrow> set (lit S) \<subseteq> set symbols \<Longrightarrow> trim l = l"
  by (cases l) (auto simp: fol_def symbols_def whitespace_def lit_def)

lemma fol_delim: "fol S l \<Longrightarrow> set (lit S) \<subseteq> set symbols \<Longrightarrow> l = [] \<or> \<not> wordchar (hd l)"
  by (auto simp: fol_def wordchar_def)

lemma trim_word: "word w \<Longrightarrow> trim (w @ l) = w @ l"
  by (cases w) (auto simp: word_def wordchar_def)

lemma word_hd: "word w \<Longrightarrow> wordchar (hd (w @ l))"
  by (cases w) (auto simp: word_def)

lemma spells_redirs:
  assumes "spells R t c" "list_all2 (\<lambda>r f. R (fst r) (fst f) \<and> snd r = (if snd f then (O_CREAT_WR, 1) else (O_RDONLY, 0))) rs fs"
  shows "spells R (redirs t rs) (sredirs c fs)"
  using assms(2,1)
proof (induction rs fs arbitrary: t c rule: list_all2_induct)
  case (Cons r rs f fs)
  obtain p m d where r: "r = (p, m, d)" by (cases r) auto
  obtain w out where f: "f = (w, out)" by (cases f) auto
  have "spells R (REDIR t p m d) (SRedir c w out)" using Cons r f by auto
  then show ?case using Cons.IH r f by (simp add: redirs_def sredirs_def)
qed (simp add: redirs_def sredirs_def)

lemma show_redirs_Cons: "show_redirs ((f, out) # rs) = (if out then 62 else 60) # f @ show_redirs rs"
  by (simp add: show_redirs_def)

lemma show_args_Cons: "show_args (w # ws) = 32 # w @ show_args ws"
  by (simp add: show_args_def)

lemma show_redirs_delim:
  assumes "fol S l" "set (lit S) \<subseteq> set symbols"
  shows "show_redirs rs @ l = [] \<or> \<not> wordchar (hd (show_redirs rs @ l))" "trim (show_redirs rs @ l) = show_redirs rs @ l"
proof -
  show "show_redirs rs @ l = [] \<or> \<not> wordchar (hd (show_redirs rs @ l))"
  proof (cases rs)
    case (Cons r rs')
    then show ?thesis by (cases r; cases "snd r") (simp_all add: show_redirs_Cons wordchar_def symbols_def lit_def)
  qed (use fol_delim [OF assms] in \<open>simp add: show_redirs_def\<close>)
  show "trim (show_redirs rs @ l) = show_redirs rs @ l"
  proof (cases rs)
    case (Cons r rs')
    then show ?thesis by (cases r; cases "snd r") (simp_all add: show_redirs_Cons whitespace_def)
  qed (use fol_trim [OF assms] in \<open>simp add: show_redirs_def\<close>)
qed

lemma parseredirs_reads:
  assumes "at b es s (show_redirs rs @ l)" "list_all (\<lambda>(f, out). word f) rs" "fol ''|)&;'' l" "length rs < n"
  shows "\<exists>ps s'. parseredirs n b es s = Ok (ps, s') \<and> at b es s' l \<and> list_all2 (redir_at b) ps rs"
  using assms
proof (induction rs arbitrary: s n)
  case Nil
  then obtain m where n: "n = Suc m" by (cases n) auto
  have t: "trim l = l" by (rule fol_trim [OF Nil(3)]) (auto simp: symbols_def lit_def)
  obtain s' where "peek b es s (lit ''<>'') = (l \<noteq> [] \<and> hd l \<in> set (lit ''<>''), s')" "at b es s' l"
    using peek_at [OF Nil(1)] t by (auto simp: show_redirs_def)
  moreover have "\<not> (l \<noteq> [] \<and> hd l \<in> set (lit ''<>''))" using Nil(3) by (auto simp: fol_def lit_def)
  ultimately show ?case by (simp add: n)
next
  case (Cons r rs)
  obtain f out where r: "r = (f, out)" by (cases r)
  have f: "word f" and rs: "list_all (\<lambda>(f, out). word f) rs" using Cons.prems(2) r by auto
  obtain m where n: "n = Suc m" "length rs < m" using Cons.prems(4) by (cases n) auto
  define c :: byte where "c = (if out then 62 else 60)"
  have sub: "set (lit ''|)&;'') \<subseteq> set symbols" by (auto simp: symbols_def lit_def)
  note D = show_redirs_delim [OF Cons.prems(3) sub, of rs]
  have l0: "show_redirs (r # rs) @ l = c # f @ show_redirs rs @ l" by (simp add: r show_redirs_Cons c_def)
  have t0: "trim (c # f @ show_redirs rs @ l) = c # f @ show_redirs rs @ l" by (auto simp: c_def whitespace_def)
  note a0 = Cons.prems(1) [unfolded l0]
  obtain s1 where s1: "peek b es s (lit ''<>'') = (True, s1)" "at b es s1 (c # f @ show_redirs rs @ l)"
    using peek_at [OF a0, of "lit ''<>''"] unfolding t0 by (auto simp: c_def lit_def)
  have "hd (f @ show_redirs rs @ l) \<noteq> 62" using word_hd [OF f, of "show_redirs rs @ l"] by (auto simp: wordchar_def symbols_def lit_def)
  then obtain q1 e1 s2 where s2: "gettoken b es s1 = (c, q1, e1, s2)" "at b es s2 (f @ show_redirs rs @ l)"
    using gettoken_gt [OF s1(2)] gettoken_sym [OF s1(2) t0] t0 by (cases out) (auto simp: c_def lit_def)
  obtain q s3 where s3: "gettoken b es s2 = (97, q, q + length f, s3)" "at b es s3 (show_redirs rs @ l)" "word_at b (q, q + length f) f"
    using gettoken_word [OF s2(2) trim_word [OF f] f D(1)] by blast
  obtain ps s' where "parseredirs m b es s3 = Ok (ps, s')" "at b es s' l" "list_all2 (redir_at b) ps rs"
    using Cons.IH [OF s3(2) rs Cons.prems(3) n(2)] by blast
  moreover have "redir_at b ((q, q + length f), if out then (O_CREAT_WR, 1) else (O_RDONLY, 0)) (f, out)" using s3(3) by (simp add: redir_at_def)
  ultimately show ?case using s1 s2 s3 by (cases out) (auto simp: n r c_def)
qed

lemma parseredirs_none:
  assumes "at b es s l" "trim l = [] \<or> hd (trim l) \<notin> set (lit ''<>'')" "0 < n"
  shows "\<exists>s'. parseredirs n b es s = Ok ([], s') \<and> at b es s' l"
proof -
  obtain m where n: "n = Suc m" using assms(3) by (cases n) auto
  obtain s' where "peek b es s (lit ''<>'') = (False, s')" "at b es s' l"
    using peek_at [OF assms(1), of "lit ''<>''"] assms(2) by auto
  then show ?thesis by (simp add: n)
qed

text \<open>The arguments of a command, with redirections behind the last one.\<close>

lemma parseargs_end:
  assumes "at b es s l" "fol ''|)&;'' l" "0 < n"
  shows "\<exists>s'. parseargs n b es argv rs s = Ok (redirs (EXEC argv) rs, s') \<and> at b es s' l"
proof -
  obtain m where n: "n = Suc m" using assms(3) by (cases n) auto
  have t: "trim l = l" by (rule fol_trim [OF assms(2)]) (auto simp: symbols_def lit_def)
  obtain s1 where s1: "peek b es s (lit ''|)&;'') = (l \<noteq> [], s1)" "at b es s1 l"
    using peek_at [OF assms(1), of "lit ''|)&;''"] assms(2) t by (auto simp: fol_def)
  show ?thesis
  proof (cases "l = []")
    case True
    obtain q e s2 where "gettoken b es s1 = (0, q, e, s2)" "at b es s2 l" using gettoken_end [OF s1(2)] True by auto
    then show ?thesis using s1 True by (simp add: n)
  qed (use s1 in \<open>simp add: n\<close>)
qed

lemma parseargs_reads:
  assumes "at b es s (show_args ws @ show_redirs rs @ l)" "list_all word ws" "list_all (\<lambda>(f, out). word f) rs" "fol ''|)&;'' l"
    "ws \<noteq> []" "length argv + length ws < MAXARGS" "length ws + length rs + 1 < n"
  shows "\<exists>ps qs s'. parseargs n b es argv rs0 s = Ok (redirs (EXEC (argv @ ps)) (rs0 @ qs), s') \<and> at b es s' l \<and>
    list_all2 (word_at b) ps ws \<and> list_all2 (redir_at b) qs rs"
  using assms
proof (induction ws arbitrary: s n argv rs0)
  case (Cons w ws)
  have w: "word w" and ws: "list_all word ws" using Cons.prems(2) by simp_all
  obtain m where n: "n = Suc m" "length ws + length rs + 1 < m" using Cons.prems(7) by (cases n) auto
  define k where "k = show_args ws @ show_redirs rs @ l"
  have sub: "set (lit ''|)&;'') \<subseteq> set symbols" by (auto simp: symbols_def lit_def)
  note D = show_redirs_delim [OF Cons.prems(4) sub]
  have kd: "k = [] \<or> \<not> wordchar (hd k)"
    using D(1) [of rs] by (cases ws) (auto simp: k_def show_args_def wordchar_def whitespace_def)
  have l0: "show_args (w # ws) @ show_redirs rs @ l = 32 # w @ k" by (simp add: show_args_Cons k_def)
  have t0: "trim (32 # w @ k) = w @ k" using trim_word [OF w] by (simp add: whitespace_def)
  note a0 = Cons.prems(1) [unfolded l0]
  have "hd (w @ k) \<notin> set (lit ''|)&;'')" using word_hd [OF w, of k] sub by (auto simp: wordchar_def)
  then obtain s1 where s1: "peek b es s (lit ''|)&;'') = (False, s1)" "at b es s1 (32 # w @ k)"
    using peek_at [OF a0, of "lit ''|)&;''"] unfolding t0 by auto
  obtain q s2 where s2: "gettoken b es s1 = (97, q, q + length w, s2)" "at b es s2 k" "word_at b (q, q + length w) w"
    using gettoken_word [OF s1(2) t0 w kd] by blast
  have st: "parseargs n b es argv rs0 s = rbind (parseredirs m b es s2) (\<lambda>(rs', s). parseargs m b es (argv @ [(q, q + length w)]) (rs0 @ rs') s)"
    using s1(1) s2(1) Cons.prems(6) by (simp add: n)
  show ?case
  proof (cases ws)
    case Nil
    have len: "length rs < m" using n(2) by simp
    obtain qs s3 where s3: "parseredirs m b es s2 = Ok (qs, s3)" "at b es s3 l" "list_all2 (redir_at b) qs rs"
      using parseredirs_reads [OF _ Cons.prems(3,4) len, of b es s2] s2(2) by (auto simp: k_def Nil show_args_def)
    obtain s' where "parseargs m b es (argv @ [(q, q + length w)]) (rs0 @ qs) s3 = Ok (redirs (EXEC (argv @ [(q, q + length w)])) (rs0 @ qs), s')" "at b es s' l"
      using parseargs_end [OF s3(2) Cons.prems(4)] n(2) by (metis gr_implies_not0 not_gr0)
    then have "parseargs n b es argv rs0 s = Ok (redirs (EXEC (argv @ [(q, q + length w)])) (rs0 @ qs), s')" using st s3(1) by simp
    then show ?thesis using \<open>at b es s' l\<close> s3(3) s2(3) Nil by (intro exI [of _ "[(q, q + length w)]"] exI [of _ qs] exI [of _ s']) simp
  next
    case (Cons v vs)
    have v: "word v" using ws Cons by simp
    have tk: "trim k = v @ show_args vs @ show_redirs rs @ l"
      using trim_word [OF v, of "show_args vs @ show_redirs rs @ l"] by (simp add: k_def Cons show_args_Cons whitespace_def)
    have "hd (trim k) \<notin> set (lit ''<>'')" using word_hd [OF v] unfolding tk by (auto simp: wordchar_def symbols_def lit_def)
    then obtain s3 where s3: "parseredirs m b es s2 = Ok ([], s3)" "at b es s3 k" using parseredirs_none [OF s2(2), of m] n(2) by auto
    obtain ps qs s' where "parseargs m b es (argv @ [(q, q + length w)]) rs0 s3 = Ok (redirs (EXEC ((argv @ [(q, q + length w)]) @ ps)) (rs0 @ qs), s')"
        "at b es s' l" "list_all2 (word_at b) ps ws" "list_all2 (redir_at b) qs rs"
      using Cons.IH [OF s3(2) [unfolded k_def] ws Cons.prems(3,4), of "argv @ [(q, q + length w)]" m rs0] Cons.prems(6) n(2) \<open>ws = v # vs\<close> by auto
    then show ?thesis using st s3(1) s2(3) by (intro exI [of _ "(q, q + length w) # ps"] exI [of _ qs] exI [of _ s']) simp
  qed
qed simp

text \<open>
  The text \<open>x\<close> is read as the command \<open>c\<close>: by \<^const>\<open>parseexec\<close>, with further redirections behind it; by \<^const>\<open>parsepipe\<close>; by \<^const>\<open>parsepipe\<close> and the
  ampersand loop; by \<^const>\<open>parseline\<close>.
\<close>

definition reads_exec :: "byte list \<Rightarrow> scmd \<Rightarrow> bool" where
  "reads_exec x c \<longleftrightarrow> (\<forall>b es s rs l n. at b es s (x @ show_redirs rs @ l) \<longrightarrow> list_all (\<lambda>(f, out). word f) rs \<longrightarrow> fol ''|)&;'' l \<longrightarrow>
     4 * (length x + length (show_redirs rs)) + 2 \<le> n \<longrightarrow>
     (\<exists>t s'. parseexec n b es s = Ok (t, s') \<and> at b es s' l \<and> spells (word_at b) t (sredirs c rs)))"

definition reads_pipe :: "byte list \<Rightarrow> scmd \<Rightarrow> bool" where
  "reads_pipe x c \<longleftrightarrow> (\<forall>b es s l n. at b es s (x @ l) \<longrightarrow> fol '')&;'' l \<longrightarrow> 4 * length x + 3 \<le> n \<longrightarrow>
     (\<exists>t s'. parsepipe n b es s = Ok (t, s') \<and> at b es s' l \<and> spells (word_at b) t c))"

definition reads_back :: "byte list \<Rightarrow> scmd \<Rightarrow> bool" where
  "reads_back x c \<longleftrightarrow> (\<forall>b es s l n. at b es s (x @ l) \<longrightarrow> fol '')&;'' l \<longrightarrow> 4 * length x + 3 \<le> n \<longrightarrow>
     (\<exists>t s' k. k \<le> length x \<and> at b es s' l \<and> spells (word_at b) t c \<and>
        (\<forall>m. rbind (parsepipe n b es s) (\<lambda>(c, s). parsebacks (m + k) b es c s) = parsebacks m b es t s')))"

definition reads_line :: "byte list \<Rightarrow> scmd \<Rightarrow> bool" where
  "reads_line x c \<longleftrightarrow> (\<forall>b es s l n. at b es s (x @ l) \<longrightarrow> fol '')'' l \<longrightarrow> 4 * length x + 4 \<le> n \<longrightarrow>
     (\<exists>t s'. parseline n b es s = Ok (t, s') \<and> at b es s' l \<and> spells (word_at b) t c))"

lemma redir_at_spells: "redir_at b = (\<lambda>r f. word_at b (fst r) (fst f) \<and> snd r = (if snd f then (O_CREAT_WR, 1) else (O_RDONLY, 0)))"
  by (intro ext) (simp add: redir_at_def)

lemma length_show_redirs: "length rs \<le> length (show_redirs rs)"
  by (induction rs) (auto simp: show_redirs_def)

lemma length_show_args: "length ws \<le> length (show_args ws)"
  by (induction ws) (auto simp: show_args_def)

lemma syms [simp]: "set (lit ''|)&;'') \<subseteq> set symbols" "set (lit '')&;'') \<subseteq> set symbols" "set (lit '')'') \<subseteq> set symbols"
  by (auto simp: symbols_def lit_def)

lemma reads_exec_args:
  assumes "list_all word ws" "length ws < MAXARGS"
  shows "reads_exec (show_args ws) (SExec ws)"
  unfolding reads_exec_def
proof (intro allI impI)
  fix b es s rs l n
  assume a: "at b es s (show_args ws @ show_redirs rs @ l)" and rs: "list_all (\<lambda>(f, out). word f) rs" and l: "fol ''|)&;'' l"
    and n: "4 * (length (show_args ws) + length (show_redirs rs)) + 2 \<le> n"
  obtain m where m: "n = Suc m" using n by (cases n) auto
  have len: "length rs < m" "0 < m" "length ws + length rs + 1 < m \<or> ws = []"
    using n length_show_redirs [of rs] length_show_args [of ws] by (auto simp: m neq_Nil_conv)
  define k where "k = show_args ws @ show_redirs rs @ l"
  have hk: "trim k = [] \<or> hd (trim k) \<notin> set (lit ''('')"
  proof (cases ws)
    case Nil
    have "hd k \<notin> set (lit ''('') \<or> k = []"
      using l by (cases rs) (auto simp: k_def Nil show_args_def show_redirs_def fol_def lit_def split: if_splits)
    then show ?thesis using show_redirs_delim(2) [OF l, of rs] by (auto simp: k_def Nil show_args_def)
  next
    case (Cons w vs)
    have "word w" using assms(1) Cons by simp
    then show ?thesis
      using trim_word [of w "show_args vs @ show_redirs rs @ l"] word_hd [of w "show_args vs @ show_redirs rs @ l"]
      by (auto simp: k_def Cons show_args_Cons whitespace_def wordchar_def symbols_def lit_def)
  qed
  obtain s1 where s1: "peek b es s (lit ''('') = (False, s1)" "at b es s1 k"
    using peek_no [OF a [folded k_def] hk] by blast
  have st: "parseexec n b es s = rbind (parseredirs m b es s1) (\<lambda>(rs, s). parseargs m b es [] rs s)" using s1(1) by (simp add: m)
  have "\<exists>ps qs s'. parseexec n b es s = Ok (redirs (EXEC ps) qs, s') \<and> at b es s' l \<and> list_all2 (word_at b) ps ws \<and> list_all2 (redir_at b) qs rs"
  proof (cases ws)
    case Nil
    obtain qs s2 where s2: "parseredirs m b es s1 = Ok (qs, s2)" "at b es s2 l" "list_all2 (redir_at b) qs rs"
      using parseredirs_reads [OF _ rs l len(1), of b es s1] s1(2) by (auto simp: k_def Nil show_args_def)
    obtain s' where "parseargs m b es [] qs s2 = Ok (redirs (EXEC []) qs, s')" "at b es s' l" using parseargs_end [OF s2(2) l len(2)] by blast
    then show ?thesis using st s2 Nil by auto
  next
    case (Cons w vs)
    have w: "word w" using assms(1) Cons by simp
    have "hd (trim k) \<notin> set (lit ''<>'')"
      using trim_word [OF w, of "show_args vs @ show_redirs rs @ l"] word_hd [OF w, of "show_args vs @ show_redirs rs @ l"]
      by (auto simp: k_def Cons show_args_Cons whitespace_def wordchar_def symbols_def lit_def)
    then obtain s2 where s2: "parseredirs m b es s1 = Ok ([], s2)" "at b es s2 k" using parseredirs_none [OF s1(2) _ len(2)] by blast
    have ne: "ws \<noteq> []" using Cons by simp
    have la: "length ([] :: (nat \<times> nat) list) + length ws < MAXARGS" using assms(2) by simp
    have lm: "length ws + length rs + 1 < m" using len(3) ne by blast
    show ?thesis
      using parseargs_reads [OF s2(2) [unfolded k_def] assms(1) rs l ne la lm, of "[]"] st s2(1) by auto
  qed
  then obtain ps qs s' where "parseexec n b es s = Ok (redirs (EXEC ps) qs, s')" "at b es s' l" "list_all2 (word_at b) ps ws" "list_all2 (redir_at b) qs rs"
    by blast
  then show "\<exists>t s'. parseexec n b es s = Ok (t, s') \<and> at b es s' l \<and> spells (word_at b) t (sredirs (SExec ws) rs)"
    using spells_redirs [of "word_at b" "EXEC ps" "SExec ws" qs rs] by (auto simp: redir_at_spells)
qed

lemma reads_exec_redir:
  assumes "reads_exec x c" "word f"
  shows "reads_exec (x @ show_redirs [(f, out)]) (SRedir c f out)"
  unfolding reads_exec_def
proof (intro allI impI)
  fix b es s rs l n
  assume a: "at b es s ((x @ show_redirs [(f, out)]) @ show_redirs rs @ l)" and rs: "list_all (\<lambda>(f, out). word f) rs" and l: "fol ''|)&;'' l"
    and n: "4 * (length (x @ show_redirs [(f, out)]) + length (show_redirs rs)) + 2 \<le> n"
  have "show_redirs [(f, out)] @ show_redirs rs = show_redirs ((f, out) # rs)" by (simp add: show_redirs_def)
  then have "at b es s (x @ show_redirs ((f, out) # rs) @ l)" "4 * (length x + length (show_redirs ((f, out) # rs))) + 2 \<le> n"
    using a n by (simp_all add: show_redirs_def)
  then show "\<exists>t s'. parseexec n b es s = Ok (t, s') \<and> at b es s' l \<and> spells (word_at b) t (sredirs (SRedir c f out) rs)"
    using assms rs l unfolding reads_exec_def by (fastforce simp: sredirs_def)
qed

lemma reads_pipe_exec:
  assumes "reads_exec x c"
  shows "reads_pipe x c"
  unfolding reads_pipe_def
proof (intro allI impI)
  fix b es s l n assume a: "at b es s (x @ l)" and l: "fol '')&;'' l" and n: "4 * length x + 3 \<le> n"
  obtain m where m: "n = Suc m" using n by (cases n) auto
  have l': "fol ''|)&;'' l" using l by (auto simp: fol_def lit_def)
  obtain t s1 where t: "parseexec m b es s = Ok (t, s1)" "at b es s1 l" "spells (word_at b) t c"
    using assms [unfolded reads_exec_def, rule_format, of b es s "[]" l m] a l' n by (auto simp: m show_redirs_def sredirs_def)
  have "trim l = [] \<or> hd (trim l) \<notin> set (lit ''|'')" using fol_trim [OF l syms(2)] l by (auto simp: fol_def lit_def)
  then obtain s2 where "peek b es s1 (lit ''|'') = (False, s2)" "at b es s2 l" using peek_no [OF t(2)] by blast
  then show "\<exists>t s'. parsepipe n b es s = Ok (t, s') \<and> at b es s' l \<and> spells (word_at b) t c" using t by (simp add: m)
qed

lemma reads_pipe_pipe:
  assumes "reads_exec x l" "reads_pipe y r"
  shows "reads_pipe (x @ 124 # y) (SPipe l r)"
  unfolding reads_pipe_def
proof (intro allI impI)
  fix b es s k n assume a: "at b es s ((x @ 124 # y) @ k)" and k: "fol '')&;'' k" and n: "4 * length (x @ 124 # y) + 3 \<le> n"
  obtain m where m: "n = Suc m" using n by (cases n) auto
  have tr: "trim (124 # y @ k) = 124 # y @ k" by (simp add: whitespace_def)
  have f: "fol ''|)&;'' (124 # y @ k)" by (simp add: fol_def lit_def)
  obtain t s1 where t: "parseexec m b es s = Ok (t, s1)" "at b es s1 (124 # y @ k)" "spells (word_at b) t l"
    using assms(1) [unfolded reads_exec_def, rule_format, of b es s "[]" "124 # y @ k" m] a f n by (auto simp: m show_redirs_def sredirs_def)
  obtain s2 where s2: "peek b es s1 (lit ''|'') = (True, s2)" "at b es s2 (124 # y @ k)" using peek_yes [OF t(2) tr, of "lit ''|''"] by (auto simp: lit_def)
  obtain q e s3 where s3: "gettoken b es s2 = (124, q, e, s3)" "at b es s3 (y @ k)" using gettoken_sym [OF s2(2) tr] by (auto simp: lit_def)
  obtain u s4 where "parsepipe m b es s3 = Ok (u, s4)" "at b es s4 k" "spells (word_at b) u r"
    using assms(2) [unfolded reads_pipe_def, rule_format, of b es s3 k m] s3(2) k n by (auto simp: m)
  then show "\<exists>t s'. parsepipe n b es s = Ok (t, s') \<and> at b es s' k \<and> spells (word_at b) t (SPipe l r)" using t s2 s3 by (simp add: m)
qed

lemma reads_back_pipe:
  assumes "reads_pipe x c"
  shows "reads_back x c"
  unfolding reads_back_def
proof (intro allI impI)
  fix b es s l n assume a: "at b es s (x @ l)" "fol '')&;'' l" "4 * length x + 3 \<le> n"
  then obtain t s' where t: "parsepipe n b es s = Ok (t, s')" "at b es s' l" "spells (word_at b) t c"
    using assms unfolding reads_pipe_def by blast
  then show "\<exists>t s' k. k \<le> length x \<and> at b es s' l \<and> spells (word_at b) t c \<and>
        (\<forall>m. rbind (parsepipe n b es s) (\<lambda>(c, s). parsebacks (m + k) b es c s) = parsebacks m b es t s')"
    by (intro exI [of _ t] exI [of _ s'] exI [of _ 0]) simp
qed

lemma reads_back_back:
  assumes "reads_back x c"
  shows "reads_back (x @ [38]) (SBack c)"
  unfolding reads_back_def
proof (intro allI impI)
  fix b es s l n assume a: "at b es s ((x @ [38]) @ l)" and l: "fol '')&;'' l" and n: "4 * length (x @ [38]) + 3 \<le> n"
  have tr: "trim (38 # l) = 38 # l" by (simp add: whitespace_def)
  obtain t s1 k where t: "k \<le> length x" "at b es s1 (38 # l)" "spells (word_at b) t c"
      "\<And>m. rbind (parsepipe n b es s) (\<lambda>(c, s). parsebacks (m + k) b es c s) = parsebacks m b es t s1"
    using assms [unfolded reads_back_def, rule_format, of b es s "38 # l" n] a n by (auto simp: fol_def lit_def)
  obtain s2 where s2: "peek b es s1 (lit ''&'') = (True, s2)" "at b es s2 (38 # l)" using peek_yes [OF t(2) tr, of "lit ''&''"] by (auto simp: lit_def)
  obtain q e s3 where s3: "gettoken b es s2 = (38, q, e, s3)" "at b es s3 l" using gettoken_sym [OF s2(2) tr] by (auto simp: lit_def)
  have "rbind (parsepipe n b es s) (\<lambda>(c, s). parsebacks (m + Suc k) b es c s) = parsebacks m b es (BACK t) s3" for m
    using t(4) [of "Suc m"] s2 s3 by simp
  then show "\<exists>t s' k. k \<le> length (x @ [38]) \<and> at b es s' l \<and> spells (word_at b) t (SBack c) \<and>
        (\<forall>m. rbind (parsepipe n b es s) (\<lambda>(c, s). parsebacks (m + k) b es c s) = parsebacks m b es t s')"
    using t(1,3) s3(2) by (intro exI [of _ "BACK t"] exI [of _ s3] exI [of _ "Suc k"]) simp
qed

text \<open>A line up to its first semicolon, or to its end.\<close>

lemma reads_back_parts:
  assumes "reads_back x c" "at b es s (x @ l)" "fol '');'' l" "4 * length x + 3 \<le> m"
  shows "\<exists>u s1 t s2. parsepipe m b es s = Ok (u, s1) \<and> parsebacks m b es u s1 = Ok (t, s2) \<and> at b es s2 l \<and> spells (word_at b) t c"
proof -
  have l: "fol '')&;'' l" using assms(3) by (auto simp: fol_def lit_def)
  obtain t s1 k where t: "k \<le> length x" "at b es s1 l" "spells (word_at b) t c"
      "\<And>j. rbind (parsepipe m b es s) (\<lambda>(c, s). parsebacks (j + k) b es c s) = parsebacks j b es t s1"
    using assms(1) [unfolded reads_back_def, rule_format, OF assms(2) l assms(4)] by auto
  have "trim l = [] \<or> hd (trim l) \<notin> set (lit ''&'')" using fol_trim [OF l syms(2)] assms(3) by (auto simp: fol_def lit_def)
  then obtain s2 where s2: "peek b es s1 (lit ''&'') = (False, s2)" "at b es s2 l" using peek_no [OF t(2)] by blast
  define j where "j = m - Suc k"
  have j: "m = Suc j + k" using assms(4) t(1) by (simp add: j_def)
  have "rbind (parsepipe m b es s) (\<lambda>(c, s). parsebacks m b es c s) = Ok (t, s2)"
    using t(4) [of "Suc j"] s2(1) j by simp
  then show ?thesis using t(3) s2(2) by auto
qed

lemma reads_line_back:
  assumes "reads_back x c"
  shows "reads_line x c"
  unfolding reads_line_def
proof (intro allI impI)
  fix b es s l n assume a: "at b es s (x @ l)" and l: "fol '')'' l" and n: "4 * length x + 4 \<le> n"
  obtain m where m: "n = Suc m" "4 * length x + 3 \<le> m" using n by (cases n) auto
  have l': "fol '');'' l" using l by (auto simp: fol_def lit_def)
  obtain u s1 t s2 where t: "parsepipe m b es s = Ok (u, s1)" "parsebacks m b es u s1 = Ok (t, s2)" "at b es s2 l" "spells (word_at b) t c"
    using reads_back_parts [OF assms a l' m(2)] by blast
  have "trim l = [] \<or> hd (trim l) \<notin> set (lit '';'')" using fol_trim [OF l syms(3)] l by (auto simp: fol_def lit_def)
  then obtain s3 where "peek b es s2 (lit '';'') = (False, s3)" "at b es s3 l" using peek_no [OF t(3)] by blast
  then show "\<exists>t s'. parseline n b es s = Ok (t, s') \<and> at b es s' l \<and> spells (word_at b) t c" using t by (simp add: m)
qed

lemma reads_line_list:
  assumes "reads_back x l" "reads_line y r"
  shows "reads_line (x @ 59 # y) (SList l r)"
  unfolding reads_line_def
proof (intro allI impI)
  fix b es s k n assume a: "at b es s ((x @ 59 # y) @ k)" and k: "fol '')'' k" and n: "4 * length (x @ 59 # y) + 4 \<le> n"
  obtain m where m: "n = Suc m" "4 * length x + 3 \<le> m" "4 * length y + 4 \<le> m" using n by (cases n) auto
  have tr: "trim (59 # y @ k) = 59 # y @ k" by (simp add: whitespace_def)
  have a': "at b es s (x @ 59 # y @ k)" using a by simp
  have f: "fol '');'' (59 # y @ k)" by (simp add: fol_def lit_def)
  obtain u s1 t s2 where t: "parsepipe m b es s = Ok (u, s1)" "parsebacks m b es u s1 = Ok (t, s2)" "at b es s2 (59 # y @ k)" "spells (word_at b) t l"
    using reads_back_parts [OF assms(1) a' f m(2)] by blast
  obtain s3 where s3: "peek b es s2 (lit '';'') = (True, s3)" "at b es s3 (59 # y @ k)" using peek_yes [OF t(3) tr, of "lit '';''"] by (auto simp: lit_def)
  obtain q e s4 where s4: "gettoken b es s3 = (59, q, e, s4)" "at b es s4 (y @ k)" using gettoken_sym [OF s3(2) tr] by (auto simp: lit_def)
  obtain v s5 where "parseline m b es s4 = Ok (v, s5)" "at b es s5 k" "spells (word_at b) v r"
    using assms(2) [unfolded reads_line_def, rule_format, OF s4(2) k m(3)] by blast
  then show "\<exists>t s'. parseline n b es s = Ok (t, s') \<and> at b es s' k \<and> spells (word_at b) t (SList l r)" using t s3 s4 by (simp add: m)
qed

lemma reads_exec_block:
  assumes "reads_line x c"
  shows "reads_exec (40 # x @ [41]) c"
  unfolding reads_exec_def
proof (intro allI impI)
  fix b es s rs l n
  assume a: "at b es s ((40 # x @ [41]) @ show_redirs rs @ l)" and rs: "list_all (\<lambda>(f, out). word f) rs" and l: "fol ''|)&;'' l"
    and n: "4 * (length (40 # x @ [41]) + length (show_redirs rs)) + 2 \<le> n"
  obtain m where m: "n = Suc (Suc m)" "4 * length x + 4 \<le> m" "length rs < m"
    using n length_show_redirs [of rs] by (cases n; cases "n - 1") auto
  define k where "k = x @ 41 # show_redirs rs @ l"
  have tr: "trim (40 # k) = 40 # k" by (simp add: whitespace_def)
  have tr': "trim (41 # show_redirs rs @ l) = 41 # show_redirs rs @ l" by (simp add: whitespace_def)
  have a': "at b es s (40 # k)" using a by (simp add: k_def)
  obtain s1 where s1: "peek b es s (lit ''('') = (True, s1)" "at b es s1 (40 # k)" using peek_yes [OF a' tr, of "lit ''(''"] by (auto simp: lit_def)
  obtain s2 where s2: "peek b es s1 (lit ''('') = (True, s2)" "at b es s2 (40 # k)" using peek_yes [OF s1(2) tr, of "lit ''(''"] by (auto simp: lit_def)
  obtain q e s3 where s3: "gettoken b es s2 = (40, q, e, s3)" "at b es s3 k" using gettoken_sym [OF s2(2) tr] by (auto simp: lit_def)
  have f: "fol '')'' (41 # show_redirs rs @ l)" by (simp add: fol_def lit_def)
  obtain t s4 where t: "parseline m b es s3 = Ok (t, s4)" "at b es s4 (41 # show_redirs rs @ l)" "spells (word_at b) t c"
    using assms [unfolded reads_line_def, rule_format, OF s3(2) [unfolded k_def] f m(2)] by blast
  obtain s5 where s5: "peek b es s4 (lit '')'') = (True, s5)" "at b es s5 (41 # show_redirs rs @ l)" using peek_yes [OF t(2) tr', of "lit '')''"] by (auto simp: lit_def)
  obtain q e s6 where s6: "gettoken b es s5 = (41, q, e, s6)" "at b es s6 (show_redirs rs @ l)" using gettoken_sym [OF s5(2) tr'] by (auto simp: lit_def)
  obtain qs s7 where s7: "parseredirs m b es s6 = Ok (qs, s7)" "at b es s7 l" "list_all2 (redir_at b) qs rs"
    using parseredirs_reads [OF s6(2) rs l m(3)] by blast
  have "parseexec n b es s = Ok (redirs t qs, s7)" using s1 s2 s3 t s5 s6 s7 by (simp add: m)
  then show "\<exists>t s'. parseexec n b es s = Ok (t, s') \<and> at b es s' l \<and> spells (word_at b) t (sredirs c rs)"
    using s7 spells_redirs [of "word_at b" t c qs rs] t(3) by (auto simp: redir_at_spells)
qed

lemma reads_all:
  assumes "sh_ok c"
  shows "reads_exec (show_cmd 0 c) c \<and> reads_pipe (show_cmd 1 c) c \<and> reads_back (show_cmd 2 c) c \<and> reads_line (show_cmd 3 c) c"
  using assms
proof (induction c)
  case (SExec ws)
  then have "reads_exec (show_args ws) (SExec ws)" using reads_exec_args by simp
  then show ?case by (simp add: reads_pipe_exec reads_back_pipe reads_line_back)
next
  case (SRedir c f out)
  then have "reads_exec (show_cmd 0 c @ show_redirs [(f, out)]) (SRedir c f out)" using reads_exec_redir by simp
  then show ?case by (simp add: reads_pipe_exec reads_back_pipe reads_line_back)
next
  case (SPipe l r)
  then have p: "reads_pipe (show_cmd 0 l @ 124 # show_cmd 1 r) (SPipe l r)" using reads_pipe_pipe by simp
  then show ?case using reads_exec_block [OF reads_line_back [OF reads_back_pipe [OF p]]] by (simp add: paren_def reads_back_pipe reads_line_back)
next
  case (SList l r)
  then have p: "reads_line (show_cmd 2 l @ 59 # show_cmd 3 r) (SList l r)" using reads_line_list by simp
  then show ?case using reads_exec_block [OF p] by (simp add: paren_def reads_pipe_exec reads_back_pipe)
next
  case (SBack c)
  then have p: "reads_back (show_cmd 2 c @ [38]) (SBack c)" using reads_back_back by simp
  then show ?case using reads_exec_block [OF reads_line_back [OF p]] by (simp add: paren_def reads_pipe_exec reads_line_back)
qed

section \<open>Cutting the words\<close>

fun ends :: "cmd \<Rightarrow> nat set" where
  "ends (EXEC argv) = snd ` set argv"
| "ends (REDIR c p mode fd) = insert (snd p) (ends c)"
| "ends (PIPE l r) = ends l \<union> ends r"
| "ends (LIST l r) = ends l \<union> ends r"
| "ends (BACK c) = ends c"

lemma cut_args: "foldl (\<lambda>b (q, eq). b(eq := 0)) b argv = (\<lambda>i. if i \<in> snd ` set argv then 0 else b i)" for b :: block
proof (induction argv arbitrary: b)
  case (Cons p ps)
  then show ?case by (cases p) (auto simp: fun_eq_iff)
qed simp

lemma nulterminate_cuts: "nulterminate c b = (\<lambda>i. if i \<in> ends c then 0 else b i)"
proof (induction c arbitrary: b)
  case (REDIR c p mode fd)
  then show ?case by (cases p) auto
qed (auto simp: cut_args)

text \<open>The C string at a position.\<close>

definition str_at :: "block \<Rightarrow> nat \<times> nat \<Rightarrow> byte list \<Rightarrow> bool" where
  "str_at b p w \<longleftrightarrow> (\<forall>i < length w. b (fst p + i) = w ! i \<and> w ! i \<noteq> 0) \<and> b (fst p + length w) = 0"

lemma str_at_cut:
  assumes "word_at b p w" "snd p \<in> E" "\<forall>i \<in> E. \<not> wordchar (b i)"
  shows "str_at (\<lambda>i. if i \<in> E then 0 else b i) p w"
proof -
  have c: "wordchar (b (fst p + i)) \<and> b (fst p + i) = w ! i" if "i < length w" for i
    using assms(1) that by (auto simp: word_at_def word_def list_all_length)
  have "fst p + i \<notin> E \<and> b (fst p + i) = w ! i \<and> w ! i \<noteq> 0" if "i < length w" for i
    using c [OF that] assms(3) unfolding wordchar_def by metis
  moreover have "fst p + length w \<in> E" using assms(1,2) by (simp add: word_at_def)
  ultimately show ?thesis by (simp add: str_at_def)
qed

lemma spells_ends: "spells (word_at b) t c \<Longrightarrow> i \<in> ends t \<Longrightarrow> \<not> wordchar (b i)"
proof (induction "word_at b" t c rule: spells.induct)
  case (1 ps ws)
  then obtain p where "p \<in> set ps" "i = snd p" by auto
  then show ?case using 1 by (auto simp: list_all2_conv_all_nth in_set_conv_nth word_at_def)
qed (auto simp: word_at_def)

lemma spells_cut:
  assumes "spells (word_at b) t c" "ends t \<subseteq> E" "\<forall>i \<in> E. \<not> wordchar (b i)"
  shows "spells (str_at (\<lambda>i. if i \<in> E then 0 else b i)) t c"
  using assms
proof (induction "word_at b" t c rule: spells.induct)
  case (1 ps ws)
  then show ?case by (auto simp: list_all2_conv_all_nth intro!: str_at_cut)
next
  case (2 t p mode fd c f out)
  then show ?case by (auto intro!: str_at_cut)
qed auto

lemma word_no_zero: "word w \<Longrightarrow> 0 \<notin> set w"
  by (auto simp: word_def list_all_iff wordchar_def)

lemma show_no_zero: "sh_ok c \<Longrightarrow> 0 \<notin> set (show_cmd n c)"
  by (induction n c rule: show_cmd.induct)
    (auto simp: show_args_def show_redirs_def paren_def list_all_iff dest: word_no_zero)

lemma rest_at_cstr: "0 \<notin> set l \<Longrightarrow> rest_at (cstr l) (length l) 0 l"
  by (simp add: rest_at_def cstr_def)

lemma parse_print:
  assumes "sh_ok c"
  shows "\<exists>t b. parsecmd (cstr (show_cmd 3 c)) = Ok (t, b) \<and> spells (str_at b) t c"
proof -
  define x where "x = show_cmd 3 c"
  have z: "0 \<notin> set x" using show_no_zero [OF assms] by (simp add: x_def)
  have a: "at (cstr x) (length x) 0 (x @ [])" using at_rest [OF rest_at_cstr [OF z]] by simp
  obtain t s where t: "parseline (4 * length x + 4) (cstr x) (length x) 0 = Ok (t, s)" "at (cstr x) (length x) s []" "spells (word_at (cstr x)) t c"
    using reads_all [OF assms, THEN conjunct2, THEN conjunct2, THEN conjunct2, unfolded reads_line_def, rule_format, OF a [unfolded x_def], of "4 * length x + 4"]
    by (auto simp: fol_def x_def)
  have "rest_at (cstr x) (length x) (skip_white (cstr x) (length x) s) []" using at_skip [OF t(2)] by simp
  then have "skip_white (cstr x) (length x) s = length x" by simp
  then have "parsecmd (cstr x) = Ok (t, nulterminate t (cstr x))" using t(1) strlen_cstr [OF z] by (simp add: parsecmd_def peek_def)
  moreover have "spells (str_at (nulterminate t (cstr x))) t c"
    unfolding nulterminate_cuts using spells_cut [OF t(3) subset_refl] spells_ends [OF t(3)] by blast
  ultimately show ?thesis by (auto simp: x_def)
qed

section \<open>The parser always ends\<close>

text \<open>A position of the line, and a result that is a panic or a later position.\<close>

definition pos :: "block \<Rightarrow> nat \<Rightarrow> nat \<Rightarrow> bool" where
  "pos b es s \<longleftrightarrow> s \<le> es \<and> b es = 0 \<and> (\<forall>i < es. b i \<noteq> 0)"

definition moves :: "nat \<Rightarrow> nat \<Rightarrow> ('a \<times> nat) res \<Rightarrow> bool" where
  "moves es s r \<longleftrightarrow> (\<exists>m. r = Panic m) \<or> (\<exists>x s'. r = Ok (x, s') \<and> s \<le> s' \<and> s' \<le> es)"

lemma moves_Ok: "moves es s (Ok (x, s')) \<longleftrightarrow> s \<le> s' \<and> s' \<le> es"
  by (simp add: moves_def)

lemma moves_Panic [simp]: "moves es s (Panic m)"
  by (simp add: moves_def)

lemma moves_mono: "moves es t r \<Longrightarrow> s \<le> t \<Longrightarrow> moves es s r"
  by (auto simp: moves_def)

lemma moves_rbind:
  assumes "moves es s r" "\<And>x t. s \<le> t \<Longrightarrow> t \<le> es \<Longrightarrow> moves es t (f (x, t))"
  shows "moves es s (rbind r f)"
proof -
  consider m where "r = Panic m" | x t where "r = Ok (x, t)" "s \<le> t" "t \<le> es" using assms(1) by (auto simp: moves_def)
  then show ?thesis
  proof cases
    case 2
    then show ?thesis using moves_mono [OF assms(2)] by simp
  qed simp
qed

lemma moves_bind:
  assumes "moves es s r" "\<And>x t. s \<le> t \<Longrightarrow> t \<le> es \<Longrightarrow> moves es t (f x t)"
  shows "moves es s (rbind r (\<lambda>(x, t). f x t))"
  by (rule moves_rbind) (use assms in simp_all)

lemma skip_white_bounds: "s \<le> es \<Longrightarrow> s \<le> skip_white b es s \<and> skip_white b es s \<le> es"
proof (induction b es s rule: skip_white.induct)
  case (1 b es s)
  show ?case using 1 by (subst (1 2) skip_white.simps) auto
qed

lemma skip_word_bounds: "s \<le> es \<Longrightarrow> s \<le> skip_word b es s \<and> skip_word b es s \<le> es"
proof (induction b es s rule: skip_word.induct)
  case (1 b es s)
  show ?case using 1 by (subst (1 2) skip_word.simps) auto
qed

lemma pos_lt: "pos b es s \<Longrightarrow> b s \<noteq> 0 \<Longrightarrow> s < es"
  by (cases "s = es") (auto simp: pos_def)

lemma pos_le: "pos b es s \<Longrightarrow> t \<le> es \<Longrightarrow> pos b es t"
  by (simp add: pos_def)

lemma skip_white_stop: "pos b es s \<Longrightarrow> b (skip_white b es s) \<notin> set whitespace"
proof (induction b es s rule: skip_white.induct)
  case (1 b es s)
  show ?case
  proof (cases "s < es \<and> b s \<in> set whitespace")
    case True
    then have "skip_white b es s = skip_white b es (s + 1)" by (subst skip_white.simps) simp
    then show ?thesis using 1(1) [OF True] pos_le [OF 1(2), of "s + 1"] True by simp
  next
    case False
    then have "skip_white b es s = s" by (subst skip_white.simps) (simp only: if_False)
    then show ?thesis using False 1(2) by (cases "s = es") (auto simp: pos_def whitespace_def)
  qed
qed

lemma peek_pos:
  assumes "pos b es s" "peek b es s toks = (r, s')"
  shows "s \<le> s'" "s' \<le> es" "pos b es s'" "r \<Longrightarrow> b s' \<noteq> 0" "b s' \<notin> set whitespace"
  using assms skip_white_bounds [of s es b] skip_white_stop [OF assms(1)] by (auto simp: peek_def Let_def pos_def)

lemma gettoken_pos:
  assumes p: "pos b es s" and g: "gettoken b es s = (tok, q, eq, s')"
  shows "s \<le> s'" "s' \<le> es" "pos b es s'" "tok \<noteq> 0 \<Longrightarrow> s < s'" "b s \<noteq> 0 \<Longrightarrow> b s \<notin> set whitespace \<Longrightarrow> s < s'"
proof -
  define u where "u = skip_white b es s"
  have u: "s \<le> u" "u \<le> es" "b u \<notin> set whitespace" using p skip_white_bounds [of s es b] skip_white_stop [OF p] by (auto simp: u_def pos_def)
  have pu: "pos b es u" using pos_le [OF p u(2)] .
  have same: "b s \<notin> set whitespace \<Longrightarrow> u = s" unfolding u_def by (subst skip_white.simps) simp
  have "(tok = 0 \<and> eq = u \<and> b u = 0) \<or> (u < eq \<and> eq \<le> es \<and> b u \<noteq> 0)"
  proof (cases "b u = 0")
    case True
    then show ?thesis using g by (auto simp: gettoken_def Let_def u_def [symmetric])
  next
    case False
    have lt: "u < es" using pos_lt [OF pu False] .
    have "skip_word b es u = skip_word b es (u + 1)" if "b u \<notin> set symbols" using that lt u(3) by (subst skip_word.simps) simp
    moreover have "u + 1 \<le> skip_word b es (u + 1) \<and> skip_word b es (u + 1) \<le> es" using skip_word_bounds [of "u + 1" es b] lt by simp
    moreover have "b u \<notin> set symbols" if "b u \<notin> set (lit ''|();&<'')" "b u \<noteq> 62" using that by (auto simp: symbols_def lit_def)
    moreover have "u + 1 < es" if "b (u + 1) = 62" using pos_lt [of b es "u + 1"] that lt p by (simp add: pos_def)
    ultimately show ?thesis using g False lt by (auto simp: gettoken_def Let_def u_def [symmetric] split: if_splits)
  qed
  moreover have "s' = skip_white b es eq" using g by (auto simp: gettoken_def Let_def split: if_splits prod.splits)
  ultimately show "s \<le> s'" "s' \<le> es" "tok \<noteq> 0 \<Longrightarrow> s < s'" "b s \<noteq> 0 \<Longrightarrow> b s \<notin> set whitespace \<Longrightarrow> s < s'"
    using u same skip_white_bounds [of eq es b] by auto
  then show "pos b es s'" using pos_le [OF p] by simp
qed

lemma peek_gettoken:
  assumes "pos b es s" "peek b es s toks = (True, s1)" "gettoken b es s1 = (tok, q, eq, s2)"
  shows "s < s2" "s2 \<le> es" "pos b es s2"
  using peek_pos [OF assms(1,2)] gettoken_pos [OF _ assms(3)] by auto

lemma parseredirs_moves: "pos b es s \<Longrightarrow> es - s < n \<Longrightarrow> moves es s (parseredirs n b es s)"
proof (induction n arbitrary: s)
  case (Suc n)
  obtain r s1 where pk: "peek b es s (lit ''<>'') = (r, s1)" by fastforce
  note p1 = peek_pos [OF Suc.prems(1) pk]
  obtain t1 q1 e1 s2 where g1: "gettoken b es s1 = (t1, q1, e1, s2)" by (metis prod_cases4)
  obtain t2 q2 e2 s3 where g2: "gettoken b es s2 = (t2, q2, e2, s3)" by (metis prod_cases4)
  show ?case
  proof (cases r)
    case True
    have pk': "peek b es s (lit ''<>'') = (True, s1)" using pk True by simp
    note p2 = peek_gettoken [OF Suc.prems(1) pk' g1]
    note p3 = gettoken_pos [OF p2(3) g2]
    have "es - s3 < n" using Suc.prems(2) p2 p3(1,2) by linarith
    note m = moves_mono [OF Suc.IH [OF p3(3) this], of s]
    have "s \<le> s3" using p2 p3 by linarith
    then have "moves es s (rbind (parseredirs n b es s3) (\<lambda>(rs, s). Ok (r' @ rs, s)))" for r'
      by (intro moves_rbind m) (simp_all add: moves_Ok)
    then show ?thesis using pk g1 g2 True by (simp add: Let_def)
  qed (use pk p1 in \<open>simp add: moves_Ok\<close>)
qed simp

lemma parseargs_moves: "pos b es s \<Longrightarrow> es - s < n \<Longrightarrow> moves es s (parseargs n b es argv rs s)"
proof (induction n arbitrary: s argv rs)
  case (Suc n)
  obtain r s1 where pk: "peek b es s (lit ''|)&;'') = (r, s1)" by fastforce
  note p1 = peek_pos [OF Suc.prems(1) pk]
  obtain t1 q1 e1 s2 where g1: "gettoken b es s1 = (t1, q1, e1, s2)" by (metis prod_cases4)
  note p2 = gettoken_pos [OF p1(3) g1]
  have "moves es s2 (rbind (parseredirs n b es s2) (\<lambda>(rs', s). parseargs n b es argv' (rs @ rs') s))" if "t1 \<noteq> 0" for argv'
  proof (rule moves_rbind)
    have lt: "es - s2 < n" using Suc.prems(2) p1(1) p2(2,4) that by linarith
    then show "moves es s2 (parseredirs n b es s2)" by (rule parseredirs_moves [OF p2(3)])
    show "moves es t (case (x, t) of (rs', s) \<Rightarrow> parseargs n b es argv' (rs @ rs') s)" if "s2 \<le> t" "t \<le> es" for x t
      using Suc.IH [OF pos_le [OF p2(3) that(2)]] lt that(1) by simp
  qed
  moreover have "s \<le> s2" using p1(1) p2(1) by linarith
  ultimately have "moves es s (rbind (parseredirs n b es s2) (\<lambda>(rs', s). parseargs n b es argv' (rs @ rs') s))" if "t1 \<noteq> 0" for argv'
    using moves_mono that by blast
  then show ?case using pk g1 p1 p2 by (cases r) (simp_all add: moves_Ok)
qed simp

text \<open>The pattern of the parser: look for a symbol, and when it is there take it and go on.\<close>

lemma peek_token_moves:
  assumes "pos b es t" "\<And>s. t \<le> s \<Longrightarrow> s \<le> es \<Longrightarrow> moves es s (g s)" "\<And>s. t < s \<Longrightarrow> s \<le> es \<Longrightarrow> moves es s (f s)"
  shows "moves es t (case peek b es t toks of (False, s) \<Rightarrow> g s | (True, s) \<Rightarrow> (case gettoken b es s of (_, _, _, s) \<Rightarrow> f s))"
proof -
  obtain r s1 where pk: "peek b es t toks = (r, s1)" by fastforce
  note p1 = peek_pos [OF assms(1) pk]
  obtain t1 q1 e1 s2 where g1: "gettoken b es s1 = (t1, q1, e1, s2)" by (metis prod_cases4)
  show ?thesis
  proof (cases r)
    case True
    then have "peek b es t toks = (True, s1)" using pk by simp
    note p2 = peek_gettoken [OF assms(1) this g1]
    have "moves es t (f s2)" using moves_mono [OF assms(3) [OF p2(1,2)]] p2(1) by simp
    then show ?thesis using pk g1 True by simp
  next
    case False
    have "moves es t (g s1)" using moves_mono [OF assms(2) [OF p1(1,2)] p1(1)] .
    then show ?thesis using pk False by simp
  qed
qed

lemma parsebacks_moves: "pos b es s \<Longrightarrow> es - s < n \<Longrightarrow> moves es s (parsebacks n b es c s)"
proof (induction n arbitrary: s c)
  case (Suc n)
  show ?case
    unfolding parsebacks.simps
  proof (rule peek_token_moves [OF Suc.prems(1)])
    show "moves es t (parsebacks n b es (BACK c) t)" if "s < t" "t \<le> es" for t
      using Suc.IH [OF pos_le [OF Suc.prems(1) that(2)]] that Suc.prems(2) by simp
  qed (simp add: moves_Ok)
qed simp

lemma parse_moves:
  assumes "pos b es s"
  shows "(4 * (es - s) + 4 \<le> n \<longrightarrow> moves es s (parseline n b es s)) \<and> (4 * (es - s) + 3 \<le> n \<longrightarrow> moves es s (parsepipe n b es s)) \<and>
    (4 * (es - s) + 1 \<le> n \<longrightarrow> moves es s (parseblock n b es s)) \<and> (4 * (es - s) + 2 \<le> n \<longrightarrow> moves es s (parseexec n b es s))"
  using assms
proof (induction n arbitrary: s)
  case (Suc n)
  note pos_t = pos_le [OF Suc.prems]
  note IH = Suc.IH [OF pos_t]
  show ?case
  proof (intro conjI impI)
    assume le: "4 * (es - s) + 4 \<le> Suc n"
    show "moves es s (parseline (Suc n) b es s)"
      unfolding parseline.simps
    proof (rule moves_bind)
      show "moves es s (parsepipe n b es s)" using Suc.IH [OF Suc.prems] le by simp
      fix c t assume t: "s \<le> t" "t \<le> es"
      show "moves es t (rbind (parsebacks n b es c t) (\<lambda>(c, s). case peek b es s (lit '';'') of (False, s) \<Rightarrow> Ok (c, s)
        | (True, s) \<Rightarrow> (case gettoken b es s of (_, _, _, s) \<Rightarrow> rbind (parseline n b es s) (\<lambda>(r, s). Ok (LIST c r, s)))))"
      proof (rule moves_bind)
        show "moves es t (parsebacks n b es c t)" by (rule parsebacks_moves [OF pos_t [OF t(2)]]) (use le t in linarith)
        fix d u assume u: "t \<le> u" "u \<le> es"
        show "moves es u (case peek b es u (lit '';'') of (False, s) \<Rightarrow> Ok (d, s)
          | (True, s) \<Rightarrow> (case gettoken b es s of (_, _, _, s) \<Rightarrow> rbind (parseline n b es s) (\<lambda>(r, s). Ok (LIST d r, s))))"
          by (rule peek_token_moves [OF pos_t [OF u(2)]]) (use IH le t u in \<open>auto intro!: moves_bind simp: moves_Ok\<close>)
      qed
    qed
  next
    assume le: "4 * (es - s) + 3 \<le> Suc n"
    show "moves es s (parsepipe (Suc n) b es s)"
      unfolding parsepipe.simps
    proof (rule moves_bind)
      show "moves es s (parseexec n b es s)" using Suc.IH [OF Suc.prems] le by simp
      fix c t assume t: "s \<le> t" "t \<le> es"
      show "moves es t (case peek b es t (lit ''|'') of (False, s) \<Rightarrow> Ok (c, s)
        | (True, s) \<Rightarrow> (case gettoken b es s of (_, _, _, s) \<Rightarrow> rbind (parsepipe n b es s) (\<lambda>(r, s). Ok (PIPE c r, s))))"
        by (rule peek_token_moves [OF pos_t [OF t(2)]]) (use IH le t in \<open>auto intro!: moves_bind simp: moves_Ok\<close>)
    qed
  next
    assume le: "4 * (es - s) + 1 \<le> Suc n"
    show "moves es s (parseblock (Suc n) b es s)"
      unfolding parseblock.simps
    proof (rule peek_token_moves [OF Suc.prems])
      fix t assume t: "s < t" "t \<le> es"
      show "moves es t (rbind (parseline n b es t) (\<lambda>(c, s). case peek b es s (lit '')'') of (False, s) \<Rightarrow> Panic ''syntax - missing )''
        | (True, s) \<Rightarrow> (case gettoken b es s of (_, _, _, s) \<Rightarrow> rbind (parseredirs n b es s) (\<lambda>(rs, s). Ok (redirs c rs, s)))))"
      proof (rule moves_bind)
        show "moves es t (parseline n b es t)" using IH [OF t(2)] le t by auto
        fix c u assume u: "t \<le> u" "u \<le> es"
        show "moves es u (case peek b es u (lit '')'') of (False, s) \<Rightarrow> Panic ''syntax - missing )''
          | (True, s) \<Rightarrow> (case gettoken b es s of (_, _, _, s) \<Rightarrow> rbind (parseredirs n b es s) (\<lambda>(rs, s). Ok (redirs c rs, s))))"
          by (rule peek_token_moves [OF pos_t [OF u(2)]])
            (use le t u in \<open>auto intro!: moves_bind parseredirs_moves pos_t simp: moves_Ok\<close>)
      qed
    qed simp
  next
    assume le: "4 * (es - s) + 2 \<le> Suc n"
    obtain r s1 where pk: "peek b es s (lit ''('') = (r, s1)" by fastforce
    note p1 = peek_pos [OF Suc.prems pk]
    have "moves es s1 (parseblock n b es s1)" using IH [OF p1(2)] le p1 by auto
    moreover have "moves es s1 (rbind (parseredirs n b es s1) (\<lambda>(rs, s). parseargs n b es [] rs s))"
      by (rule moves_bind) (use le p1 in \<open>auto intro!: parseredirs_moves parseargs_moves pos_t\<close>)
    ultimately show "moves es s (parseexec (Suc n) b es s)" using pk p1(1) by (cases r) (auto intro: moves_mono)
  qed
qed simp

lemma parsecmd_ends:
  assumes "0 \<notin> set l"
  shows "(\<exists>t b. parsecmd (cstr l) = Ok (t, b)) \<or> (\<exists>m. parsecmd (cstr l) = Panic m)"
proof -
  have "pos (cstr l) (length l) 0" using rest_at_cstr [OF assms] assms by (auto simp: pos_def rest_at_def in_set_conv_nth)
  then have "moves (length l) 0 (parseline (4 * length l + 4) (cstr l) (length l) 0)" using parse_moves [of "cstr l" "length l" 0] by simp
  then consider m where "parseline (4 * length l + 4) (cstr l) (length l) 0 = Panic m"
    | t s where "parseline (4 * length l + 4) (cstr l) (length l) 0 = Ok (t, s)" by (auto simp: moves_def)
  then show ?thesis using strlen_cstr [OF assms] by cases (simp_all add: parsecmd_def peek_def Let_def)
qed

section \<open>The property\<close>

text \<open>
  \<^bold>\<open>C17\<close>. The shell reads back every command. A command built from words of ordinary characters, with fewer than ten arguments each, is
  printed as a line with parentheses where they are needed; \<^verbatim>\<open>parsecmd\<close> on this line returns a tree of the same shape, and in the buffer it
  leaves, the pointers of the tree lead to C strings with exactly the words of the command. On any other line the parser returns
  or panics with a syntax error too: its loops and recursion always end.
\<close>

theorem sh_parse_print:
  assumes "sh_ok c" and "0 \<notin> set l"
  shows "(\<exists>t b. parsecmd (cstr (show_cmd 3 c)) = Ok (t, b) \<and> spells (str_at b) t c) \<and>
    ((\<exists>t b. parsecmd (cstr l) = Ok (t, b)) \<or> (\<exists>m. parsecmd (cstr l) = Panic m))"
  using parse_print [OF assms(1)] parsecmd_ends [OF assms(2)] by blast

text \<open>The line \<^verbatim>\<open>(a b;c>d)|e&\<close>.\<close>

definition sh_sample :: scmd where
  "sh_sample = SBack (SPipe (SList (SExec [[97], [98]]) (SRedir (SExec [[99]]) [100] True)) (SExec [[101]]))"

theorem sh_parse_print_witness:
  "show_cmd 3 sh_sample = lit ''( a b; c>d)| e&'' \<and>
   (\<exists>t b. parsecmd (cstr (show_cmd 3 sh_sample)) = Ok (t, b) \<and> spells (str_at b) t sh_sample)"
proof -
  have "show_cmd 3 sh_sample = lit ''( a b; c>d)| e&''"
    by (simp add: sh_sample_def paren_def show_args_def show_redirs_def lit_def)
  moreover have "sh_ok sh_sample" by (simp add: sh_sample_def word_def wordchar_def whitespace_def symbols_def lit_def)
  ultimately show ?thesis using sh_parse_print [of sh_sample "[]"] by simp
qed

end
