(* ===== verification/Spec2Isabelle.thy ===== *)
theory Spec2Isabelle
  imports Sleep Bio Grep Sh
begin

text \<open>
  A verification of the kernel under src/: xv6 for the x86 with ChronoFS, a file system with versioned files, block
  reference counts, snapshots and the recovery of deleted files; and of parts of its user programs. The definitions are
  translated from the C sources, function by function and under their names. This theory only collects the others.

  \<^bold>\<open>Conventions.\<close> A C function becomes a HOL function on explicit state. Kernel code returns a \<open>res\<close>: \<open>Ok\<close> a value, \<open>Panic\<close> the message of
  \<^verbatim>\<open>panic\<close>, \<open>Sleeps\<close> where the process would wait, \<open>Undef\<close> where the C program has no meaning (a null pointer read, signed
  overflow, a loop that does not end). The state is one chain of records: disk, cache and log (\<open>blk_state\<close>), tables of gc.c (\<open>gc_state\<close>),
  console output (\<open>con_state\<close>), superblock and inode cache (\<open>fs_state\<close>), console input and devices (\<open>dev_state\<close>), snapshots and deleted
  files (\<open>ver_state\<close>), open files, pipes and the current process (\<open>file_state\<close>); each operation works on any extension of the part it
  needs. On top, \<open>kstate\<close> has the process table. Blocks and memories are functions from addresses to bytes; \<^verbatim>\<open>uint\<close> is a 32-bit
  word where it is used as one, and otherwise a natural number with \<open>mod 2 ^ 32\<close> written out where the source can wrap.

  \<^bold>\<open>Parts.\<close>
  \<^item> Prelude: bytes, little-endian fields, results, array scans.
  \<^item> Block, Bio: \<^verbatim>\<open>bread\<close>, \<^verbatim>\<open>bwrite\<close>, \<^verbatim>\<open>brelse\<close> as the file system sees them, and bio.c itself, the LRU list of thirty buffers over ide.c or
    memide.c. The locale \<open>disk_driver\<close> is the contract of a driver; \<open>bio_refines_block_layer\<close> says that the cache implements the
    block layer, so that everything above may use the simple one.
  \<^item> Log: log.c. A commit interrupted after any of its disk writes and recovered is all or nothing; \<^verbatim>\<open>end_op\<close> commits; the reservation of
    \<^verbatim>\<open>begin_op\<close> suffices for a log of \<^verbatim>\<open>LOGSIZE\<close> blocks beside its header, and does not for the one mkfs.c makes.
  \<^item> Gc: gc.c. Reference counts (locale \<open>refcounts\<close>), deduplication table, checksum.
  \<^item> Alloc, Inode, Content, Dir, Version: fs.c and sleeplock.c. Block bitmap (locale \<open>allocator\<close>), inodes and their cache, block map with
    \<^verbatim>\<open>readi\<close> and \<^verbatim>\<open>writei\<close> on contents as byte functions, directories as maps from names to inode numbers, paths; versions,
    snapshots and deleted files.
  \<^item> Strings, Cprintf, Ring, Console: string.c, the string functions of ulib.c, console.c and uart.c. The locale \<open>ring\<close> holds the ring buffer with
    free-running indices, used for console input and for pipes.
  \<^item> Kalloc, Vm: kalloc.c and vm.c. The free list is linked through the free pages and page tables are read and written in the
    same memory; the lemmas give the address translation a directory denotes, and the user memory behind it.
  \<^item> Pipe, File, Args, SysFile: pipe.c, file.c, the argument functions of syscall.c, and sysfile.c. Pipe shows that a writer and its readers,
    who sleep and wake each other as the code does, always get every byte across.
  \<^item> Spinlock: spinlock.c on several processors with interrupts, as a step relation at the granularity of the single stores.
  \<^item> Proc, Exec, Ptable, Sleep: proc.c, sysproc.c, exec.c. Ptable has the invariant of the process table over every order of the
    critical sections; Sleep has \<^verbatim>\<open>sleep\<close> and \<^verbatim>\<open>wakeup\<close> split at their lock operations and shows that no wakeup is lost. Exec shows that a call gives the
    caller the whole new image or leaves the process table as it was.
  \<^item> Grep, Sh: the pattern matcher and line loop of grep.c, and the parser of sh.c.

  \<^bold>\<open>How they interact.\<close> System calls (SysFile, Proc, Exec) fetch their arguments (Args), work on open files (File) that are pipes (Pipe) or
  inodes (Inode, Content, Dir), and bracket their disk writes with \<^verbatim>\<open>begin_op\<close> and \<^verbatim>\<open>end_op\<close> (Log), which write through the block layer
  (Block, Bio). Processes own page tables (Vm) of pages from Kalloc. Where a function waits, the model of the file system stops with
  \<open>Sleeps\<close>; that waiting and waking fit together is the subject of Sleep, of Ptable and, for \<^verbatim>\<open>pipewrite\<close> and \<^verbatim>\<open>piperead\<close>, of Pipe.

  \<^bold>\<open>Bounds and counters.\<close> Loops over arrays and ranges recurse on what is left of them. Counters appear where the source follows links or
  wraps: the walk along a version chain takes at most \<^verbatim>\<open>FSSIZE\<close> steps, more than there are blocks; the walks over page ranges
  have \<open>2 ^ 20\<close> rounds, the pages of the address space; the walk over the buffers of bio.c has one step more than there are buffers, and the wait in
  \<^verbatim>\<open>iderw\<close> one interrupt per queued request; the parser of the shell counts down from four times the length of the line plus four, and is
  proved never to run out. \<^verbatim>\<open>strlen\<close> and the other loops that end only at a zero byte are partial functions into \<open>option\<close>.

  \<^bold>\<open>Not modelled.\<close> Boot loader, start-up and assembly code; the registers of interrupt controllers, timer and multiprocessor tables; the keyboard
  tables (\<^verbatim>\<open>consoleintr\<close> takes the characters as an argument); the segment descriptors of vm.c; of trap.c everything but the clock
  tick, because the rest dispatches to handlers of different parts; \<^verbatim>\<open>procdump\<close>. In user space umalloc.c, printf.c, \<^verbatim>\<open>runcmd\<close> of sh.c and
  the small programs, which are system calls in a row, the tests, and mkfs.c, which runs on the host. Spin locks around the operations of one
  component are not part of its definitions: an operation under a lock is one step. The functions of the file system do not
  wake processes in \<open>kstate\<close>; such wakeups are separate steps of the relation in Ptable, and those of \<^verbatim>\<open>pipeclose\<close> are not followed.
\<close>

end
